(* ===== verification/Prelude.thy ===== *)
theory Prelude
  imports Main "HOL-Library.Word" "HOL-Library.Multiset" "HOL-Library.Code_Target_Nat"
begin

text \<open>
  Shared vocabulary of the development: the fixed-width types of the Go sources, the run-time
  panics a Go operation can raise, checked slice access, loops over a list of indices that may
  panic (\<open>foldM\<close>), unsigned 32-bit arithmetic written out on natural numbers, the
  iteration order of Go maps, and the contract of goroutines that wind down. The collections \<open>u32_simps\<close> and \<open>go_simps\<close> carry the
  component proofs.
\<close>

named_theorems u32_simps "arithmetic of uint32 values kept as natural numbers"
named_theorems go_simps "equations of checked slice access and panicking loops"

section \<open>Fixed-width types\<close>

type_synonym u8 = "8 word"
type_synonym u16 = "16 word"
type_synonym u32 = "32 word"
type_synonym i64 = "64 word"

text \<open>
  A Go \<open>uuid.UUID\<close> is an array of 16 bytes. It is kept as one 128-bit word whose
  \<open>i\<close>-th byte, counted from the least significant end, is element \<open>i\<close> of the array.
\<close>

type_synonym uuid = "128 word"

definition uuid_byte :: "uuid \<Rightarrow> nat \<Rightarrow> u8" where
  "uuid_byte u i = ucast (drop_bit (8 * i) u)"

definition uuid_bytes :: "uuid \<Rightarrow> u8 list" where
  "uuid_bytes u = map (uuid_byte u) [0..<16]"

lemma length_uuid_bytes [simp]: "length (uuid_bytes u) = 16"
  by (simp add: uuid_bytes_def)

section \<open>Panics\<close>

datatype go_panic =
    DivideByZero
  | IndexOutOfRange
  | NilDereference
  | CloseOfClosedChannel
  | SendOnClosedChannel
  | AssignmentToNilMap
  | SliceToArrayConversion
  | MakeSliceLen
  | Unimplemented
  | PanicCall

type_synonym 'a go = "go_panic + 'a"

definition slice_get :: "'a list \<Rightarrow> nat \<Rightarrow> 'a go" where
  "slice_get xs i = (if i < length xs then Inr (xs ! i) else Inl IndexOutOfRange)"

definition slice_set :: "'a list \<Rightarrow> nat \<Rightarrow> 'a \<Rightarrow> ('a list) go" where
  "slice_set xs i v = (if i < length xs then Inr (xs[i := v]) else Inl IndexOutOfRange)"

lemma slice_get_ok [go_simps]: "i < length xs \<Longrightarrow> slice_get xs i = Inr (xs ! i)"
  by (simp add: slice_get_def)

lemma slice_set_ok [go_simps]: "i < length xs \<Longrightarrow> slice_set xs i v = Inr (xs[i := v])"
  by (simp add: slice_set_def)

text \<open>A \<open>for ... range\<close> loop over a list of indices whose body may panic.\<close>

fun foldM :: "('a \<Rightarrow> 's \<Rightarrow> 'e + 's) \<Rightarrow> 'a list \<Rightarrow> 's \<Rightarrow> 'e + 's" where
  "foldM f [] s = Inr s"
| "foldM f (x # xs) s = (case f x s of Inl e \<Rightarrow> Inl e | Inr s' \<Rightarrow> foldM f xs s')"

lemma foldM_append:
  "foldM f (xs @ ys) s = (case foldM f xs s of Inl e \<Rightarrow> Inl e | Inr s' \<Rightarrow> foldM f ys s')"
  by (induction xs arbitrary: s) (auto split: sum.splits)

lemma find_SomeD: "find P xs = Some x \<Longrightarrow> x \<in> set xs \<and> P x"
  by (induction xs) (auto split: if_splits)

text \<open>
  The loop rule: a body that keeps \<open>P\<close> and does not panic under \<open>P\<close> gives a loop that
  keeps \<open>P\<close> and does not panic.
\<close>

lemma foldM_invariant:
  assumes "P s"
    and "\<And>x s. x \<in> set xs \<Longrightarrow> P s \<Longrightarrow> \<exists>s'. f x s = Inr s' \<and> P s'"
  shows "\<exists>s'. foldM f xs s = Inr s' \<and> P s'"
  using assms
proof (induction xs arbitrary: s)
  case Nil
  then show ?case by simp
next
  case (Cons x xs)
  obtain s1 where "f x s = Inr s1" and "P s1"
    using Cons.prems(2)[of x s] Cons.prems(1) by auto
  moreover have "\<exists>s'. foldM f xs s1 = Inr s' \<and> P s'"
    using Cons.IH[OF \<open>P s1\<close>] Cons.prems(2) by simp
  ultimately show ?case by simp
qed

lemma foldM_upt_invariant:
  assumes "a \<le> b" and "P a s"
    and "\<And>i s. a \<le> i \<Longrightarrow> i < b \<Longrightarrow> P i s \<Longrightarrow> \<exists>s'. f i s = Inr s' \<and> P (Suc i) s'"
  shows "\<exists>s'. foldM f [a..<b] s = Inr s' \<and> P b s'"
  using assms
proof (induction "b - a" arbitrary: a s)
  case 0
  then show ?case by simp
next
  case (Suc d)
  then have "a < b" by simp
  then have upt: "[a..<b] = a # [Suc a..<b]" by (rule upt_conv_Cons)
  obtain s1 where s1: "f a s = Inr s1" and "P (Suc a) s1"
    using Suc.prems(3)[of a s] \<open>a < b\<close> Suc.prems(2) by auto
  have "\<exists>s'. foldM f [Suc a..<b] s1 = Inr s' \<and> P b s'"
    by (rule Suc.hyps(1)) (use Suc.hyps(2) \<open>a < b\<close> \<open>P (Suc a) s1\<close> Suc.prems(3) in auto)
  then show ?case by (simp add: upt s1)
qed

lemma map_sum_Inr: "map_sum f g z = Inr y \<longleftrightarrow> (\<exists>x. z = Inr x \<and> g x = y)"
  by (cases z) auto

text \<open>
  Code with a loop that may run forever has results of type \<open>'a comp\<close>: \<open>None\<close> is a
  run that does not end. \<open>foldD\<close> is the loop over indices for such bodies.
\<close>

type_synonym 'a comp = "('a go) option"

fun foldD :: "('a \<Rightarrow> 's \<Rightarrow> 's comp) \<Rightarrow> 'a list \<Rightarrow> 's \<Rightarrow> 's comp" where
  "foldD f [] s = Some (Inr s)"
| "foldD f (x # xs) s =
     (case f x s of
        None \<Rightarrow> None
      | Some (Inl e) \<Rightarrow> Some (Inl e)
      | Some (Inr s') \<Rightarrow> foldD f xs s')"

lemma foldD_invariant:
  assumes "P s"
    and "\<And>x s. x \<in> set xs \<Longrightarrow> P s \<Longrightarrow> \<exists>s'. f x s = Some (Inr s') \<and> P s'"
  shows "\<exists>s'. foldD f xs s = Some (Inr s') \<and> P s'"
  using assms
proof (induction xs arbitrary: s)
  case Nil
  then show ?case by simp
next
  case (Cons x xs)
  obtain s1 where "f x s = Some (Inr s1)" and "P s1"
    using Cons.prems(2)[of x s] Cons.prems(1) by auto
  moreover have "\<exists>s'. foldD f xs s1 = Some (Inr s') \<and> P s'"
    using Cons.IH[OF \<open>P s1\<close>] Cons.prems(2) by simp
  ultimately show ?case by simp
qed

lemma foldD_snoc: "foldD f xs s = Some (Inr s') \<Longrightarrow> foldD f (xs @ [x]) s = f x s'"
  by (induction xs arbitrary: s) (auto split: option.splits sum.splits)

text \<open>The same rule with an invariant that counts the rounds of a loop over \<open>[a..<b]\<close>.\<close>

lemma foldD_upt_invariant:
  assumes "a \<le> b" and "P a s"
    and "\<And>i s. a \<le> i \<Longrightarrow> i < b \<Longrightarrow> P i s \<Longrightarrow> \<exists>s'. f i s = Some (Inr s') \<and> P (Suc i) s'"
  shows "\<exists>s'. foldD f [a..<b] s = Some (Inr s') \<and> P b s'"
  using assms
proof (induction "b - a" arbitrary: a s)
  case 0
  then show ?case by simp
next
  case (Suc d)
  then have "a < b" by simp
  then have upt: "[a..<b] = a # [Suc a..<b]" by (rule upt_conv_Cons)
  obtain s1 where s1: "f a s = Some (Inr s1)" and "P (Suc a) s1"
    using Suc.prems(3)[of a s] \<open>a < b\<close> Suc.prems(2) by auto
  have "\<exists>s'. foldD f [Suc a..<b] s1 = Some (Inr s') \<and> P b s'"
    by (rule Suc.hyps(1)) (use Suc.hyps(2) \<open>a < b\<close> \<open>P (Suc a) s1\<close> Suc.prems(3) in auto)
  then show ?case by (simp add: upt s1)
qed

lemma foldD_const:
  "length xs = length ys \<Longrightarrow> foldD (\<lambda>_. f) xs s = foldD (\<lambda>_. f) ys s"
  by (induction xs ys arbitrary: s rule: list_induct2) (auto split: option.splits sum.splits)

section \<open>Unsigned 32-bit arithmetic\<close>

text \<open>
  A \<open>uint32\<close> that counts or indexes is a natural number below \<open>u32_max\<close>; every operation
  that can wrap is one of the three below.
\<close>

abbreviation u32_max :: nat where
  "u32_max \<equiv> 4294967296"

definition u32_add :: "nat \<Rightarrow> nat \<Rightarrow> nat" where
  "u32_add a b = (a + b) mod u32_max"

definition u32_mul :: "nat \<Rightarrow> nat \<Rightarrow> nat" where
  "u32_mul a b = (a * b) mod u32_max"

definition u32_sub :: "nat \<Rightarrow> nat \<Rightarrow> nat" where
  "u32_sub a b = (a + (u32_max - b mod u32_max)) mod u32_max"

definition u32_of :: "nat \<Rightarrow> nat" where
  "u32_of a = a mod u32_max"

lemma u32_add_small [u32_simps]: "a + b < u32_max \<Longrightarrow> u32_add a b = a + b"
  by (simp add: u32_add_def)

lemma u32_mul_small [u32_simps]: "a * b < u32_max \<Longrightarrow> u32_mul a b = a * b"
  by (simp add: u32_mul_def)

lemma u32_of_small [u32_simps]: "a < u32_max \<Longrightarrow> u32_of a = a"
  by (simp add: u32_of_def)

lemma u32_sub_le [u32_simps]:
  assumes "b \<le> a" and "a < u32_max"
  shows "u32_sub a b = a - b"
proof -
  have "a + (u32_max - b mod u32_max) = (a - b) + u32_max"
    using assms by simp
  then have "u32_sub a b = ((a - b) + u32_max) mod u32_max"
    by (simp only: u32_sub_def)
  then show ?thesis
    using assms by (simp only: mod_add_self2) simp
qed

lemma u32_sub_wraps [u32_simps]: "u32_sub 0 1 = u32_max - 1"
  by (simp add: u32_sub_def)

lemma u32_sub_bound [simp]: "u32_sub a b < u32_max"
  by (simp add: u32_sub_def)

lemma u32_add_bound [simp]: "u32_add a b < u32_max"
  by (simp add: u32_add_def)

section \<open>The last elements of a list\<close>

definition keep_last :: "nat \<Rightarrow> 'a list \<Rightarrow> 'a list" where
  "keep_last n xs = drop (length xs - n) xs"

lemma keep_last_short [simp]: "length xs \<le> n \<Longrightarrow> keep_last n xs = xs"
  by (simp add: keep_last_def)

lemma length_keep_last [simp]: "length (keep_last n xs) = min n (length xs)"
  by (simp add: keep_last_def)

lemma keep_last_keep_last: "keep_last n (keep_last n xs @ ys) = keep_last n (xs @ ys)"
proof (cases "length xs \<le> n")
  case True
  then show ?thesis by simp
next
  case False
  then show ?thesis by (simp add: keep_last_def drop_append add.commute)
qed

lemma keep_last_snoc:
  assumes "0 < n" and "length xs \<le> n"
  shows "keep_last n (xs @ [x]) = (if length xs = n then tl xs else xs) @ [x]"
  using assms by (cases xs) (auto simp: keep_last_def Suc_diff_le)

lemma fold_collect: "fold (\<lambda>x acc. if P x then acc @ [x] else acc) xs acc = acc @ filter P xs"
  by (induction xs arbitrary: acc) auto

lemma weight_update:
  fixes f :: "'a \<Rightarrow> nat"
  assumes "i < length xs"
  shows "(\<Sum>x \<leftarrow> xs[i := y]. f x) + f (xs ! i) = (\<Sum>x \<leftarrow> xs. f x) + f y"
  using assms
proof (induction xs arbitrary: i)
  case (Cons a xs)
  then show ?case by (cases i) (simp_all add: add.commute add.left_commute)
qed simp

lemma take_take_append: "take n (take n xs @ ys) = take n (xs @ ys)"
  by (cases "length xs \<le> n") simp_all

section \<open>Go maps\<close>

text \<open>
  Ranging over a Go map visits every key once, in an order the language leaves open. A function
  whose result can depend on it takes the order as an argument: a permutation of the key list.
\<close>

type_synonym 'k map_order = "'k list \<Rightarrow> 'k list"

definition is_map_order :: "'k map_order \<Rightarrow> bool" where
  "is_map_order ord \<longleftrightarrow> (\<forall>ks. mset (ord ks) = mset ks)"

text \<open>
  A map that is ranged over is kept as the list of its entries, each key once; \<open>map_put\<close> is the
  assignment \<open>m[k] = v\<close>.
\<close>

fun map_put :: "'k \<Rightarrow> 'v \<Rightarrow> ('k \<times> 'v) list \<Rightarrow> ('k \<times> 'v) list" where
  "map_put k v [] = [(k, v)]"
| "map_put k v ((k', v') # m) = (if k' = k then (k, v) # m else (k', v') # map_put k v m)"

lemma map_of_map_put [simp]: "map_of (map_put k v m) = (map_of m)(k \<mapsto> v)"
  by (induction m) auto

lemma keys_map_put: "set (map fst (map_put k v m)) = insert k (set (map fst m))"
  by (induction k v m rule: map_put.induct) auto

lemma distinct_map_put [simp]: "distinct (map fst m) \<Longrightarrow> distinct (map fst (map_put k v m))"
proof (induction k v m rule: map_put.induct)
  case (2 k v k' v' m)
  then show ?case using keys_map_put[of k v m] by auto
qed simp

lemma map_order_set: "is_map_order ord \<Longrightarrow> set (ord ks) = set ks"
  unfolding is_map_order_def by (metis set_mset_mset)

lemma map_order_distinct: "is_map_order ord \<Longrightarrow> distinct (ord ks) = distinct ks"
  unfolding is_map_order_def by (metis mset_eq_imp_distinct_iff)

lemma map_order_id [simp]: "is_map_order (\<lambda>ks. ks)"
  by (simp add: is_map_order_def)

lemma map_order_rev [simp]: "is_map_order rev"
  by (simp add: is_map_order_def)

section \<open>Goroutines that wind down\<close>

text \<open>
  A group of goroutines that has been told to end: every turn keeps the invariant and what told
  them to end, uses up some weight, and a group that cannot move has finished.
\<close>

locale winding_down =
  fixes inv ending finished :: "'s \<Rightarrow> bool" and turn :: "'s \<Rightarrow> 's \<Rightarrow> bool" and weight :: "'s \<Rightarrow> nat"
  assumes turn_inv: "inv s \<Longrightarrow> turn s s' \<Longrightarrow> inv s'"
    and turn_ending: "inv s \<Longrightarrow> ending s \<Longrightarrow> turn s s' \<Longrightarrow> ending s'"
    and turn_weight: "inv s \<Longrightarrow> turn s s' \<Longrightarrow> weight s' < weight s"
    and stuck_finished: "inv s \<Longrightarrow> ending s \<Longrightarrow> \<nexists>s'. turn s s' \<Longrightarrow> finished s"
begin

lemma winds_down:
  assumes "inv s" and "ending s" and "(turn ^^ k) s s'"
  shows "k \<le> weight s" and "inv s'" and "ending s'" and "\<nexists>s''. turn s' s'' \<Longrightarrow> finished s'"
proof -
  have run: "inv s' \<and> ending s' \<and> k + weight s' \<le> weight s"
    using assms(3)
  proof (induction k arbitrary: s')
    case (Suc k)
    then obtain t where t: "(turn ^^ k) s t" "turn t s'" by auto
    then show ?case using Suc.IH[OF t(1)] turn_inv turn_ending turn_weight[of t s'] by fastforce
  qed (use assms(1,2) in simp)
  then show "k \<le> weight s" and "inv s'" and "ending s'" by simp_all
  show "\<nexists>s''. turn s' s'' \<Longrightarrow> finished s'" using run stuck_finished by blast
qed

lemma reaches_stuck:
  assumes "inv s" and "ending s"
  shows "\<exists>s'. turn\<^sup>*\<^sup>* s s' \<and> (\<nexists>s''. turn s' s'') \<and> finished s'"
  using assms
proof (induction "weight s" arbitrary: s rule: less_induct)
  case less
  show ?case
  proof (cases "\<exists>s'. turn s s'")
    case True
    then obtain s' where "turn s s'" by blast
    then show ?thesis
      using less turn_inv turn_ending turn_weight by (meson converse_rtranclp_into_rtranclp)
  next
    case False
    then show ?thesis using less.prems stuck_finished by blast
  qed
qed

lemma reaches_end:
  assumes "inv s" and "ending s"
  shows "\<exists>s'. turn\<^sup>*\<^sup>* s s' \<and> finished s'"
  using reaches_stuck[OF assms] by blast

end

end
