(* ===== verification/Core_Types.thy ===== *)
theory Core_Types
  imports Prelude
begin

text \<open>
  The value types of \<open>internal/types\<close> (\<open>types.go\<close>, \<open>interfaces.go\<close>,
  \<open>errors.go\<close>): backends and their states, assignments, the configuration, the commands
  of a state machine and the sentinel errors of the repository. \<open>NewBackend\<close> caches four
  coordinates read from the identifier in the byte order of the host, which is an argument.
\<close>

unbundle bit_operations_syntax

section \<open>Errors\<close>

text \<open>
  The sentinel errors of the repository. \<open>Joined\<close> is the value that
  \<open>errors.Join\<close> and \<open>flaterrors.Join\<close> build; \<open>External\<close> stands for an error of code
  outside the repository, \<open>ErrorText\<close> for an error made on the spot from a text. A nil error
  is \<open>None\<close>.
\<close>

datatype go_error =
    ErrAlreadyClosed
  | ErrAlreadyRunning
  | ErrCannotRunClosedRunnable
  | ErrRunnableMustBeRunningToBeClosed
  | ErrUnsupportedStateMachineCommand
  | ErrNotFound
  | ErrOperationRequiresAFilterFunc
  | ErrStateMachineMustBeCounter
  | ErrNoOverflow
  | ErrNoUnderflow
  | ErrInputMustBeAPositiveInteger
  | ErrTransformFuncMustNotBeNil
  | ErrObjectsMustNotBeNil
  | ErrInvalidArguments
  | ErrSettingObjectsDSManager
  | ErrUnknownEventKind
  | ErrOperationAborted
  | ErrDSManagerIsShuttingDown
  | ErrInvalidObjectType
  | ErrCreatingInternalEvent
  | ErrInvalidConfig
  | ErrCreatingController
  | ErrRunningUdplbUserlandProgram
  | ErrRemovingMemlock
  | ErrCreatingNewBPFProgram
  | ErrInvalidUDPLBPort
  | ErrParseIEEE802MAC
  | ErrIPMustBeIPv4
  | errInvalidRequestMetadata
  | errATraceIdMustBeSpecified
  | errInvalidResponseMetadata
  | errInvalidDistributedError
  | errAnErrorMustBeSpecified
  | errUnknownErrorType
  | ErrEnvVarNotSet
  | ErrStateFileNotFound
  | ErrorText string
  | External string
  | Joined "go_error list"

type_synonym err = "go_error option"

definition errors_join :: "err list \<Rightarrow> err" where
  "errors_join es =
     (let xs = map the (filter (\<lambda>e. e \<noteq> None) es)
      in if xs = [] then None else Some (Joined xs))"

lemma errors_join_None_iff: "errors_join es = None \<longleftrightarrow> (\<forall>e \<in> set es. e = None)"
  by (induction es) (auto simp: errors_join_def Let_def)

text \<open>\<open>if err != nil { errs = errors.Join(errs, err) }\<close>\<close>

definition join_err :: "err \<Rightarrow> err \<Rightarrow> err" where
  "join_err errs e = (case e of None \<Rightarrow> errs | Some _ \<Rightarrow> errors_join [errs, e])"

lemma join_err_None_iff: "join_err errs e = None \<longleftrightarrow> errs = None \<and> e = None"
  by (auto simp: join_err_def errors_join_None_iff split: option.splits)

section \<open>Backend states\<close>

datatype State = StateUnknown | StateAvailable | StateUnschedulable | StateUnavailable

text \<open>The states are numbered by \<open>iota\<close>; their order is the order of the numbers.\<close>

fun iota :: "State \<Rightarrow> nat" where
  "iota StateUnknown = 0"
| "iota StateAvailable = 1"
| "iota StateUnschedulable = 2"
| "iota StateUnavailable = 3"

lemma iota_inj [simp]: "iota a = iota b \<longleftrightarrow> a = b"
  by (cases a; cases b) simp_all

instantiation State :: linorder
begin
definition less_eq_State :: "State \<Rightarrow> State \<Rightarrow> bool" where
  "less_eq_State a b \<longleftrightarrow> iota a \<le> iota b"
definition less_State :: "State \<Rightarrow> State \<Rightarrow> bool" where
  "less_State a b \<longleftrightarrow> iota a < iota b"
instance
  by standard (auto simp: less_eq_State_def less_State_def)
end

section \<open>Backends, assignments and configuration\<close>

record assignment =
  BackendId :: uuid
  SessionId :: uuid

record backend_spec =
  spec_IP :: "u8 list"
  spec_Port :: int
  spec_MacAddr :: "u8 list"
  spec_State :: State

record backend_status_entry =
  entry_BackendId :: uuid
  entry_State :: State

definition NCoordinates :: nat where
  "NCoordinates = 4"

record backend =
  be_Id :: uuid
  be_Spec :: backend_spec
  be_Status :: State
  coordinates :: "u32 list"

datatype byte_order = LittleEndian | BigEndian

definition uint32_of_bytes :: "byte_order \<Rightarrow> u8 \<Rightarrow> u8 \<Rightarrow> u8 \<Rightarrow> u8 \<Rightarrow> u32" where
  "uint32_of_bytes bo b0 b1 b2 b3 =
     (case bo of
        LittleEndian \<Rightarrow>
          ucast b0 OR push_bit 8 (ucast b1) OR push_bit 16 (ucast b2) OR push_bit 24 (ucast b3)
      | BigEndian \<Rightarrow>
          ucast b3 OR push_bit 8 (ucast b2) OR push_bit 16 (ucast b1) OR push_bit 24 (ucast b0))"

definition NewBackend :: "byte_order \<Rightarrow> uuid \<Rightarrow> backend_spec \<Rightarrow> State \<Rightarrow> backend" where
  "NewBackend bo bid spec status =
     \<lparr>be_Id = bid, be_Spec = spec, be_Status = status,
      coordinates = map (\<lambda>i. uint32_of_bytes bo (uuid_byte bid (4 * i)) (uuid_byte bid (4 * i + 1))
                                (uuid_byte bid (4 * i + 2)) (uuid_byte bid (4 * i + 3)))
                        [0..<NCoordinates]\<rparr>"

definition Coordinates :: "backend \<Rightarrow> u32 list" where
  "Coordinates b = coordinates b"

record backend_config =
  cfg_Enabled :: bool
  cfg_IP :: string
  cfg_MAC :: string
  cfg_Port :: int

record config =
  conf_Ifname :: string
  conf_IP :: string
  conf_Port :: u16
  conf_Backends :: "backend_config list"

text \<open>The copy of 16 bytes into an identifier.\<close>

definition uuid_of_bytes :: "u8 list \<Rightarrow> uuid" where
  "uuid_of_bytes bs = foldr (\<lambda>b acc. ucast b OR push_bit 8 acc) bs 0"

text \<open>The namespaces of \<open>github.com/google/uuid\<close> that name-based identifiers are made in.\<close>

datatype uuid_namespace = NameSpaceDNS | NameSpaceURL

section \<open>State machine commands\<close>

type_synonym StateMachineCommand = string

definition AddCommand :: StateMachineCommand where "AddCommand = ''Add''"
definition AppendCommand :: StateMachineCommand where "AppendCommand = ''Append''"
definition DeleteCommand :: StateMachineCommand where "DeleteCommand = ''Delete''"
definition PutCommand :: StateMachineCommand where "PutCommand = ''Put''"
definition SubtractCommand :: StateMachineCommand where "SubtractCommand = ''Subtract''"

lemmas command_defs = AddCommand_def AppendCommand_def DeleteCommand_def PutCommand_def
  SubtractCommand_def

section \<open>Coordinates\<close>

lemma length_Coordinates_NewBackend [simp]:
  "length (Coordinates (NewBackend bo bid spec st)) = NCoordinates"
  by (simp add: Coordinates_def NewBackend_def)

text \<open>On a little-endian host coordinate \<open>i\<close> is the \<open>i\<close>-th 32-bit chunk of the identifier.\<close>

lemma uint32_chunk:
  assumes "i < 4"
  shows "uint32_of_bytes LittleEndian (uuid_byte u (4 * i)) (uuid_byte u (4 * i + 1))
           (uuid_byte u (4 * i + 2)) (uuid_byte u (4 * i + 3)) = ucast (drop_bit (32 * i) u)"
proof (rule bit_word_eqI)
  fix k assume "k < LENGTH(32)"
  then consider "k < 8" | "8 \<le> k" "k < 16" | "16 \<le> k" "k < 24" | "24 \<le> k" "k < 32"
    by fastforce
  then show "bit (uint32_of_bytes LittleEndian (uuid_byte u (4 * i)) (uuid_byte u (4 * i + 1))
           (uuid_byte u (4 * i + 2)) (uuid_byte u (4 * i + 3))) k
       = bit (ucast (drop_bit (32 * i) u) :: u32) k"
    using assms
    by cases (auto simp: uint32_of_bytes_def uuid_byte_def bit_simps not_le algebra_simps)
qed

section \<open>Identifiers and their bytes\<close>

lemma bit_foldr_bytes:
  fixes bs :: "u8 list"
  assumes "8 * length bs \<le> 128"
  shows "bit (foldr (\<lambda>b acc. ucast b OR push_bit 8 acc) bs (0 :: uuid)) k \<longleftrightarrow>
    k < 8 * length bs \<and> bit (bs ! (k div 8)) (k mod 8)"
  using assms
proof (induction bs arbitrary: k)
  case Nil
  then show ?case by simp
next
  case (Cons b bs)
  show ?case
  proof (cases "k < 8")
    case True
    then show ?thesis using Cons.prems by (simp add: bit_simps)
  next
    case False
    then obtain j where k: "k = j + 8" by (metis le_add_diff_inverse2 not_le)
    have "\<not> bit (ucast b :: uuid) k"
      using False bit_imp_le_length[of b k] by (auto simp: bit_simps)
    then have "bit (foldr (\<lambda>b acc. ucast b OR push_bit 8 acc) (b # bs) (0 :: uuid)) k \<longleftrightarrow>
      k < 128 \<and> bit (foldr (\<lambda>b acc. ucast b OR push_bit 8 acc) bs (0 :: uuid)) j"
      using k by (auto simp: bit_simps dest: bit_imp_le_length)
    moreover have "k div 8 = Suc (j div 8)" "k mod 8 = j mod 8" using k by simp_all
    ultimately show ?thesis using Cons.IH[of j] Cons.prems k by auto
  qed
qed

lemma uuid_byte_of_bytes:
  assumes "length bs = 16" and "i < 16"
  shows "uuid_byte (uuid_of_bytes bs) i = bs ! i"
proof (rule bit_word_eqI)
  fix k assume k: "k < LENGTH(8)"
  then have "(8 * i + k) div 8 = i" "(8 * i + k) mod 8 = k" by simp_all
  then show "bit (uuid_byte (uuid_of_bytes bs) i) k = bit (bs ! i) k"
    using assms k by (simp add: uuid_byte_def uuid_of_bytes_def bit_simps bit_foldr_bytes)
qed

lemma uuid_bytes_of_bytes [simp]: "length bs = 16 \<Longrightarrow> uuid_bytes (uuid_of_bytes bs) = bs"
  by (rule nth_equalityI) (simp_all add: uuid_bytes_def uuid_byte_of_bytes)

lemma uuid_of_bytes_inverse [simp]: "uuid_of_bytes (uuid_bytes u) = u"
proof (rule bit_word_eqI)
  fix k assume k: "k < LENGTH(128)"
  have "8 * (k div 8) + k mod 8 = k" by simp
  then show "bit (uuid_of_bytes (uuid_bytes u)) k = bit u k"
    using k by (simp add: uuid_of_bytes_def bit_foldr_bytes uuid_bytes_def uuid_byte_def bit_simps less_mult_imp_div_less)
qed

end
