(* ===== verification/Lookup_Table.thy ===== *)
theory Lookup_Table
  imports Core_Types
begin

text \<open>
  The lookup-table algorithms of \<open>internal/adapter/rlt/rlt.go\<close> other than the two
  \<open>Robust...\<close> ones: \<open>SimpleLookupTable\<close>, \<open>NaiveFibLookupTable\<close> and
  \<open>ReverseCoordinatesLookupTable\<close>, the one the controller uses. Every \<open>uint32\<close> counter
  is a natural number with the wrap-around written out.
\<close>

section \<open>Tables of primes and Fibonacci numbers\<close>

definition primes :: "nat list" where
  "primes = [2, 3, 5, 7, 13, 17, 19, 31, 61, 89, 107, 127, 521, 607,
     1279, 2203, 2281, 3217, 4253, 4423, 9689, 9941, 11213,
     19937, 21701, 23209, 44497]"

definition fib :: "nat list" where
  "fib = [1, 1, 2, 3, 5, 8, 13, 21, 34, 55, 89, 144, 233, 377, 610, 987, 1587, 2584, 4181]"

definition nextPrime :: "nat \<Rightarrow> nat \<times> bool" where
  "nextPrime current =
     (case find (\<lambda>p. p < current) (rev primes) of
        Some p \<Rightarrow> (p, True)
      | None \<Rightarrow> (0, False))"

definition isNotFullyDistributed :: "nat list \<Rightarrow> bool" where
  "isNotFullyDistributed distribution = list_ex (\<lambda>v. 0 < v) distribution"

section \<open>SimpleLookupTable\<close>

definition SimpleLookupTable :: "backend list \<Rightarrow> nat \<Rightarrow> (nat list) go" where
  "SimpleLookupTable availableBackends m =
     (let n = u32_of (length availableBackends)
      in if m > 0 \<and> n = 0 then Inl DivideByZero else Inr (map (\<lambda>i. i mod n) [0..<m]))"

section \<open>NaiveFibLookupTable\<close>

record naive =
  nv_j :: nat
  nv_k :: nat
  nv_currentEntry :: nat
  nv_banned :: nat
  nv_banList :: "nat list"
  nv_distribution :: "nat \<Rightarrow> nat"
  nv_out :: "nat list"

text \<open>The code after the label \<open>nextentry\<close>, which can jump back to itself.\<close>

partial_function (option) nextentry :: "nat \<Rightarrow> naive \<Rightarrow> naive option" where
  "nextentry n s =
     (let s = s\<lparr>nv_k := 0, nv_currentEntry := u32_add (nv_currentEntry s) 1\<rparr>
      in if nv_currentEntry s < n then Some s
         else let j = u32_add (nv_j s) 1;
                  s = s\<lparr>nv_currentEntry := 0, nv_j := (if j < length fib - 1 then 0 else j)\<rparr>
              in if nv_currentEntry s \<in> set (nv_banList s) then nextentry n s else Some s)"

declare nextentry.simps [code]

definition naive_body :: "nat \<Rightarrow> nat \<Rightarrow> naive \<Rightarrow> naive comp" where
  "naive_body n i s =
     (case slice_set (nv_out s) i (nv_currentEntry s) of
        Inl p \<Rightarrow> Some (Inl p)
      | Inr out \<Rightarrow>
          let c = nv_currentEntry s;
              d = u32_sub (nv_distribution s c) 1;
              s = s\<lparr>nv_out := out, nv_distribution := (nv_distribution s)(c := d)\<rparr>
          in if d < 1
             then map_option Inr
                    (nextentry n (s\<lparr>nv_banned := nv_banned s + 1,
                                    nv_banList := c # nv_banList s\<rparr>))
             else let s = s\<lparr>nv_k := u32_add (nv_k s) 1\<rparr>
                  in (case slice_get fib (nv_j s) of
                        Inl p \<Rightarrow> Some (Inl p)
                      | Inr f \<Rightarrow>
                          if nv_k s < f then Some (Inr s) else map_option Inr (nextentry n s)))"

definition NaiveFibLookupTable :: "backend list \<Rightarrow> nat \<Rightarrow> (nat list) comp" where
  "NaiveFibLookupTable availableBackends m =
     (let n = u32_of (length availableBackends);
          s0 = \<lparr>nv_j = 0, nv_k = 0, nv_currentEntry = 0, nv_banned = 0, nv_banList = [],
                nv_distribution = (\<lambda>i. if i < n then u32_add (m div n) 1 else 0),
                nv_out = replicate m 0\<rparr>
      in map_option (map_sum id nv_out) (foldD (naive_body n) [0..<m] s0))"

section \<open>ReverseCoordinatesLookupTable\<close>

text \<open>
  The locals of the function: the table, the keys of the map \<open>unset\<close>, and the quota of
  each backend.
\<close>

record rct =
  rct_out :: "nat list"
  rct_unset :: "nat list"
  rct_distribution :: "nat list"

definition rct_claim :: "nat \<Rightarrow> nat \<Rightarrow> nat \<Rightarrow> rct \<Rightarrow> rct go" where
  "rct_claim i md k s =
     (let idx = u32_mul (u32_add k 1) md
      in if idx \<notin> set (rct_unset s) then Inr s
         else (case slice_set (rct_out s) idx i of
                 Inl p \<Rightarrow> Inl p
               | Inr out \<Rightarrow>
                   Inr (s\<lparr>rct_out := out,
                          rct_distribution :=
                            (rct_distribution s)[i := u32_sub (rct_distribution s ! i) 1],
                          rct_unset := removeAll idx (rct_unset s)\<rparr>)))"

definition rct_coordinate :: "nat \<Rightarrow> nat \<Rightarrow> nat \<Rightarrow> u32 \<Rightarrow> rct \<Rightarrow> rct go" where
  "rct_coordinate m prime i c s =
     (if rct_distribution s ! i < 1 then Inr s
      else if prime = 0 then Inl DivideByZero
      else foldM (rct_claim i (unat c mod prime)) [0..<m div prime] s)"

definition rct_pass :: "backend list \<Rightarrow> nat \<Rightarrow> nat \<Rightarrow> rct \<Rightarrow> rct go" where
  "rct_pass bs m prime s =
     foldM (\<lambda>(i, b). foldM (rct_coordinate m prime i) (Coordinates b)) (enumerate 0 bs) s"

lemma nextPrime_less: "nextPrime current = (p, True) \<Longrightarrow> p < current"
  by (auto simp: nextPrime_def find_Some_iff split: option.splits)

function rct_loop :: "backend list \<Rightarrow> nat \<Rightarrow> nat \<Rightarrow> rct \<Rightarrow> rct go" where
  "rct_loop bs m prime s =
     (case rct_pass bs m prime s of
        Inl p \<Rightarrow> Inl p
      | Inr s' \<Rightarrow>
          (case nextPrime prime of
             (p, shouldContinue) \<Rightarrow>
               if shouldContinue \<and> isNotFullyDistributed (rct_distribution s')
               then rct_loop bs m p s' else Inr s'))"
  by pat_completeness auto
termination
  by (relation "measure (\<lambda>(bs, m, prime, s). prime)")
    (auto dest: nextPrime_less[OF sym])

declare rct_loop.simps [simp del]

fun rct_fill :: "nat \<Rightarrow> nat list \<Rightarrow> nat \<Rightarrow> nat list \<Rightarrow> (nat list) go" where
  "rct_fill n [] i out = Inr out"
| "rct_fill n (k # ks) i out =
     (let i' = (if i > u32_sub n 1 then 0 else i)
      in case slice_set out k i' of
           Inl p \<Rightarrow> Inl p
         | Inr out' \<Rightarrow> rct_fill n ks (u32_add i' 1) out')"

definition rct_start :: "nat \<Rightarrow> nat \<Rightarrow> rct" where
  "rct_start n m =
     \<lparr>rct_out = replicate m 0, rct_unset = [0..<m], rct_distribution = replicate n (m div n)\<rparr>"

definition ReverseCoordinatesLookupTable ::
    "nat map_order \<Rightarrow> backend list \<Rightarrow> nat \<Rightarrow> (nat list) go" where
  "ReverseCoordinatesLookupTable ord availableBackends m =
     (let n = u32_of (length availableBackends)
      in if n < length availableBackends then Inl IndexOutOfRange
         else (case rct_loop availableBackends m m (rct_start n m) of
                 Inl p \<Rightarrow> Inl p
               | Inr s \<Rightarrow> rct_fill n (ord (rct_unset s)) 0 (rct_out s)))"

definition ShardedLookupTable :: "backend list \<Rightarrow> nat \<Rightarrow> (nat list) go" where
  "ShardedLookupTable availableBackends lookupTableLength = Inl Unimplemented"

section \<open>Round-robin tables\<close>

lemma count_round_robin:
  assumes "0 < n" and "j < n"
  shows "count_list (map (\<lambda>i. i mod n) [0..<m]) j = m div n + (if j < m mod n then 1 else 0)"
proof (induction m)
  case 0
  then show ?case by simp
next
  case (Suc m)
  have "m mod n < n" using assms by simp
  then show ?case
    using Suc assms by (auto simp: mod_Suc div_Suc)
qed

text \<open>
  C23. \<open>SimpleLookupTable\<close> is fair: with \<open>n\<close> backends and \<open>m\<close> slots it returns a table of
  length \<open>m\<close> in which backend \<open>j\<close> owns exactly \<open>m div n\<close> slots, and one more when
  \<open>j\<close> is below the remainder.
\<close>

theorem SimpleLookupTable_fair:
  assumes "length bs = n" and "0 < n" and "n < u32_max" and "j < n"
  shows "\<exists>out. SimpleLookupTable bs m = Inr out \<and> length out = m \<and>
           count_list out j = m div n + (if j < m mod n then 1 else 0)"
  using assms count_round_robin[of n j m] by (simp add: SimpleLookupTable_def u32_simps)

section \<open>NaiveFibLookupTable is the round robin\<close>

text \<open>
  The state before round \<open>i\<close>: the Fibonacci index never moves, so the loop hands out one slot
  per backend in turn and the quota of a backend is what round robin leaves of it.
\<close>

definition naive_inv :: "nat \<Rightarrow> nat \<Rightarrow> nat \<Rightarrow> naive \<Rightarrow> bool" where
  "naive_inv n m i s \<longleftrightarrow>
     nv_j s = 0 \<and> nv_k s = 0 \<and> nv_currentEntry s = i mod n \<and>
     (\<forall>c < n. nv_distribution s c + i div n + (if c < i mod n then 1 else 0) = m div n + 1) \<and>
     (\<forall>c \<in> set (nv_banList s). c < n \<and> nv_distribution s c = 0) \<and>
     nv_out s = map (\<lambda>k. k mod n) [0..<i] @ replicate (m - i) 0"

lemma naive_out_step:
  assumes "i < m"
  shows "(map (\<lambda>k. k mod n) [0..<i] @ replicate (m - i) 0)[i := i mod n] =
         map (\<lambda>k. k mod n) [0..<Suc i] @ replicate (m - Suc i) 0"
proof -
  have "replicate (m - i) (0::nat) = 0 # replicate (m - Suc i) 0"
    using assms by (metis Suc_diff_Suc replicate_Suc)
  then show ?thesis by (simp add: list_update_append)
qed

lemma nextentry_round:
  assumes "nv_j s = 0" and "nv_currentEntry s < n" and "n < u32_max"
    and "Suc (nv_currentEntry s) = n \<Longrightarrow> 0 \<notin> set (nv_banList s)"
  shows "nextentry n s =
    Some (s\<lparr>nv_k := 0, nv_currentEntry := Suc (nv_currentEntry s) mod n, nv_j := 0\<rparr>)"
  using assms
  by (subst nextentry.simps) (auto simp: Let_def u32_add_def fib_def not_less le_Suc_eq)

lemma round_robin_quota_step:
  assumes "\<forall>c < n. d c + i div n + (if c < i mod n then 1 else 0) = q" and "0 < n"
    and "1 \<le> d (i mod n)"
  shows "\<forall>c < n. (d(i mod n := d (i mod n) - 1)) c + Suc i div n
           + (if c < Suc i mod n then 1 else (0::nat)) = q"
proof (intro allI impI)
  fix c assume "c < n"
  have eq: "d c + i div n + (if c < i mod n then 1 else 0) = q"
    using assms(1) \<open>c < n\<close> by blast
  have lt: "i mod n < n" using assms(2) by simp
  show "(d(i mod n := d (i mod n) - 1)) c + Suc i div n
           + (if c < Suc i mod n then 1 else 0) = q"
  proof (cases "c = i mod n")
    case True
    then have "d (i mod n) + i div n = q" using eq by simp
    then show ?thesis using True assms(3) by (auto simp: mod_Suc div_Suc)
  next
    case False
    then show ?thesis
      using eq lt \<open>c < n\<close> by (auto simp: mod_Suc div_Suc split: if_splits)
  qed
qed

lemma naive_body_unfold:
  assumes "nv_currentEntry s = c" and "nv_j s = 0" and "nv_k s = 0"
    and "slice_set (nv_out s) i c = Inr out" and "u32_sub (nv_distribution s c) 1 = d"
  shows "naive_body n i s = map_option Inr (nextentry n
    (if d < 1
     then s\<lparr>nv_out := out, nv_distribution := (nv_distribution s)(c := d),
            nv_banned := nv_banned s + 1, nv_banList := c # nv_banList s\<rparr>
     else s\<lparr>nv_out := out, nv_distribution := (nv_distribution s)(c := d), nv_k := 1\<rparr>))"
  using assms by (simp add: naive_body_def Let_def slice_get_def fib_def u32_add_def)

lemma naive_body_step:
  assumes inv: "naive_inv n m i s" and "i < m" and "0 < n" and "n < u32_max" and "Suc m < u32_max"
  shows "\<exists>s'. naive_body n i s = Some (Inr s') \<and> naive_inv n m (Suc i) s'"
proof -
  define c where "c = i mod n"
  define d' where "d' = (nv_distribution s)(c := nv_distribution s c - 1)"
  define out' where "out' = map (\<lambda>k. k mod n) [0..<Suc i] @ replicate (m - Suc i) 0"
  define bl where "bl = (if nv_distribution s c - 1 < 1 then c # nv_banList s else nv_banList s)"
  define s1 where "s1 = (if nv_distribution s c - 1 < 1
     then s\<lparr>nv_out := out', nv_distribution := d', nv_banned := nv_banned s + 1,
            nv_banList := c # nv_banList s\<rparr>
     else s\<lparr>nv_out := out', nv_distribution := d', nv_k := 1\<rparr>)"
  have c: "c < n" using \<open>0 < n\<close> by (simp add: c_def)
  have dist: "nv_distribution s c + i div n = m div n + 1"
    using inv c unfolding naive_inv_def c_def by (metis add.right_neutral less_irrefl)
  have "i div n \<le> m div n" using \<open>i < m\<close> by (simp add: div_le_mono)
  then have pos: "1 \<le> nv_distribution s c" using dist by simp
  have "nv_distribution s c \<le> m div n + 1" and "m div n \<le> m" using dist by simp_all
  then have "nv_distribution s c < u32_max" using \<open>Suc m < u32_max\<close> by linarith
  with pos have sub: "u32_sub (nv_distribution s c) 1 = nv_distribution s c - 1"
    by (rule u32_sub_le)
  have quota: "\<forall>c' < n. d' c' + Suc i div n + (if c' < Suc i mod n then 1 else 0) = m div n + 1"
    unfolding d'_def c_def
    by (rule round_robin_quota_step) (use inv \<open>0 < n\<close> pos in \<open>auto simp: naive_inv_def c_def\<close>)
  have banned: "\<forall>x \<in> set bl. x < n \<and> d' x = 0"
    using inv pos c by (auto simp: naive_inv_def d'_def bl_def)
  have wrap: "0 \<notin> set bl" if "Suc c = n"
  proof
    assume "0 \<in> set bl"
    then have "d' 0 = 0" using banned by blast
    then have "Suc i div n = m div n + 1"
      using quota \<open>0 < n\<close> that by (auto simp: c_def mod_Suc)
    moreover have "Suc i div n \<le> m div n"
      using \<open>i < m\<close> by (simp add: div_le_mono)
    ultimately show False by simp
  qed
  have s: "nv_currentEntry s = c" "nv_j s = 0" "nv_k s = 0"
    using inv by (simp_all add: naive_inv_def c_def)
  have out: "slice_set (nv_out s) i c = Inr out'"
    using inv \<open>i < m\<close> naive_out_step[of i m n]
    by (simp add: naive_inv_def slice_set_def c_def out'_def)
  have s1: "nv_currentEntry s1 = c" "nv_j s1 = 0" "nv_banList s1 = bl" "nv_distribution s1 = d'"
    "nv_out s1 = out'"
    using s by (simp_all add: s1_def bl_def)
  have "naive_body n i s = map_option Inr (nextentry n s1)"
    using naive_body_unfold[OF s out sub] by (simp add: s1_def d'_def)
  also have "nextentry n s1 =
      Some (s1\<lparr>nv_k := 0, nv_currentEntry := Suc i mod n, nv_j := 0\<rparr>)"
    using nextentry_round[of s1 n] s1 c \<open>n < u32_max\<close> wrap by (simp add: c_def mod_Suc)
  finally show ?thesis
    using quota banned s1 by (auto simp: naive_inv_def out'_def)
qed


section \<open>ReverseCoordinatesLookupTable\<close>

text \<open>
  Well-formed locals, and the relation between an earlier and a later state of the coordinate
  passes: slots are only ever claimed, and a claimed slot is never written again.
\<close>

definition rct_wf :: "nat \<Rightarrow> nat \<Rightarrow> rct \<Rightarrow> bool" where
  "rct_wf n m s \<longleftrightarrow>
     length (rct_out s) = m \<and> length (rct_distribution s) = n \<and> distinct (rct_unset s) \<and>
     (\<forall>k \<in> set (rct_unset s). k < m) \<and>
     (\<forall>k < m. k \<notin> set (rct_unset s) \<longrightarrow> rct_out s ! k < n)"

definition rct_extends :: "rct \<Rightarrow> rct \<Rightarrow> bool" where
  "rct_extends s s' \<longleftrightarrow>
     set (rct_unset s') \<subseteq> set (rct_unset s) \<and>
     (\<forall>k. k \<notin> set (rct_unset s) \<longrightarrow> rct_out s' ! k = rct_out s ! k)"

lemma rct_extends_refl [simp]: "rct_extends s s"
  by (simp add: rct_extends_def)

lemma rct_extends_trans: "rct_extends s t \<Longrightarrow> rct_extends t u \<Longrightarrow> rct_extends s u"
  by (auto simp: rct_extends_def)

lemma rct_extends_claimed:
  "rct_extends s t \<Longrightarrow> k \<notin> set (rct_unset s) \<Longrightarrow>
     k \<notin> set (rct_unset t) \<and> rct_out t ! k = rct_out s ! k"
  by (auto simp: rct_extends_def)

lemma rct_claim_step:
  assumes "rct_wf n m s" and "i < n"
  shows "\<exists>s'. rct_claim i md k s = Inr s' \<and> rct_wf n m s' \<and> rct_extends s s'"
proof (cases "u32_mul (u32_add k 1) md \<in> set (rct_unset s)")
  case True
  then show ?thesis
    using assms by (auto simp: rct_claim_def rct_wf_def rct_extends_def Let_def slice_set_def
        nth_list_update distinct_removeAll)
next
  case False
  then show ?thesis using assms by (simp add: rct_claim_def Let_def)
qed

text \<open>
  What one stage of a pass does to a state \<open>s\<close>; with modulus 0 (an empty table) it does
  nothing, because every quota is 0 then.
\<close>

definition rct_stage :: "nat \<Rightarrow> nat \<Rightarrow> nat \<Rightarrow> rct \<Rightarrow> rct \<Rightarrow> bool" where
  "rct_stage n m prime s s' \<longleftrightarrow>
     rct_wf n m s' \<and> rct_extends s s' \<and> (prime = 0 \<longrightarrow> s' = s)"

definition rct_ready :: "nat \<Rightarrow> nat \<Rightarrow> nat \<Rightarrow> rct \<Rightarrow> bool" where
  "rct_ready n m prime s \<longleftrightarrow>
     rct_wf n m s \<and> (prime = 0 \<longrightarrow> (\<forall>i < n. rct_distribution s ! i = 0))"

lemma rct_stage_refl: "rct_ready n m prime s \<Longrightarrow> rct_stage n m prime s s"
  by (simp add: rct_stage_def rct_ready_def)

lemma rct_stage_ready: "rct_ready n m prime s \<Longrightarrow> rct_stage n m prime s t \<Longrightarrow> rct_ready n m prime t"
  by (auto simp: rct_stage_def rct_ready_def)

lemma rct_stage_trans: "rct_stage n m prime s t \<Longrightarrow> rct_stage n m prime t u \<Longrightarrow> rct_stage n m prime s u"
  by (auto simp: rct_stage_def intro: rct_extends_trans)

lemma foldM_stage:
  assumes "rct_ready n m prime s"
    and "\<And>x s. x \<in> set xs \<Longrightarrow> rct_ready n m prime s \<Longrightarrow> \<exists>s'. f x s = Inr s' \<and> rct_stage n m prime s s'"
  shows "\<exists>s'. foldM f xs s = Inr s' \<and> rct_stage n m prime s s'"
proof (rule foldM_invariant)
  show "rct_stage n m prime s s" using assms(1) by (rule rct_stage_refl)
next
  fix x t assume "x \<in> set xs" and st: "rct_stage n m prime s t"
  then have "rct_ready n m prime t" using assms(1) rct_stage_ready by blast
  with assms(2)[OF \<open>x \<in> set xs\<close>] obtain u where "f x t = Inr u" "rct_stage n m prime t u" by blast
  then show "\<exists>u. f x t = Inr u \<and> rct_stage n m prime s u" using st rct_stage_trans by blast
qed

lemma rct_coordinate_step:
  assumes "rct_ready n m prime s" and "i < n"
  shows "\<exists>s'. rct_coordinate m prime i c s = Inr s' \<and> rct_stage n m prime s s'"
proof (cases "rct_distribution s ! i < 1")
  case True
  then show ?thesis using assms rct_stage_refl by (simp add: rct_coordinate_def)
next
  case False
  then have "prime \<noteq> 0" using assms by (auto simp: rct_ready_def)
  have "\<exists>s'. foldM (rct_claim i (unat c mod prime)) [0..<m div prime] s = Inr s' \<and>
          rct_stage n m prime s s'"
    by (rule foldM_stage[OF assms(1)])
      (use \<open>prime \<noteq> 0\<close> assms(2) rct_claim_step in \<open>auto simp: rct_stage_def rct_ready_def\<close>)
  then show ?thesis using False \<open>prime \<noteq> 0\<close> by (simp add: rct_coordinate_def)
qed

lemma rct_backend_step:
  assumes "rct_ready n m prime s" and "i < n"
  shows "\<exists>s'. foldM (rct_coordinate m prime i) cs s = Inr s' \<and> rct_stage n m prime s s'"
  by (rule foldM_stage[OF assms(1)]) (rule rct_coordinate_step[OF _ assms(2)])

lemma rct_pass_list_step:
  assumes "rct_ready n m prime s" and "\<forall>(i, b) \<in> set ibs. i < n"
  shows "\<exists>s'. foldM (\<lambda>(i, b). foldM (rct_coordinate m prime i) (Coordinates b)) ibs s = Inr s' \<and>
           rct_stage n m prime s s'"
proof (rule foldM_stage[OF assms(1)])
  fix x t assume "x \<in> set ibs" and "rct_ready n m prime t"
  then show "\<exists>u. (case x of (i, b) \<Rightarrow> foldM (rct_coordinate m prime i) (Coordinates b)) t = Inr u \<and>
               rct_stage n m prime t u"
    using assms(2) rct_backend_step by (cases x) auto
qed

lemma enumerate_less: "(i, b) \<in> set (enumerate j bs) \<Longrightarrow> i < j + length bs"
  by (auto simp: in_set_enumerate_eq)

lemma rct_pass_step:
  assumes "rct_ready n m prime s" and "length bs = n"
  shows "\<exists>s'. rct_pass bs m prime s = Inr s' \<and> rct_stage n m prime s s'"
  unfolding rct_pass_def
  by (rule rct_pass_list_step[OF assms(1)]) (use assms(2) in \<open>auto dest: enumerate_less\<close>)

lemma nextPrime_pos: "nextPrime c = (p, True) \<Longrightarrow> p \<noteq> 0"
proof -
  assume "nextPrime c = (p, True)"
  then have "p \<in> set (rev primes)"
    by (auto simp: nextPrime_def split: option.splits dest: find_SomeD)
  then show "p \<noteq> 0" by (auto simp: primes_def)
qed

lemma rct_loop_step:
  assumes "rct_ready n m prime s" and "length bs = n"
  shows "\<exists>s'. rct_loop bs m prime s = Inr s' \<and> rct_wf n m s' \<and> rct_extends s s'"
  using assms
proof (induction bs m prime s rule: rct_loop.induct)
  case (1 bs m prime s)
  obtain s1 where s1: "rct_pass bs m prime s = Inr s1" and "rct_stage n m prime s s1"
    using rct_pass_step[OF 1(2,3)] by blast
  then have s1': "rct_wf n m s1" "rct_extends s s1" by (simp_all add: rct_stage_def)
  obtain p more where np: "nextPrime prime = (p, more)" by (cases "nextPrime prime")
  show ?case
  proof (cases "more \<and> isNotFullyDistributed (rct_distribution s1)")
    case True
    then have "rct_ready n m p s1" using nextPrime_pos np s1' by (auto simp: rct_ready_def)
    with 1(1)[OF s1 np[symmetric] True] 1(3) obtain s2
      where "rct_loop bs m p s1 = Inr s2" "rct_wf n m s2" "rct_extends s1 s2" by blast
    then show ?thesis
      using s1 s1' np True by (subst rct_loop.simps) (auto intro: rct_extends_trans)
  next
    case False
    then show ?thesis using s1 s1' np by (subst rct_loop.simps) auto
  qed
qed

lemma rct_fill_step:
  assumes "\<forall>k \<in> set ks. k < length out" and "0 < n" and "n < u32_max"
  shows "\<exists>out'. rct_fill n ks i out = Inr out' \<and> length out' = length out \<and>
           (\<forall>k. k \<notin> set ks \<longrightarrow> out' ! k = out ! k) \<and> (\<forall>k \<in> set ks. out' ! k < n)"
  using assms(1)
proof (induction ks arbitrary: i out)
  case Nil
  then show ?case by simp
next
  case (Cons k ks)
  define i' where "i' = (if i > u32_sub n 1 then 0 else i)"
  have "u32_sub n 1 = n - 1" using assms(2,3) by (intro u32_sub_le) simp_all
  then have "i' < n" using assms(2) by (auto simp: i'_def)
  obtain out' where fill: "rct_fill n ks (u32_add i' 1) (out[k := i']) = Inr out'"
    and len: "length out' = length out"
    and kept: "\<forall>x. x \<notin> set ks \<longrightarrow> out' ! x = out[k := i'] ! x"
    and less: "\<forall>x \<in> set ks. out' ! x < n"
    using Cons.IH[of "out[k := i']" "u32_add i' 1"] Cons.prems by auto
  have "rct_fill n (k # ks) i out = Inr out'"
    using fill Cons.prems by (simp add: Let_def i'_def slice_set_def split: if_splits)
  moreover have "\<forall>x. x \<notin> set (k # ks) \<longrightarrow> out' ! x = out ! x"
    using kept by simp
  moreover have "\<forall>x \<in> set (k # ks). out' ! x < n"
    using kept less Cons.prems \<open>i' < n\<close> by (cases "k \<in> set ks") simp_all
  ultimately show ?case using len by blast
qed

lemma rct_start_wf [simp]: "rct_wf n m (rct_start n m)"
  by (simp add: rct_wf_def rct_start_def)

lemma rct_start_ready [simp]: "rct_ready n m m (rct_start n m)"
  by (simp add: rct_ready_def) (simp add: rct_start_def)

lemma rct_run:
  assumes "length bs = n" and "0 < n" and "n < u32_max" and "is_map_order ord"
    and s: "rct_loop bs m m (rct_start n m) = Inr s"
  shows "\<exists>out. ReverseCoordinatesLookupTable ord bs m = Inr out \<and> length out = m \<and>
           (\<forall>x \<in> set out. x < n) \<and> (\<forall>k. k \<notin> set (rct_unset s) \<longrightarrow> out ! k = rct_out s ! k)"
proof -
  have wf: "rct_wf n m s"
    using rct_loop_step[OF rct_start_ready[of n m] assms(1)] s by auto
  have ord: "set (ord (rct_unset s)) = set (rct_unset s)"
    using map_order_set[OF assms(4)] .
  then have "\<forall>k \<in> set (ord (rct_unset s)). k < length (rct_out s)"
    using wf by (auto simp: rct_wf_def)
  then obtain out where out: "rct_fill n (ord (rct_unset s)) 0 (rct_out s) = Inr out"
    "length out = length (rct_out s)" "\<forall>k. k \<notin> set (rct_unset s) \<longrightarrow> out ! k = rct_out s ! k"
    "\<forall>k \<in> set (rct_unset s). out ! k < n"
    using rct_fill_step[OF _ assms(2,3)] ord by metis
  have "\<forall>k < length out. out ! k < n" using out wf by (metis rct_wf_def)
  then have "\<forall>x \<in> set out. x < n" by (auto simp: in_set_conv_nth)
  then show ?thesis
    using s out wf assms by (simp add: ReverseCoordinatesLookupTable_def u32_simps rct_wf_def)
qed

lemma rct_loop_total:
  "length bs = n \<Longrightarrow> \<exists>s. rct_loop bs m m (rct_start n m) = Inr s \<and> rct_wf n m s"
  using rct_loop_step[OF rct_start_ready] by blast

lemma rct_total:
  assumes "0 < length bs" and "length bs < u32_max" and "is_map_order ord"
  shows "\<exists>out. ReverseCoordinatesLookupTable ord bs m = Inr out \<and> length out = m \<and>
           (\<forall>x \<in> set out. x < length bs)"
proof -
  obtain s where "rct_loop bs m m (rct_start (length bs) m) = Inr s"
    using rct_loop_total by blast
  from rct_run[OF refl assms this] show ?thesis by blast
qed

text \<open>
  C12. \<open>ReverseCoordinatesLookupTable\<close> is total and safe: for at least one backend it ends
  without a panic, whatever the map iteration order, in a table of exactly \<open>m\<close> entries all of
  which index the backend list.
\<close>

theorem ReverseCoordinates_total:
  assumes "0 < length bs" and "length bs < u32_max" and "is_map_order ord"
  shows "\<exists>out. ReverseCoordinatesLookupTable ord bs m = Inr out \<and> length out = m \<and>
           (\<forall>x \<in> set out. x < length bs)"
  using rct_total[OF assms] .

text \<open>
  C22. The map iteration order reaches only the slots that the coordinate passes leave
  unclaimed: on every claimed slot two runs of \<open>ReverseCoordinatesLookupTable\<close> agree,
  whatever their orders.
\<close>

theorem ReverseCoordinates_claimed_deterministic:
  assumes "0 < length bs" and "length bs < u32_max"
    and "is_map_order ord1" and "is_map_order ord2"
    and "rct_loop bs m m (rct_start (length bs) m) = Inr s" and "k \<notin> set (rct_unset s)"
  shows "\<exists>out1 out2. ReverseCoordinatesLookupTable ord1 bs m = Inr out1 \<and>
           ReverseCoordinatesLookupTable ord2 bs m = Inr out2 \<and> out1 ! k = out2 ! k"
  using rct_run[OF refl assms(1,2,3,5)] rct_run[OF refl assms(1,2,4,5)] assms(6) by metis

section \<open>Home slots\<close>

lemma rct_loop_after_pass:
  assumes "rct_pass bs m prime s = Inr s1" and "rct_wf n m s1" and "length bs = n"
  shows "\<exists>s'. rct_loop bs m prime s = Inr s' \<and> rct_extends s1 s'"
proof (cases "nextPrime prime")
  case (Pair p more)
  show ?thesis
  proof (cases "more \<and> isNotFullyDistributed (rct_distribution s1)")
    case True
    then have "rct_ready n m p s1" using Pair nextPrime_pos assms(2) by (auto simp: rct_ready_def)
    then show ?thesis
      using rct_loop_step[of n m p s1 bs] assms Pair True
      by (subst rct_loop.simps) auto
  next
    case False
    then show ?thesis using assms(1) Pair by (subst rct_loop.simps) auto
  qed
qed


text \<open>
  In the first pass the modulus is the table length, so a coordinate claims at most one slot.
\<close>

lemma rct_coordinate_first_pass:
  assumes "0 < m" and "m < u32_max"
  shows "rct_coordinate m m i c s =
     (if rct_distribution s ! i < 1 then Inr s else rct_claim i (unat c mod m) 0 s)"
  using assms by (simp add: rct_coordinate_def split: sum.splits)

lemma rct_claim_first:
  assumes "md < u32_max"
  shows "rct_claim i md 0 s =
     (if md \<notin> set (rct_unset s) then Inr s
      else (case slice_set (rct_out s) md i of
              Inl p \<Rightarrow> Inl p
            | Inr out \<Rightarrow>
                Inr (s\<lparr>rct_out := out,
                       rct_distribution := (rct_distribution s)[i := u32_sub (rct_distribution s ! i) 1],
                       rct_unset := removeAll md (rct_unset s)\<rparr>)))"
  using assms by (simp add: rct_claim_def u32_add_def u32_mul_def Let_def)

text \<open>Earlier backends that do not hit slot \<open>h\<close> leave it free and leave backend \<open>i\<close> its quota.\<close>

lemma rct_first_pass_other:
  assumes "0 < m" and "m < u32_max" and "rct_wf n m s" and "j < n" and "j \<noteq> i"
    and "unat c mod m \<noteq> h" and "h \<in> set (rct_unset s)"
  shows "\<exists>s'. rct_coordinate m m j c s = Inr s' \<and> rct_wf n m s' \<and> h \<in> set (rct_unset s') \<and>
           rct_distribution s' ! i = rct_distribution s ! i"
proof -
  have md: "unat c mod m < u32_max"
    using assms(1,2) by (meson less_trans mod_less_divisor)
  obtain s' where s': "rct_coordinate m m j c s = Inr s'" "rct_wf n m s'"
    using rct_coordinate_step[of n m m s j c] assms(1,3,4)
    by (auto simp: rct_ready_def rct_stage_def)
  then show ?thesis
    using assms(5-7)
    by (auto simp: rct_coordinate_first_pass[OF assms(1,2)] rct_claim_first[OF md] slice_set_def
        split: if_splits)
qed

lemma rct_first_pass_others:
  assumes "0 < m" and "m < u32_max" and "rct_wf n m s" and "h \<in> set (rct_unset s)"
    and "\<forall>(j, b) \<in> set ibs. j < n \<and> j \<noteq> i \<and> (\<forall>c \<in> set (Coordinates b). unat c mod m \<noteq> h)"
  shows "\<exists>s'. foldM (\<lambda>(j, b). foldM (rct_coordinate m m j) (Coordinates b)) ibs s = Inr s' \<and>
           rct_wf n m s' \<and> h \<in> set (rct_unset s') \<and>
           rct_distribution s' ! i = rct_distribution s ! i"
proof (rule foldM_invariant)
  fix x t
  assume "x \<in> set ibs"
    and t: "rct_wf n m t \<and> h \<in> set (rct_unset t) \<and> rct_distribution t ! i = rct_distribution s ! i"
  obtain j b where x: "x = (j, b)" by (cases x)
  have "\<exists>u. foldM (rct_coordinate m m j) (Coordinates b) t = Inr u \<and>
      rct_wf n m u \<and> h \<in> set (rct_unset u) \<and> rct_distribution u ! i = rct_distribution s ! i"
  proof (rule foldM_invariant)
    fix c v assume "c \<in> set (Coordinates b)"
      and "rct_wf n m v \<and> h \<in> set (rct_unset v) \<and> rct_distribution v ! i = rct_distribution s ! i"
    then show "\<exists>u. rct_coordinate m m j c v = Inr u \<and> rct_wf n m u \<and> h \<in> set (rct_unset u) \<and>
        rct_distribution u ! i = rct_distribution s ! i"
      using assms(1,2,5) \<open>x \<in> set ibs\<close> x rct_first_pass_other[of m n v j i c h] by auto
  qed (use t in simp)
  then show "\<exists>u. (case x of (j, b) \<Rightarrow> foldM (rct_coordinate m m j) (Coordinates b)) t = Inr u \<and>
      rct_wf n m u \<and> h \<in> set (rct_unset u) \<and> rct_distribution u ! i = rct_distribution s ! i"
    by (simp add: x)
qed (use assms(3,4) in simp)

lemma rct_own_claim:
  assumes "0 < m" and "m < u32_max" and "rct_wf n m s" and "i < n"
    and "0 < rct_distribution s ! i" and "unat c mod m \<in> set (rct_unset s)"
  shows "\<exists>s'. foldM (rct_coordinate m m i) (c # cs) s = Inr s' \<and> rct_wf n m s' \<and>
           unat c mod m \<notin> set (rct_unset s') \<and> rct_out s' ! (unat c mod m) = i"
proof -
  define h where "h = unat c mod m"
  have "h < m" using assms(1) by (simp add: h_def)
  then have h: "h < u32_max" "h < length (rct_out s)" using assms(2,3) by (simp_all add: rct_wf_def)
  obtain s1 where s1: "rct_coordinate m m i c s = Inr s1" and st1: "rct_stage n m m s s1"
    using rct_coordinate_step[of n m m s i c] assms(1,3,4) by (auto simp: rct_ready_def)
  have own: "h \<notin> set (rct_unset s1) \<and> rct_out s1 ! h = i"
    using s1 assms(5,6) h
    by (auto simp: rct_coordinate_first_pass[OF assms(1,2)] rct_claim_first h_def[symmetric]
        slice_set_def)
  obtain s2 where s2: "foldM (rct_coordinate m m i) cs s1 = Inr s2" "rct_stage n m m s1 s2"
    using rct_backend_step[of n m m s1 i cs] st1 assms(1,4)
    by (auto simp: rct_ready_def rct_stage_def)
  then show ?thesis
    using s1 own by (auto simp: h_def[symmetric] rct_stage_def dest: rct_extends_claimed)
qed

text \<open>
  Every backend owns its home slot unless an earlier backend in the list collides with it:
  in a table with at least one slot per backend, slot \<open>coordinate 0 mod m\<close> of backend
  \<open>i\<close> holds \<open>i\<close>, whatever the map iteration order.
\<close>

theorem ReverseCoordinates_home_slot:
  assumes "i < length bs" and "length bs \<le> m" and "m < u32_max" and "is_map_order ord"
    and "Coordinates (bs ! i) = c # cs"
    and "\<forall>j < i. \<forall>d \<in> set (Coordinates (bs ! j)). unat d mod m \<noteq> unat c mod m"
  shows "\<exists>out. ReverseCoordinatesLookupTable ord bs m = Inr out \<and> out ! (unat c mod m) = i"
proof -
  define n h where "n = length bs" and "h = unat c mod m"
  have "0 < m" "0 < n" "n < u32_max" using assms(1-3) unfolding n_def by linarith+
  have "h < m" using \<open>0 < m\<close> by (simp add: h_def)
  have "1 \<le> m div n" using assms(2) \<open>0 < n\<close> by (simp add: n_def div_greater_zero_iff Suc_le_eq)
  have split: "enumerate 0 bs =
      enumerate 0 (take i bs) @ (i, bs ! i) # enumerate (Suc i) (drop (Suc i) bs)"
    using assms(1) by (metis (no_types, lifting) add_0 append_take_drop_id Cons_nth_drop_Suc
        enumerate_append_eq enumerate_simps(2) length_take less_imp_le_nat min.absorb2)
  have before: "\<forall>(j, b) \<in> set (enumerate 0 (take i bs)).
      j < n \<and> j \<noteq> i \<and> (\<forall>d \<in> set (Coordinates b). unat d mod m \<noteq> h)"
    using assms(1,6) by (auto simp: in_set_enumerate_eq n_def h_def)
  let ?pass = "\<lambda>(j, b). foldM (rct_coordinate m m j) (Coordinates b)"
  obtain s1 where s1: "foldM ?pass (enumerate 0 (take i bs)) (rct_start n m) = Inr s1"
    "rct_wf n m s1" "h \<in> set (rct_unset s1)" "rct_distribution s1 ! i = m div n"
    using rct_first_pass_others[OF \<open>0 < m\<close> assms(3) rct_start_wf _ before] \<open>h < m\<close> assms(1)
    by (auto simp: rct_start_def n_def)
  obtain s2 where s2: "?pass (i, bs ! i) s1 = Inr s2" "rct_wf n m s2"
    "h \<notin> set (rct_unset s2)" "rct_out s2 ! h = i"
    using rct_own_claim[OF \<open>0 < m\<close> assms(3) s1(2), of i c cs] s1 assms(1,5) \<open>1 \<le> m div n\<close>
    by (auto simp: n_def h_def)
  obtain s3 where s3: "foldM ?pass (enumerate (Suc i) (drop (Suc i) bs)) s2 = Inr s3"
    "rct_stage n m m s2 s3"
    using rct_pass_list_step[of n m m s2 "enumerate (Suc i) (drop (Suc i) bs)"] s2(2) \<open>0 < m\<close>
      assms(1) by (fastforce simp: rct_ready_def n_def dest: enumerate_less)
  have own3: "h \<notin> set (rct_unset s3) \<and> rct_out s3 ! h = i \<and> rct_wf n m s3"
    using s3(2) s2(3,4) by (auto simp: rct_stage_def dest: rct_extends_claimed)
  have pass: "rct_pass bs m m (rct_start n m) = Inr s3"
    using s1(1) s2(1) s3(1) by (simp add: rct_pass_def split foldM_append)
  obtain s where s: "rct_loop bs m m (rct_start n m) = Inr s" and "rct_extends s3 s"
    using rct_loop_after_pass[OF pass _ n_def[symmetric]] own3 by blast
  then have "h \<notin> set (rct_unset s) \<and> rct_out s ! h = i"
    using own3 rct_extends_claimed by blast
  then show ?thesis
    using rct_run[OF n_def[symmetric] \<open>0 < n\<close> \<open>n < u32_max\<close> assms(4) s] by (auto simp: h_def)
qed

section \<open>Concrete tables\<close>

definition example_spec :: backend_spec where
  "example_spec = \<lparr>spec_IP = [10, 0, 0, 10], spec_Port = 9000,
     spec_MacAddr = [0xAA, 0xBB, 0xCC, 0xDD, 0xEE, 1], spec_State = StateAvailable\<rparr>"

definition example_backend :: "uuid \<Rightarrow> u32 list \<Rightarrow> backend" where
  "example_backend u cs =
     \<lparr>be_Id = u, be_Spec = example_spec, be_Status = StateAvailable, coordinates = cs\<rparr>"

text \<open>The backend with identifier \<open>0x00000002000000020000000200000002\<close>, and so on.\<close>

abbreviation backend_1 :: backend where
  "backend_1 \<equiv> example_backend 0x00000001000000010000000100000001 [1, 1, 1, 1]"

abbreviation backend_2 :: backend where
  "backend_2 \<equiv> example_backend 0x00000002000000020000000200000002 [2, 2, 2, 2]"

abbreviation backend_a :: backend where
  "backend_a \<equiv> example_backend 0x0000000F000000080000000800000000 [0, 8, 8, 15]"

abbreviation backend_b :: backend where
  "backend_b \<equiv> example_backend 0x000000080000000D0000000F00000003 [3, 15, 13, 8]"

lemma example_backends_are_NewBackend:
  "backend_1 = NewBackend LittleEndian (be_Id backend_1) example_spec StateAvailable"
  "backend_b = NewBackend LittleEndian (be_Id backend_b) example_spec StateAvailable"
  by (simp_all add: example_backend_def NewBackend_def NCoordinates_def uint32_of_bytes_def
      uuid_byte_def upt_rec)

theorem SimpleLookupTable_fair_witness:
  "\<exists>out. SimpleLookupTable [backend_1, backend_2] 5 = Inr out \<and>
     length out = 5 \<and> count_list out 0 = 3"
  using SimpleLookupTable_fair[of "[backend_1, backend_2]" 2 0 5] by simp


theorem ReverseCoordinates_total_witness:
  "\<exists>out. ReverseCoordinatesLookupTable rev [backend_1, backend_2] 7 = Inr out \<and>
     length out = 7 \<and> (\<forall>x \<in> set out. x < Suc (Suc 0))"
  using ReverseCoordinates_total[of "[backend_1, backend_2]" rev 7] by simp

theorem ReverseCoordinates_claimed_deterministic_witness:
  "\<exists>out1 out2. ReverseCoordinatesLookupTable (\<lambda>ks. ks) [backend_1, backend_2] 7 = Inr out1 \<and>
     ReverseCoordinatesLookupTable rev [backend_1, backend_2] 7 = Inr out2 \<and> out1 ! 1 = out2 ! 1"
proof -
  have "rct_loop [backend_1, backend_2] 7 7 (rct_start (length [backend_1, backend_2]) 7) =
      Inr \<lparr>rct_out = [1, 0, 1, 0, 1, 0, 0], rct_unset = [5, 6], rct_distribution = [1, 0]\<rparr>"
    by code_simp
  from ReverseCoordinates_claimed_deterministic[OF _ _ map_order_id map_order_rev this, of 1]
  show ?thesis by simp
qed

theorem ReverseCoordinates_home_slot_witness:
  "\<exists>out. ReverseCoordinatesLookupTable rev [backend_1, backend_2] 7 = Inr out \<and> out ! 2 = 1"
proof -
  have "\<forall>j < 1. \<forall>d \<in> set (Coordinates ([backend_1, backend_2] ! j)).
      unat d mod 7 \<noteq> unat (2 :: u32) mod 7"
    by (simp add: Coordinates_def example_backend_def)
  then show ?thesis
    using ReverseCoordinates_home_slot[of 1 "[backend_1, backend_2]" 7 rev 2 "[2, 2, 2]"]
    by (simp add: Coordinates_def example_backend_def)
qed

text \<open>
  The table is not a function of the backend list: two map iteration orders give two
  different tables for the same backends and size, because the slots left over are numbered in
  iteration order.
\<close>

theorem ReverseCoordinates_order_dependent:
  "ReverseCoordinatesLookupTable (\<lambda>ks. ks) [backend_1, backend_2] 7 = Inr [1, 0, 1, 0, 1, 0, 1] \<and>
   ReverseCoordinatesLookupTable rev [backend_1, backend_2] 7 = Inr [1, 0, 1, 0, 1, 1, 0]"
  by code_simp

text \<open>
  The quotas do not bound what a backend receives: the quota is tested once per coordinate
  and not per claimed slot, so it wraps below zero and one of two backends gets 5 of 7 slots.
\<close>

theorem ReverseCoordinates_quota_wraps:
  "7 div length [backend_a, backend_b] = 3 \<and>
   (\<exists>s. rct_loop [backend_a, backend_b] 7 7 (rct_start 2 7) = Inr s \<and>
        rct_distribution s = [u32_max - 1, 1]) \<and>
   ReverseCoordinatesLookupTable (\<lambda>ks. ks) [backend_a, backend_b] 7 = Inr [0, 0, 0, 1, 0, 0, 1]"
proof (intro conjI)
  show "7 div length [backend_a, backend_b] = 3" by code_simp
  have "rct_loop [backend_a, backend_b] 7 7 (rct_start 2 7) =
      Inr \<lparr>rct_out = [0, 0, 0, 1, 0, 0, 1], rct_unset = [5], rct_distribution = [u32_max - 1, 1]\<rparr>"
    by code_simp
  then show "\<exists>s. rct_loop [backend_a, backend_b] 7 7 (rct_start 2 7) = Inr s \<and>
        rct_distribution s = [u32_max - 1, 1]" by simp
  show "ReverseCoordinatesLookupTable (\<lambda>ks. ks) [backend_a, backend_b] 7 = Inr [0, 0, 0, 1, 0, 0, 1]"
    by code_simp
qed

end
