(* ===== verification/Robust_Lookup_Table.thy ===== *)
theory Robust_Lookup_Table
  imports Lookup_Table
begin

text \<open>
  \<open>RobustSimpleLookupTable\<close> and \<open>RobustFibLookupTable\<close> of
  \<open>internal/adapter/rlt/rlt.go\<close>. Both seed one slot per backend and then look for the next
  free slot with an unbounded probe, so their results are of type \<open>comp\<close>: \<open>None\<close> is a run
  that never returns. The theorems give termination, safety and the quota of every backend for
  tables with at least one slot per backend, and show where smaller tables never return.
\<close>

section \<open>The model\<close>

record robust =
  ro_lup :: "nat \<Rightarrow> nat option"
  ro_M :: "nat list"
  ro_distribution :: "nat list"
  ro_banned :: "nat list"

text \<open>The loop that starts at \<open>Mj\<close> and runs until it finds an empty slot.\<close>

partial_function (option) robust_probe :: "(nat \<Rightarrow> nat option) \<Rightarrow> nat \<Rightarrow> nat \<Rightarrow> nat option" where
  "robust_probe lup m Mj =
     (let Mj = (if Mj > u32_sub m 1 then 0 else Mj)
      in if lup Mj = None then Some Mj else robust_probe lup m (u32_add Mj 1))"

declare robust_probe.simps [code]

definition robust_start :: "nat \<Rightarrow> nat \<Rightarrow> robust" where
  "robust_start n m =
     \<lparr>ro_lup = Map.empty, ro_M = replicate n 0, ro_distribution = replicate n (m div n),
      ro_banned = []\<rparr>"

text \<open>Record that slot \<open>k\<close> belongs to backend \<open>j\<close>.\<close>

definition robust_assign :: "nat \<Rightarrow> nat \<Rightarrow> robust \<Rightarrow> robust" where
  "robust_assign j k s =
     s\<lparr>ro_M := (ro_M s)[j := k], ro_lup := (ro_lup s)(k \<mapsto> j),
       ro_distribution := (ro_distribution s)[j := u32_sub (ro_distribution s ! j) 1]\<rparr>"

definition robust_seed :: "backend list \<Rightarrow> nat \<Rightarrow> nat \<Rightarrow> robust \<Rightarrow> robust go" where
  "robust_seed bs m j s =
     (case slice_get (Coordinates (bs ! j)) 0 of
        Inl p \<Rightarrow> Inl p
      | Inr c \<Rightarrow>
          if m = 0 then Inl DivideByZero
          else Inr (robust_assign j (unat c mod m) s))"

text \<open>Find the next free slot for backend \<open>j\<close> and persist it.\<close>

definition robust_insert :: "nat \<Rightarrow> nat \<Rightarrow> robust \<Rightarrow> robust option" where
  "robust_insert m j s =
     (case robust_probe (ro_lup s) m (u32_add (ro_M s ! j) 1) of
        None \<Rightarrow> None
      | Some Mj \<Rightarrow> Some (robust_assign j Mj s))"

definition robust_simple_round :: "nat \<Rightarrow> nat \<Rightarrow> robust \<Rightarrow> robust comp" where
  "robust_simple_round m j s =
     (if ro_distribution s ! j < 1
      then Some (Inr (s\<lparr>ro_banned := List.insert j (ro_banned s)\<rparr>))
      else map_option Inr (robust_insert m j s))"

partial_function (option) robust_simple_loop :: "nat \<Rightarrow> nat \<Rightarrow> robust \<Rightarrow> robust comp" where
  "robust_simple_loop n m s =
     (if length (ro_banned s) = n then Some (Inr s)
      else (case foldD (robust_simple_round m) [0..<n] s of
              None \<Rightarrow> None
            | Some r \<Rightarrow> (case r of Inl p \<Rightarrow> Some (Inl p) | Inr s' \<Rightarrow> robust_simple_loop n m s')))"

declare robust_simple_loop.simps [code]

text \<open>The loop that fills the remaining fields; it visits the indices below \<open>n\<close> only.\<close>

fun robust_fill :: "nat list \<Rightarrow> nat \<Rightarrow> nat \<Rightarrow> (nat \<Rightarrow> nat option) \<Rightarrow> nat \<Rightarrow> nat option" where
  "robust_fill [] rem j lup = lup"
| "robust_fill (i # is) rem j lup =
     (if j > u32_sub rem 1 then lup
      else if lup i \<noteq> None then robust_fill is rem j lup
      else robust_fill is rem (u32_add j 1) (lup(i \<mapsto> j)))"

text \<open>
  The output slice. Keys below \<open>m\<close> come from the probe, keys below \<open>n\<close> from the last loop;
  a key outside the slice panics.
\<close>

definition robust_out :: "nat \<Rightarrow> nat \<Rightarrow> (nat \<Rightarrow> nat option) \<Rightarrow> (nat list) go" where
  "robust_out n m lup =
     (if list_ex (\<lambda>k. lup k \<noteq> None) [m..<n] then Inl IndexOutOfRange
      else Inr (map (\<lambda>k. case lup k of None \<Rightarrow> 0 | Some v \<Rightarrow> v) [0..<m]))"

definition robust_finish :: "nat \<Rightarrow> nat \<Rightarrow> robust \<Rightarrow> (nat list) go" where
  "robust_finish n m s = robust_out n m (robust_fill [0..<n] (m mod n) 0 (ro_lup s))"

definition RobustSimpleLookupTable :: "backend list \<Rightarrow> nat \<Rightarrow> (nat list) comp" where
  "RobustSimpleLookupTable bs m =
     (let n = u32_of (length bs)
      in if n = 0 then Some (Inl DivideByZero)
         else (case foldM (robust_seed bs m) [0..<n] (robust_start n m) of
                 Inl p \<Rightarrow> Some (Inl p)
               | Inr s \<Rightarrow>
                   (case robust_simple_loop n m s of
                      None \<Rightarrow> None
                    | Some (Inl p) \<Rightarrow> Some (Inl p)
                    | Some (Inr s') \<Rightarrow> Some (robust_finish n m s'))))"

text \<open>\<open>for range fib[i]\<close>: up to \<open>f\<close> slots for backend \<open>j\<close>, until its quota is used up.\<close>

fun robust_fib_run :: "nat \<Rightarrow> nat \<Rightarrow> nat \<Rightarrow> robust \<Rightarrow> robust option" where
  "robust_fib_run m j 0 s = Some s"
| "robust_fib_run m j (Suc f) s =
     (if ro_distribution s ! j < 1
      then Some (s\<lparr>ro_banned := List.insert j (ro_banned s)\<rparr>)
      else (case robust_insert m j s of None \<Rightarrow> None | Some s' \<Rightarrow> robust_fib_run m j f s'))"

text \<open>
  One backend of one round. Once every backend is banned the source jumps to \<open>exitLoop\<close>; here
  all later rounds leave the state alone, because nothing is ever unbanned.
\<close>

definition robust_fib_round :: "nat \<Rightarrow> nat \<Rightarrow> nat \<Rightarrow> nat \<Rightarrow> robust \<Rightarrow> robust comp" where
  "robust_fib_round n m f j s =
     (if length (ro_banned s) = n then Some (Inr s)
      else if ro_distribution s ! j < 1 then Some (Inr s)
      else map_option Inr (robust_fib_run m j f s))"

definition RobustFibLookupTable :: "backend list \<Rightarrow> nat \<Rightarrow> (nat list) comp" where
  "RobustFibLookupTable bs m =
     (let n = u32_of (length bs)
      in if n = 0 then Some (Inl DivideByZero)
         else (case foldM (robust_seed bs m) [0..<n] (robust_start n m) of
                 Inl p \<Rightarrow> Some (Inl p)
               | Inr s \<Rightarrow>
                   (case foldD (\<lambda>f. foldD (robust_fib_round n m f) [0..<n]) fib s of
                      None \<Rightarrow> None
                    | Some (Inl p) \<Rightarrow> Some (Inl p)
                    | Some (Inr s') \<Rightarrow> Some (robust_finish n m s'))))"

section \<open>The probe\<close>

lemma probe_at:
  assumes "a < m" and "m < u32_max"
  shows "robust_probe lup m a = (if lup a = None then Some a else robust_probe lup m (Suc a))"
proof -
  have "\<not> u32_sub m 1 < a" and "u32_add a 1 = Suc a"
    using assms u32_sub_le[of 1 m] by (simp_all add: u32_add_def)
  then show ?thesis by (subst robust_probe.simps) simp
qed

lemma probe_wrap:
  assumes "0 < m" and "m < u32_max"
  shows "robust_probe lup m m = robust_probe lup m 0"
proof -
  have "u32_sub m 1 = m - 1" using assms by (simp add: u32_sub_le)
  then show ?thesis
    using assms robust_probe.simps[of lup m m] robust_probe.simps[of lup m 0] by simp
qed

text \<open>The probe returns the first free slot at or after \<open>a\<close>, going round.\<close>

lemma probe_first_free:
  assumes "a < m" and "m < u32_max" and "lup ((a + d) mod m) = None"
    and "\<forall>e < d. lup ((a + e) mod m) \<noteq> None"
  shows "robust_probe lup m a = Some ((a + d) mod m)"
  using assms
proof (induction d arbitrary: a)
  case 0
  then show ?case using probe_at[of a m lup] by simp
next
  case (Suc d)
  have "lup a \<noteq> None" using Suc.prems(1,4) by (metis add_0_right mod_less zero_less_Suc)
  then have "robust_probe lup m a = robust_probe lup m (Suc a)"
    using probe_at[of a m lup] Suc.prems(1,2) by auto
  also have "\<dots> = robust_probe lup m (Suc a mod m)"
    using probe_wrap[of m lup] Suc.prems(1,2) by (cases "Suc a = m") simp_all
  also have "\<dots> = Some ((Suc a mod m + d) mod m)"
  proof (rule Suc.IH)
    show "Suc a mod m < m" using Suc.prems(1) by simp
    show "lup ((Suc a mod m + d) mod m) = None"
      using Suc.prems(3) by (simp add: mod_add_left_eq)
    show "\<forall>e < d. lup ((Suc a mod m + e) mod m) \<noteq> None"
    proof (intro allI impI)
      fix e assume "e < d"
      then have "lup ((a + Suc e) mod m) \<noteq> None" using Suc.prems(4) by blast
      then show "lup ((Suc a mod m + e) mod m) \<noteq> None" by (simp add: mod_add_left_eq)
    qed
  qed (use Suc.prems in simp)
  finally show ?case by (simp add: mod_add_left_eq)
qed

lemma probe_returns:
  assumes "a \<le> m" and "m < u32_max" and "f < m" and "lup f = None"
  shows "\<exists>r. robust_probe lup m a = Some r \<and> r < m \<and> lup r = None"
proof -
  define b where "b = (if a = m then 0 else a)"
  have b: "robust_probe lup m a = robust_probe lup m b" "b < m"
    using assms probe_wrap[of m lup] by (auto simp: b_def)
  let ?free = "\<lambda>d. lup ((b + d) mod m) = None"
  have "?free (m - b + f)" using assms b(2) by simp
  then have "?free (LEAST d. ?free d)" by (rule LeastI)
  moreover have "\<forall>e < (LEAST d. ?free d). \<not> ?free e" using not_less_Least by blast
  ultimately have "robust_probe lup m b = Some ((b + (LEAST d. ?free d)) mod m)"
    using probe_first_free[OF b(2) assms(2)] by blast
  then show ?thesis
    using b \<open>?free (LEAST d. ?free d)\<close> by simp
qed

lemma probe_result_free:
  assumes "robust_probe lup m a = Some r"
  shows "lup r = None \<and> (0 < m \<longrightarrow> m < u32_max \<longrightarrow> r < m)"
proof (rule robust_probe.raw_induct[OF _ assms])
  fix f :: "(nat \<Rightarrow> nat option) \<Rightarrow> nat \<Rightarrow> nat \<Rightarrow> nat option" and lup m a r
  assume IH: "\<And>lup m a r. f lup m a = Some r \<Longrightarrow>
      lup r = None \<and> (0 < m \<longrightarrow> m < u32_max \<longrightarrow> r < m)"
    and eq: "(let a = if u32_sub m 1 < a then 0 else a
        in if lup a = None then Some a else f lup m (u32_add a 1)) = Some r"
  define b where "b = (if u32_sub m 1 < a then 0 else a)"
  have "0 < m \<Longrightarrow> m < u32_max \<Longrightarrow> b < m"
    using u32_sub_le[of 1 m] by (auto simp: b_def)
  moreover have "(if lup b = None then Some b else f lup m (u32_add b 1)) = Some r"
    using eq unfolding b_def Let_def .
  ultimately show "lup r = None \<and> (0 < m \<longrightarrow> m < u32_max \<longrightarrow> r < m)"
    using IH[of lup m "u32_add b 1" r] by (cases "lup b = None") auto
qed

text \<open>
  On a table with no free slot the probe of the robust tables never returns, from any
  starting point: the loop has no other exit than a free slot.
\<close>

theorem probe_full_diverges:
  assumes "0 < m" and "m < u32_max" and "\<forall>k < m. lup k \<noteq> None"
  shows "robust_probe lup m a = None"
proof (rule ccontr)
  assume "robust_probe lup m a \<noteq> None"
  then obtain r where "robust_probe lup m a = Some r" by blast
  then show False using probe_result_free[of lup m a r] assms by blast
qed

section \<open>The invariant of both algorithms\<close>

text \<open>
  The quotas still open never exceed the slots still free, and a backend's slots and its open
  quota never exceed \<open>m div n\<close>.
\<close>

definition owned :: "(nat \<Rightarrow> nat option) \<Rightarrow> nat \<Rightarrow> nat set" where
  "owned lup j = {k. lup k = Some j}"

definition robust_inv :: "nat \<Rightarrow> nat \<Rightarrow> robust \<Rightarrow> bool" where
  "robust_inv n m s \<longleftrightarrow>
     length (ro_M s) = n \<and> length (ro_distribution s) = n \<and>
     distinct (ro_banned s) \<and> set (ro_banned s) \<subseteq> {..<n} \<and>
     dom (ro_lup s) \<subseteq> {..<m} \<and> ran (ro_lup s) \<subseteq> {..<n} \<and>
     (\<forall>j < n. ro_M s ! j < m) \<and>
     card (dom (ro_lup s)) + sum_list (ro_distribution s) \<le> m \<and>
     (\<forall>j < n. card (owned (ro_lup s) j) + ro_distribution s ! j \<le> m div n)"

lemma sum_list_decrement:
  assumes "j < length xs" and "1 \<le> xs ! j"
  shows "sum_list (xs[j := xs ! j - 1]) + 1 = (sum_list xs :: nat)"
  using assms member_le_sum_list[of "xs ! j" xs] by (simp add: sum_list_update)

lemma finite_owned: "finite (dom lup) \<Longrightarrow> finite (owned lup i)"
  by (rule finite_subset[of _ "dom lup"]) (auto simp: owned_def)

lemma card_owned_update:
  assumes "finite (dom lup)"
  shows "card (owned (lup(k \<mapsto> j)) i) \<le> card (owned lup i) + (if i = j then 1 else 0)"
proof (cases "i = j")
  case True
  have "owned (lup(k \<mapsto> j)) i \<subseteq> insert k (owned lup i)" by (auto simp: owned_def)
  then have "card (owned (lup(k \<mapsto> j)) i) \<le> card (insert k (owned lup i))"
    using finite_owned[OF assms] by (intro card_mono) auto
  also have "\<dots> \<le> Suc (card (owned lup i))" by (rule card_insert_le_m1[of "Suc _", simplified]) simp_all
  finally show ?thesis using True by simp
next
  case False
  then have "owned (lup(k \<mapsto> j)) i \<subseteq> owned lup i" by (auto simp: owned_def)
  then show ?thesis using False finite_owned[OF assms] by (simp add: card_mono)
qed

lemma robust_inv_quota_small:
  assumes "robust_inv n m s" and "j < n"
  shows "ro_distribution s ! j \<le> m"
  using assms member_le_sum_list[of "ro_distribution s ! j" "ro_distribution s"]
  by (simp add: robust_inv_def)

lemma robust_assign_inv:
  assumes inv: "robust_inv n m s" and "j < n" and "1 \<le> ro_distribution s ! j"
    and "k < m" and "m < u32_max"
  shows "robust_inv n m (robust_assign j k s) \<and>
    sum_list (ro_distribution (robust_assign j k s)) + 1 = sum_list (ro_distribution s)"
proof -
  let ?d = "ro_distribution s" and ?l = "ro_lup s"
  have fin: "finite (dom ?l)"
    using inv by (auto simp: robust_inv_def intro: finite_subset)
  have dec: "u32_sub (?d ! j) 1 = ?d ! j - 1"
    using robust_inv_quota_small[OF inv \<open>j < n\<close>] assms(3,5) by (intro u32_sub_le) simp_all
  have sum: "sum_list (?d[j := ?d ! j - 1]) + 1 = sum_list ?d"
    using inv \<open>j < n\<close> assms(3) by (intro sum_list_decrement) (simp_all add: robust_inv_def)
  have "card (dom (?l(k \<mapsto> j))) \<le> card (dom ?l) + 1"
    using fin by (simp add: card_insert_if)
  then have slots: "card (dom (?l(k \<mapsto> j))) + sum_list (?d[j := ?d ! j - 1]) \<le> m"
    using inv sum by (simp only: robust_inv_def) linarith
  have quota: "card (owned (?l(k \<mapsto> j)) i) + ?d[j := ?d ! j - 1] ! i \<le> m div n" if "i < n" for i
  proof -
    have "card (owned ?l i) + ?d ! i \<le> m div n" using inv that by (simp add: robust_inv_def)
    moreover have "?d[j := ?d ! j - 1] ! i + (if i = j then 1 else 0) = ?d ! i"
      using inv assms(2,3) that by (auto simp: robust_inv_def nth_list_update)
    ultimately show ?thesis using card_owned_update[OF fin, of k j i] by linarith
  qed
  have ran: "ran (?l(k \<mapsto> j)) \<subseteq> {..<n}"
    using inv \<open>j < n\<close> by (auto simp: robust_inv_def ran_def split: if_splits)
  show ?thesis
    using inv slots quota sum dec assms(2,4) ran
    by (simp add: robust_inv_def robust_assign_def nth_list_update)
qed

lemma robust_insert_step:
  assumes inv: "robust_inv n m s" and "j < n" and "1 \<le> ro_distribution s ! j" and "m < u32_max"
  shows "\<exists>s'. robust_insert m j s = Some s' \<and> robust_inv n m s' \<and>
    sum_list (ro_distribution s') < sum_list (ro_distribution s) \<and> ro_banned s' = ro_banned s"
proof -
  have "ro_M s ! j < m" using inv \<open>j < n\<close> by (simp add: robust_inv_def)
  then have start: "u32_add (ro_M s ! j) 1 \<le> m" using \<open>m < u32_max\<close> by (simp add: u32_add_def)
  have "1 \<le> sum_list (ro_distribution s)"
    using member_le_sum_list[of "ro_distribution s ! j" "ro_distribution s"] assms
    by (simp add: robust_inv_def)
  then have "card (dom (ro_lup s)) < m" using inv by (simp add: robust_inv_def)
  moreover have "card {..<m} \<le> card (dom (ro_lup s))" if "{..<m} \<subseteq> dom (ro_lup s)"
    using that inv by (intro card_mono) (auto simp: robust_inv_def intro: finite_subset)
  ultimately obtain f where "f < m" "ro_lup s f = None" by (force simp: subset_iff)
  then obtain r where r: "robust_probe (ro_lup s) m (u32_add (ro_M s ! j) 1) = Some r" "r < m"
    using probe_returns[OF start \<open>m < u32_max\<close>] by blast
  then show ?thesis
    using robust_assign_inv[OF inv \<open>j < n\<close> assms(3) r(2) \<open>m < u32_max\<close>]
    by (simp add: robust_insert_def robust_assign_def)
qed

lemma robust_ban_inv: "robust_inv n m s \<Longrightarrow> j < n \<Longrightarrow>
    robust_inv n m (s\<lparr>ro_banned := List.insert j (ro_banned s)\<rparr>)"
  by (auto simp: robust_inv_def)

text \<open>Seeding: the backends not seeded yet still have their full quota.\<close>

lemma robust_seed_all:
  assumes "0 < n" and "n \<le> m" and "m < u32_max" and "\<forall>b \<in> set bs. Coordinates b \<noteq> []"
    and "length bs = n"
  shows "\<exists>s. foldM (robust_seed bs m) [0..<n] (robust_start n m) = Inr s \<and> robust_inv n m s"
proof -
  let ?P = "\<lambda>j s. robust_inv n m s \<and> (\<forall>i < n. j \<le> i \<longrightarrow> ro_distribution s ! i = m div n)"
  have "0 < m div n" using assms(1,2) by (simp add: div_greater_zero_iff)
  have "\<exists>s. foldM (robust_seed bs m) [0..<n] (robust_start n m) = Inr s \<and> ?P n s"
  proof (rule foldM_upt_invariant[where P = ?P])
    show "?P 0 (robust_start n m)"
      using assms(1,2) by (simp add: robust_inv_def robust_start_def owned_def sum_list_replicate)
  next
    fix j s assume j: "0 \<le> j" "j < n" and P: "?P j s"
    have "Coordinates (bs ! j) \<noteq> []" using assms(4,5) j(2) by simp
    then have "robust_seed bs m j s = Inr (robust_assign j (unat (Coordinates (bs ! j) ! 0) mod m) s)"
      using assms(1,2) by (simp add: robust_seed_def slice_get_def)
    moreover have "1 \<le> ro_distribution s ! j" using P j \<open>0 < m div n\<close> by simp
    ultimately show "\<exists>s'. robust_seed bs m j s = Inr s' \<and> ?P (Suc j) s'"
      using robust_assign_inv[of n m s j "unat (Coordinates (bs ! j) ! 0) mod m"] P j assms(1-3)
      by (auto simp: robust_assign_def nth_list_update)
  qed simp
  then show ?thesis by blast
qed

section \<open>Termination\<close>

lemma banned_all:
  assumes "robust_inv n m s" and "{..<n} \<subseteq> set (ro_banned s)"
  shows "length (ro_banned s) = n"
proof -
  have "set (ro_banned s) = {..<n}" and "distinct (ro_banned s)"
    using assms by (auto simp: robust_inv_def)
  then show ?thesis by (metis card_lessThan distinct_card)
qed

lemma robust_simple_pass:
  assumes inv: "robust_inv n m s" and "m < u32_max"
  shows "\<exists>s'. foldD (robust_simple_round m) [0..<n] s = Some (Inr s') \<and> robust_inv n m s' \<and>
    (sum_list (ro_distribution s') < sum_list (ro_distribution s) \<or> length (ro_banned s') = n)"
proof -
  let ?sum = "\<lambda>s. sum_list (ro_distribution s)"
  let ?P = "\<lambda>j t. robust_inv n m t \<and> ?sum t \<le> ?sum s \<and>
     (?sum t < ?sum s \<or> {..<j} \<subseteq> set (ro_banned t))"
  have "\<exists>s'. foldD (robust_simple_round m) [0..<n] s = Some (Inr s') \<and> ?P n s'"
  proof (rule foldD_upt_invariant[where P = ?P])
    fix j t assume j: "0 \<le> j" "j < n" and P: "?P j t"
    show "\<exists>u. robust_simple_round m j t = Some (Inr u) \<and> ?P (Suc j) u"
    proof (cases "ro_distribution t ! j < 1")
      case True
      then show ?thesis
        using P j robust_ban_inv[of n m t j]
        by (auto simp: robust_simple_round_def lessThan_Suc)
    next
      case False
      then obtain u where "robust_insert m j t = Some u" "robust_inv n m u" "?sum u < ?sum t"
        using robust_insert_step[of n m t j] P j \<open>m < u32_max\<close> by force
      then show ?thesis using P False by (simp add: robust_simple_round_def)
    qed
  qed (use inv in simp_all)
  then show ?thesis using banned_all by blast
qed

lemma robust_simple_terminates:
  assumes "robust_inv n m s" and "m < u32_max"
  shows "\<exists>s'. robust_simple_loop n m s = Some (Inr s') \<and> robust_inv n m s'"
  using assms(1)
proof (induction "sum_list (ro_distribution s)" arbitrary: s rule: less_induct)
  case less
  show ?case
  proof (cases "length (ro_banned s) = n")
    case True
    then show ?thesis using less.prems by (simp add: robust_simple_loop.simps)
  next
    case False
    obtain t where t: "foldD (robust_simple_round m) [0..<n] s = Some (Inr t)" "robust_inv n m t"
      "sum_list (ro_distribution t) < sum_list (ro_distribution s) \<or> length (ro_banned t) = n"
      using robust_simple_pass[OF less.prems assms(2)] by blast
    then have "robust_simple_loop n m s = robust_simple_loop n m t"
      using False by (subst robust_simple_loop.simps) simp
    moreover have "\<exists>s'. robust_simple_loop n m t = Some (Inr s') \<and> robust_inv n m s'"
    proof (cases "length (ro_banned t) = n")
      case True
      then show ?thesis using t(2) by (simp add: robust_simple_loop.simps)
    next
      case False
      then show ?thesis using t less.hyps by blast
    qed
    ultimately show ?thesis by simp
  qed
qed

lemma robust_fib_run_step:
  assumes "robust_inv n m s" and "j < n" and "m < u32_max"
  shows "\<exists>s'. robust_fib_run m j f s = Some s' \<and> robust_inv n m s'"
  using assms(1)
proof (induction f arbitrary: s)
  case 0
  then show ?case by simp
next
  case (Suc f)
  show ?case
  proof (cases "ro_distribution s ! j < 1")
    case True
    then show ?thesis using Suc.prems assms(2) by (simp add: robust_ban_inv)
  next
    case False
    then obtain t where "robust_insert m j s = Some t" "robust_inv n m t"
      using robust_insert_step[OF Suc.prems assms(2) _ assms(3)] by force
    then show ?thesis using Suc.IH False by simp
  qed
qed

lemma robust_fib_terminates:
  assumes "robust_inv n m s" and "m < u32_max"
  shows "\<exists>s'. foldD (\<lambda>f. foldD (robust_fib_round n m f) [0..<n]) fs s = Some (Inr s') \<and>
    robust_inv n m s'"
proof (rule foldD_invariant[where P = "robust_inv n m"])
  fix f s assume s: "robust_inv n m s"
  show "\<exists>s'. foldD (robust_fib_round n m f) [0..<n] s = Some (Inr s') \<and> robust_inv n m s'"
  proof (rule foldD_invariant[where P = "robust_inv n m"])
    fix j t assume "j \<in> set [0..<n]" and "robust_inv n m t"
    then show "\<exists>t'. robust_fib_round n m f j t = Some (Inr t') \<and> robust_inv n m t'"
      using robust_fib_run_step[of n m t j f] assms(2) by (auto simp: robust_fib_round_def)
  qed (rule s)
qed (rule assms(1))

section \<open>The finished table\<close>

lemma robust_fill_props:
  assumes "finite (dom lup)" and "j + length is \<le> n" and "n < u32_max"
    and "ran lup \<subseteq> {..<n}"
  shows "ran (robust_fill is rem j lup) \<subseteq> {..<n} \<and>
    card (owned (robust_fill is rem j lup) v) \<le> card (owned lup v) + (if j \<le> v then 1 else 0)"
  using assms
proof (induction "is" arbitrary: j lup)
  case Nil
  then show ?case by simp
next
  case (Cons i "is")
  consider "u32_sub rem 1 < j" | "\<not> u32_sub rem 1 < j" "lup i \<noteq> None"
    | "\<not> u32_sub rem 1 < j" "lup i = None" by blast
  then show ?case
  proof cases
    case 1
    then show ?thesis using Cons.prems by simp
  next
    case 2
    then show ?thesis using Cons.IH[of lup j] Cons.prems by simp
  next
    case 3
    have "ran (lup(i \<mapsto> j)) \<subseteq> {..<n}"
      using Cons.prems(2,4) by (auto simp: ran_def split: if_splits)
    moreover have "u32_add j 1 = Suc j" using Cons.prems(2,3) by (simp add: u32_add_def)
    moreover have "ran (robust_fill is rem (Suc j) (lup(i \<mapsto> j))) \<subseteq> {..<n} \<and>
        card (owned (robust_fill is rem (Suc j) (lup(i \<mapsto> j))) v)
          \<le> card (owned (lup(i \<mapsto> j)) v) + (if Suc j \<le> v then 1 else 0)"
    proof (rule Cons.IH)
      show "finite (dom (lup(i \<mapsto> j)))" using Cons.prems(1) by simp
      show "ran (lup(i \<mapsto> j)) \<subseteq> {..<n}" by fact
    qed (use Cons.prems in simp_all)
    moreover have "card (owned (lup(i \<mapsto> j)) v) \<le> card (owned lup v) + (if v = j then 1 else 0)"
      using card_owned_update[OF Cons.prems(1)] .
    ultimately show ?thesis
      using 3 \<open>u32_add j 1 = Suc j\<close> by (auto split: if_splits)
  qed
qed

lemma robust_fill_dom: "dom (robust_fill is rem j lup) \<subseteq> dom lup \<union> set is"
  by (induction "is" arbitrary: j lup) (fastforce split: if_splits)+

lemma count_list_map_upt: "count_list (map f [0..<m]) v = card {k. k < m \<and> f k = v}"
proof (induction m)
  case 0
  then show ?case by simp
next
  case (Suc m)
  have "{k. k < Suc m \<and> f k = v} =
      (if f m = v then insert m {k. k < m \<and> f k = v} else {k. k < m \<and> f k = v})"
    by (auto simp: less_Suc_eq)
  then show ?case using Suc by simp
qed

lemma robust_finish_ok:
  assumes inv: "robust_inv n m s" and "0 < n" and "n \<le> m" and "m < u32_max"
  shows "\<exists>out. robust_finish n m s = Inr out \<and> length out = m \<and> (\<forall>x \<in> set out. x < n) \<and>
    (\<forall>v. 0 < v \<longrightarrow> v < n \<longrightarrow> count_list out v \<le> m div n + 1)"
proof -
  define lup where "lup = robust_fill [0..<n] (m mod n) 0 (ro_lup s)"
  define out where "out = map (\<lambda>k. case lup k of None \<Rightarrow> 0 | Some v \<Rightarrow> v) [0..<m]"
  have fin: "finite (dom (ro_lup s))"
    using inv by (auto simp: robust_inv_def intro: finite_subset)
  have props: "ran lup \<subseteq> {..<n}"
    "card (owned lup v) \<le> card (owned (ro_lup s) v) + (if 0 \<le> v then 1 else 0)" for v
    using robust_fill_props[OF fin, of 0 "[0..<n]" n] inv assms(3,4)
    by (simp_all add: robust_inv_def lup_def)
  have "finite (dom lup)"
    using robust_fill_dom[of "[0..<n]" "m mod n" 0 "ro_lup s"] fin
    by (auto simp: lup_def intro: finite_subset)
  have "robust_finish n m s = Inr out"
    using assms(3) by (simp add: robust_finish_def robust_out_def lup_def out_def)
  moreover have "\<forall>x \<in> set out. x < n"
    using props(1) \<open>0 < n\<close> by (auto simp: out_def ran_def split: option.splits)
  moreover have "count_list out v \<le> m div n + 1" if "0 < v" "v < n" for v
  proof -
    have "{k. k < m \<and> (case lup k of None \<Rightarrow> 0 | Some v \<Rightarrow> v) = v} \<subseteq> owned lup v"
      using that by (auto simp: owned_def split: option.splits)
    then have "count_list out v \<le> card (owned lup v)"
      using finite_owned[OF \<open>finite (dom lup)\<close>] by (simp add: out_def count_list_map_upt card_mono)
    also have "\<dots> \<le> card (owned (ro_lup s) v) + 1" using props(2)[of v] by simp
    also have "card (owned (ro_lup s) v) \<le> m div n"
      using inv that(2) by (fastforce simp: robust_inv_def)
    finally show ?thesis by simp
  qed
  ultimately show ?thesis by (simp add: out_def)
qed

text \<open>
  C25. \<open>RobustSimpleLookupTable\<close> returns: with at least one and at most \<open>m\<close> backends every
  probe finds a free slot and the outer loop ends; the table has \<open>m\<close> entries that index the
  backend list, and every backend but the first owns at most \<open>m div n + 1\<close> slots.
\<close>

theorem RobustSimple_total:
  assumes "length bs = n" and "0 < n" and "n \<le> m" and "m < u32_max"
    and "\<forall>b \<in> set bs. Coordinates b \<noteq> []"
  shows "\<exists>out. RobustSimpleLookupTable bs m = Some (Inr out) \<and> length out = m \<and>
    (\<forall>x \<in> set out. x < n) \<and> (\<forall>v. 0 < v \<longrightarrow> v < n \<longrightarrow> count_list out v \<le> m div n + 1)"
proof -
  obtain s where s: "foldM (robust_seed bs m) [0..<n] (robust_start n m) = Inr s" "robust_inv n m s"
    using robust_seed_all[OF assms(2,3,4,5,1)] by blast
  obtain t where "robust_simple_loop n m s = Some (Inr t)" "robust_inv n m t"
    using robust_simple_terminates[OF s(2) assms(4)] by blast
  then show ?thesis
    using s robust_finish_ok[OF _ assms(2-4)] assms
    by (simp add: RobustSimpleLookupTable_def u32_simps)
qed

text \<open>
  \<open>RobustFibLookupTable\<close> returns under the same conditions, with the same guarantees on
  the table.
\<close>

theorem RobustFib_total:
  assumes "length bs = n" and "0 < n" and "n \<le> m" and "m < u32_max"
    and "\<forall>b \<in> set bs. Coordinates b \<noteq> []"
  shows "\<exists>out. RobustFibLookupTable bs m = Some (Inr out) \<and> length out = m \<and>
    (\<forall>x \<in> set out. x < n) \<and> (\<forall>v. 0 < v \<longrightarrow> v < n \<longrightarrow> count_list out v \<le> m div n + 1)"
proof -
  obtain s where s: "foldM (robust_seed bs m) [0..<n] (robust_start n m) = Inr s" "robust_inv n m s"
    using robust_seed_all[OF assms(2,3,4,5,1)] by blast
  obtain t where "foldD (\<lambda>f. foldD (robust_fib_round n m f) [0..<n]) fib s = Some (Inr t)"
    "robust_inv n m t"
    using robust_fib_terminates[OF s(2) assms(4)] by blast
  then show ?thesis
    using s robust_finish_ok[OF _ assms(2-4)] assms
    by (simp add: RobustFibLookupTable_def u32_simps)
qed

theorem RobustSimple_total_witness:
  "\<exists>out. RobustSimpleLookupTable [backend_1, backend_2] 5 = Some (Inr out) \<and> length out = 5 \<and>
     (\<forall>x \<in> set out. x < 2) \<and> count_list out 1 \<le> 5 div 2 + 1"
  using RobustSimple_total[of "[backend_1, backend_2]" 2 5]
  by (auto simp: Coordinates_def example_backend_def)

theorem RobustFib_total_witness:
  "\<exists>out. RobustFibLookupTable [backend_1, backend_2] 5 = Some (Inr out) \<and> length out = 5 \<and>
     (\<forall>x \<in> set out. x < 2) \<and> count_list out 1 \<le> 5 div 2 + 1"
  using RobustFib_total[of "[backend_1, backend_2]" 2 5]
  by (auto simp: Coordinates_def example_backend_def)

text \<open>
  The last loop of the robust tables visits the indices below the number of backends
  instead of below the table length, so slots beyond stay at their zero value: with three
  backends and five slots the first backend ends up with four slots and the second with none.
\<close>

theorem RobustSimple_leftover_to_first:
  "RobustSimpleLookupTable [backend_1, example_backend 5 [5, 5, 5, 5], example_backend 5 [5, 5, 5, 5]] 5
     = Some (Inr [2, 0, 0, 0, 0])"
  by code_simp

theorem probe_full_diverges_witness:
  "robust_probe (\<lambda>k. if k < 3 then Some 0 else None) 3 1 = None"
  by (rule probe_full_diverges) simp_all

end
