(* ===== verification/Lifecycle.thy ===== *)
theory Lifecycle
  imports Core_Types
begin

text \<open>
  The life cycle that \<open>types.Runnable\<close> describes (\<open>internal/types/interfaces.go\<close>) and
  that the adapters share: the flags \<open>running\<close> and \<open>closed\<close> under a mutex, a channel that
  tells the loops to stop and one that is closed when they have. The record holds the flags and
  whether each channel is closed. The locale \<open>runnable\<close> is the contract a bootstrap relies on;
  each component interprets it with its own \<open>Run\<close> and \<open>Close\<close>.
\<close>

record lifecycle =
  lc_running :: bool
  lc_closed :: bool
  lc_terminate :: bool
  lc_done :: bool

definition lc_new :: lifecycle where
  "lc_new = \<lparr>lc_running = False, lc_closed = False, lc_terminate = False, lc_done = False\<rparr>"

text \<open>The flags are exclusive and the stop channel is open until the first \<open>Close\<close>.\<close>

definition lc_wf :: "lifecycle \<Rightarrow> bool" where
  "lc_wf lc \<longleftrightarrow> \<not> (lc_running lc \<and> lc_closed lc) \<and> (lc_terminate lc \<longrightarrow> lc_closed lc)"

lemma lc_new_wf [simp]: "lc_wf lc_new" "\<not> lc_running lc_new" "\<not> lc_closed lc_new"
  by (simp_all add: lc_new_def lc_wf_def)

section \<open>Sequences of calls\<close>

datatype call = CallRun | CallClose

text \<open>
  A bootstrap that makes a sequence of calls one after the other: the errors it gets. \<open>None\<close>
  is a call that never returns.
\<close>

fun make_calls :: "('s \<Rightarrow> (err \<times> 's) comp) \<Rightarrow> ('s \<Rightarrow> (err \<times> 's) comp) \<Rightarrow> call list \<Rightarrow> 's \<Rightarrow>
      (err list \<times> 's) comp" where
  "make_calls run close [] s = Some (Inr ([], s))"
| "make_calls run close (c # cs) s =
     (case (case c of CallRun \<Rightarrow> run s | CallClose \<Rightarrow> close s) of
        None \<Rightarrow> None
      | Some (Inl p) \<Rightarrow> Some (Inl p)
      | Some (Inr (e, s')) \<Rightarrow>
          (case make_calls run close cs s' of
             None \<Rightarrow> None
           | Some (Inl p) \<Rightarrow> Some (Inl p)
           | Some (Inr (es, s'')) \<Rightarrow> Some (Inr (e # es, s''))))"

text \<open>The number of calls of a kind that returned nil.\<close>

definition succeeded :: "call \<Rightarrow> call list \<Rightarrow> err list \<Rightarrow> nat" where
  "succeeded c cs es = length (filter (\<lambda>(c', e). c' = c \<and> e = None) (zip cs es))"

locale runnable =
  fixes run close :: "'s \<Rightarrow> (err \<times> 's) comp"
    and running closed wf :: "'s \<Rightarrow> bool"
  assumes exclusive: "wf s \<Longrightarrow> \<not> (running s \<and> closed s)"
    and run_running: "wf s \<Longrightarrow> running s \<Longrightarrow> run s = Some (Inr (Some ErrAlreadyRunning, s))"
    and run_closed: "wf s \<Longrightarrow> closed s \<Longrightarrow> run s = Some (Inr (Some ErrCannotRunClosedRunnable, s))"
    and run_new: "wf s \<Longrightarrow> \<not> running s \<Longrightarrow> \<not> closed s \<Longrightarrow>
           (\<exists>s'. run s = Some (Inr (None, s')) \<and> wf s' \<and> running s') \<or>
           (\<exists>e. run s = Some (Inr (Some e, s)))"
    and close_running: "wf s \<Longrightarrow> running s \<Longrightarrow>
           \<exists>s'. close s = Some (Inr (None, s')) \<and> wf s' \<and> closed s'"
    and close_stopped: "wf s \<Longrightarrow> \<not> running s \<Longrightarrow> \<exists>e. close s = Some (Inr (Some e, s))"
begin

lemma calls_closed:
  assumes "wf s" and "closed s"
  shows "\<exists>es. make_calls run close cs s = Some (Inr (es, s)) \<and> length es = length cs \<and> None \<notin> set es"
proof (induction cs)
  case Nil
  then show ?case by simp
next
  case (Cons c cs)
  have "\<exists>e. (case c of CallRun \<Rightarrow> run s | CallClose \<Rightarrow> close s) = Some (Inr (Some e, s))"
    using run_closed[OF assms] close_stopped[OF assms(1)] exclusive[OF assms(1)] assms(2)
    by (cases c) auto
  then show ?case using Cons.IH by auto
qed

lemma succeeded_none: "None \<notin> set es \<Longrightarrow> succeeded c cs es = 0"
  by (auto simp: succeeded_def filter_empty_conv dest: set_zip_rightD)

lemma calls_running:
  assumes "wf s" and "running s"
  shows "\<exists>es s'. make_calls run close cs s = Some (Inr (es, s')) \<and> length es = length cs \<and> wf s' \<and>
           succeeded CallRun cs es = 0 \<and> succeeded CallClose cs es \<le> 1"
proof (induction cs)
  case Nil
  then show ?case using assms by (simp add: succeeded_def)
next
  case (Cons c cs)
  show ?case
  proof (cases c)
    case CallRun
    then show ?thesis
      using Cons.IH run_running[OF assms] by (auto simp: succeeded_def)
  next
    case CallClose
    obtain s1 where s1: "close s = Some (Inr (None, s1))" "wf s1" "closed s1"
      using close_running[OF assms] by blast
    obtain es where "make_calls run close cs s1 = Some (Inr (es, s1))" "length es = length cs"
      "None \<notin> set es"
      using calls_closed[OF s1(2,3)] by blast
    then show ?thesis
      using CallClose s1 succeeded_none[of es] by (auto simp: succeeded_def)
  qed
qed

text \<open>
  Whatever calls are made, each returns, at most one \<open>Run\<close> succeeds and at most as many
  \<open>Close\<close> as \<open>Run\<close>.
\<close>

lemma calls_new:
  assumes "wf s" and "\<not> running s" and "\<not> closed s"
  shows "\<exists>es s'. make_calls run close cs s = Some (Inr (es, s')) \<and> length es = length cs \<and> wf s' \<and>
           succeeded CallRun cs es \<le> 1 \<and> succeeded CallClose cs es \<le> succeeded CallRun cs es"
proof (induction cs)
  case Nil
  then show ?case using assms by (simp add: succeeded_def)
next
  case (Cons c cs)
  show ?case
  proof (cases "\<exists>e. (case c of CallRun \<Rightarrow> run s | CallClose \<Rightarrow> close s) = Some (Inr (Some e, s))")
    case True
    then show ?thesis using Cons.IH by (auto simp: succeeded_def)
  next
    case False
    then have c: "c = CallRun" using close_stopped[OF assms(1,2)] by (cases c) auto
    then obtain s1 where s1: "run s = Some (Inr (None, s1))" "wf s1" "running s1"
      using False run_new[OF assms] by auto
    obtain es s2 where "make_calls run close cs s1 = Some (Inr (es, s2))" "length es = length cs"
      "wf s2" "succeeded CallRun cs es = 0" "succeeded CallClose cs es \<le> 1"
      using calls_running[OF s1(2,3)] by blast
    then show ?thesis using c s1(1) by (auto simp: succeeded_def)
  qed
qed

end

end
