(* ===== verification/Ring_Buffer.thy ===== *)
theory Ring_Buffer
  imports Prelude
begin

text \<open>
  \<open>internal/util/ringbuffer.go\<close>: a buffer of fixed size whose writer overwrites the oldest
  unread value. The channel \<open>safeNext\<close> is the number of tokens it holds. \<open>Next\<close> takes a
  token before it takes the lock, so it is two steps, \<open>next_token\<close> and \<open>next_read\<close>. Run
  without interruption it is the read of a bounded queue that drops its oldest element
  (locale \<open>drop_oldest_queue\<close>); with a writer between the two steps a reader can find an
  empty slot.
\<close>

section \<open>The model\<close>

record 'a ring_buffer =
  rb_buf :: "'a option list"
  rb_size :: nat
  rb_readIdx :: nat
  rb_writeIdx :: nat
  rb_safeNext :: nat

definition NewRingBuffer :: "nat \<Rightarrow> 'a ring_buffer" where
  "NewRingBuffer n =
     \<lparr>rb_buf = replicate n None, rb_size = n, rb_readIdx = 0, rb_writeIdx = 0,
      rb_safeNext = 0\<rparr>"

definition incReadIdx :: "'a ring_buffer \<Rightarrow> 'a ring_buffer" where
  "incReadIdx rb =
     (let r = rb_readIdx rb + 1
      in rb\<lparr>rb_readIdx := (if int r > int (rb_size rb) - 1 then 0 else r)\<rparr>)"

definition incWriteIdx :: "'a ring_buffer \<Rightarrow> 'a ring_buffer" where
  "incWriteIdx rb =
     (let w = rb_writeIdx rb + 1
      in rb\<lparr>rb_writeIdx := (if int w > int (rb_size rb) - 1 then 0 else w)\<rparr>)"

text \<open>\<open>Write\<close> ends with a send on \<open>safeNext\<close> that does nothing when the channel is full.\<close>

definition rb_Write :: "'a \<Rightarrow> 'a ring_buffer \<Rightarrow> ('a ring_buffer) go" where
  "rb_Write v rb =
     (if rb_writeIdx rb = rb_readIdx rb \<and> length (rb_buf rb) \<le> rb_writeIdx rb
      then Inl IndexOutOfRange
      else let rb = (if rb_writeIdx rb = rb_readIdx rb \<and> rb_buf rb ! rb_writeIdx rb \<noteq> None
                     then incReadIdx rb else rb)
           in (case slice_set (rb_buf rb) (rb_writeIdx rb) (Some v) of
                 Inl p \<Rightarrow> Inl p
               | Inr buf \<Rightarrow>
                   let rb = incWriteIdx (rb\<lparr>rb_buf := buf\<rparr>)
                   in Inr (if rb_safeNext rb < rb_size rb
                           then rb\<lparr>rb_safeNext := rb_safeNext rb + 1\<rparr> else rb)))"

text \<open>\<open>next_token\<close> is \<open>None\<close> while the channel is empty and the reader waits.\<close>

definition next_token :: "'a ring_buffer \<Rightarrow> 'a ring_buffer option" where
  "next_token rb =
     (if rb_safeNext rb = 0 then None else Some (rb\<lparr>rb_safeNext := rb_safeNext rb - 1\<rparr>))"

definition next_read :: "'a ring_buffer \<Rightarrow> ('a \<times> 'a ring_buffer) go" where
  "next_read rb =
     (case slice_get (rb_buf rb) (rb_readIdx rb) of
        Inl p \<Rightarrow> Inl p
      | Inr out \<Rightarrow>
          let rb = incReadIdx (rb\<lparr>rb_buf := (rb_buf rb)[rb_readIdx rb := None]\<rparr>)
          in (case out of None \<Rightarrow> Inl NilDereference | Some v \<Rightarrow> Inr (v, rb)))"

text \<open>\<open>Next\<close> with nothing between its two steps: \<open>None\<close> is a reader that waits.\<close>

definition rb_Next :: "'a ring_buffer \<Rightarrow> ('a \<times> 'a ring_buffer) comp" where
  "rb_Next rb = (case next_token rb of None \<Rightarrow> None | Some rb' \<Rightarrow> Some (next_read rb'))"

section \<open>The queue it implements\<close>

text \<open>
  A bounded queue that drops its oldest element when it is full. The laws speak of the list of
  unread elements, oldest first.
\<close>

datatype 'a queue_op = Put 'a | Get

fun bounded_run :: "nat \<Rightarrow> 'a queue_op list \<Rightarrow> 'a list \<Rightarrow> ('a list \<times> 'a list) option" where
  "bounded_run n [] xs = Some ([], xs)"
| "bounded_run n (Put x # ops) xs = bounded_run n ops (keep_last n (xs @ [x]))"
| "bounded_run n (Get # ops) [] = None"
| "bounded_run n (Get # ops) (x # xs) =
     map_option (\<lambda>(out, left). (x # out, left)) (bounded_run n ops xs)"

fun queue_run :: "('a \<Rightarrow> 'q \<Rightarrow> 'e + 'q) \<Rightarrow> ('q \<Rightarrow> ('e + ('a \<times> 'q)) option) \<Rightarrow>
      'a queue_op list \<Rightarrow> 'q \<Rightarrow> ('e + ('a list \<times> 'q)) option" where
  "queue_run enq deq [] q = Some (Inr ([], q))"
| "queue_run enq deq (Put x # ops) q =
     (case enq x q of Inl e \<Rightarrow> Some (Inl e) | Inr q' \<Rightarrow> queue_run enq deq ops q')"
| "queue_run enq deq (Get # ops) q =
     (case deq q of
        None \<Rightarrow> None
      | Some (Inl e) \<Rightarrow> Some (Inl e)
      | Some (Inr (x, q')) \<Rightarrow>
          (case queue_run enq deq ops q' of
             None \<Rightarrow> None
           | Some (Inl e) \<Rightarrow> Some (Inl e)
           | Some (Inr (out, q'')) \<Rightarrow> Some (Inr (x # out, q''))))"

locale drop_oldest_queue =
  fixes enq :: "'a \<Rightarrow> 'q \<Rightarrow> 'e + 'q"
    and deq :: "'q \<Rightarrow> ('e + ('a \<times> 'q)) option"
    and items :: "'q \<Rightarrow> 'a list"
    and bound :: "'q \<Rightarrow> nat"
    and invar :: "'q \<Rightarrow> bool"
  assumes bound_pos: "invar q \<Longrightarrow> 0 < bound q"
    and items_bound: "invar q \<Longrightarrow> length (items q) \<le> bound q"
    and enq_spec: "invar q \<Longrightarrow> \<exists>q'. enq x q = Inr q' \<and> invar q' \<and> bound q' = bound q \<and>
           items q' = (if length (items q) = bound q then tl (items q) else items q) @ [x]"
    and deq_empty: "invar q \<Longrightarrow> items q = [] \<Longrightarrow> deq q = None"
    and deq_spec: "invar q \<Longrightarrow> items q = x # xs \<Longrightarrow>
           \<exists>q'. deq q = Some (Inr (x, q')) \<and> invar q' \<and> bound q' = bound q \<and> items q' = xs"
begin

lemma enq_keeps_last:
  assumes "invar q"
  shows "\<exists>q'. enq x q = Inr q' \<and> invar q' \<and> bound q' = bound q \<and>
           items q' = keep_last (bound q) (items q @ [x])"
  using enq_spec[OF assms] keep_last_snoc[OF bound_pos items_bound, OF assms assms] by metis

lemma enq_all:
  assumes "invar q"
  shows "\<exists>q'. foldM enq xs q = Inr q' \<and> invar q' \<and> bound q' = bound q \<and>
           items q' = keep_last (bound q) (items q @ xs)"
  using assms
proof (induction xs arbitrary: q)
  case Nil
  then show ?case using items_bound by simp
next
  case (Cons x xs)
  obtain q1 where q1: "enq x q = Inr q1" "invar q1" "bound q1 = bound q"
    "items q1 = keep_last (bound q) (items q @ [x])"
    using enq_keeps_last[OF Cons.prems] by blast
  obtain q2 where "foldM enq xs q1 = Inr q2" "invar q2" "bound q2 = bound q1"
    "items q2 = keep_last (bound q1) (items q1 @ xs)"
    using Cons.IH[OF q1(2)] by blast
  then show ?case
    using q1 by (simp add: keep_last_keep_last)
qed

lemma run_refines:
  assumes "invar q"
  shows "case bounded_run (bound q) ops (items q) of
           None \<Rightarrow> queue_run enq deq ops q = None
         | Some (out, left) \<Rightarrow>
             \<exists>q'. queue_run enq deq ops q = Some (Inr (out, q')) \<and> invar q' \<and> items q' = left"
  using assms
proof (induction ops arbitrary: q)
  case Nil
  then show ?case by simp
next
  case (Cons oper ops)
  show ?case
  proof (cases oper)
    case (Put x)
    obtain q1 where "enq x q = Inr q1" "invar q1" "bound q1 = bound q"
      "items q1 = keep_last (bound q) (items q @ [x])"
      using enq_keeps_last[OF Cons.prems] by blast
    then show ?thesis using Cons.IH[of q1] Put by (auto split: option.splits)
  next
    case Get
    show ?thesis
    proof (cases "items q")
      case Nil
      then show ?thesis using deq_empty[OF Cons.prems] Get by simp
    next
      case (Cons x xs)
      then obtain q1 where q1: "deq q = Some (Inr (x, q1))" "invar q1" "bound q1 = bound q"
        "items q1 = xs"
        using deq_spec[OF \<open>invar q\<close>] by blast
      then show ?thesis
        using Cons.IH[OF q1(2)] Get \<open>items q = x # xs\<close> by (auto split: option.splits)
    qed
  qed
qed

end

section \<open>The ring buffer implements the queue\<close>

text \<open>
  The unread values, oldest first: \<open>safeNext\<close> many slots from \<open>readIdx\<close> on, going round.
\<close>

definition rb_items :: "'a ring_buffer \<Rightarrow> 'a list" where
  "rb_items rb =
     map (\<lambda>i. the (rb_buf rb ! ((rb_readIdx rb + i) mod rb_size rb))) [0..<rb_safeNext rb]"

definition rb_inv :: "'a ring_buffer \<Rightarrow> bool" where
  "rb_inv rb \<longleftrightarrow>
     0 < rb_size rb \<and> length (rb_buf rb) = rb_size rb \<and> rb_readIdx rb < rb_size rb \<and>
     rb_safeNext rb \<le> rb_size rb \<and>
     rb_writeIdx rb = (rb_readIdx rb + rb_safeNext rb) mod rb_size rb \<and>
     (\<forall>i < rb_size rb.
        (rb_buf rb ! ((rb_readIdx rb + i) mod rb_size rb) \<noteq> None) = (i < rb_safeNext rb))"

lemma NewRingBuffer_inv: "0 < n \<Longrightarrow> rb_inv (NewRingBuffer n) \<and> rb_items (NewRingBuffer n) = []"
  by (simp add: rb_inv_def rb_items_def NewRingBuffer_def)

lemma inc_idx_mod:
  assumes "i < n"
  shows "(if int (i + 1) > int n - 1 then 0 else i + 1) = (i + 1) mod n"
  using assms by (cases "i + 1 = n") auto

lemma mod_add_inj:
  assumes "i < n" and "j < n" and eq: "(r + i) mod n = (r + j) mod (n::nat)"
  shows "i = j"
proof (rule ccontr)
  have dvd: "n dvd (r + y) - (r + x)" if "x < y" "(r + x) mod n = (r + y) mod n" for x y
    using that mod_eq_dvd_iff_nat[of "r + x" "r + y" n] by simp
  assume "i \<noteq> j"
  then consider "i < j" | "j < i" by linarith
  then show False
  proof cases
    case 1
    then show False using dvd[OF 1 eq] assms(2) nat_dvd_not_less[of "j - i" n] by simp
  next
    case 2
    then show False using dvd[OF 2 eq[symmetric]] assms(1) nat_dvd_not_less[of "i - j" n] by simp
  qed
qed

lemma rb_slot_same:
  assumes "i < n" and "j < n"
  shows "((r + i) mod n = (r + j) mod (n::nat)) = (i = j)"
  using mod_add_inj assms by blast

lemma incReadIdx_eq:
  "rb_readIdx rb < rb_size rb \<Longrightarrow>
     incReadIdx rb = rb\<lparr>rb_readIdx := (rb_readIdx rb + 1) mod rb_size rb\<rparr>"
  by (simp only: incReadIdx_def Let_def inc_idx_mod)

lemma incWriteIdx_eq:
  "rb_writeIdx rb < rb_size rb \<Longrightarrow>
     incWriteIdx rb = rb\<lparr>rb_writeIdx := (rb_writeIdx rb + 1) mod rb_size rb\<rparr>"
  by (simp only: incWriteIdx_def Let_def inc_idx_mod)

lemma rb_invD:
  assumes "rb_inv rb"
  shows "0 < rb_size rb" "length (rb_buf rb) = rb_size rb" "rb_readIdx rb < rb_size rb"
    "rb_safeNext rb \<le> rb_size rb" "rb_writeIdx rb = (rb_readIdx rb + rb_safeNext rb) mod rb_size rb"
    "rb_writeIdx rb < rb_size rb"
    "i < rb_size rb \<Longrightarrow>
      (rb_buf rb ! ((rb_readIdx rb + i) mod rb_size rb) \<noteq> None) = (i < rb_safeNext rb)"
  using assms by (auto simp: rb_inv_def)

lemma length_rb_items [simp]: "length (rb_items rb) = rb_safeNext rb"
  by (simp add: rb_items_def)

lemma rb_items_nth [simp]:
  "i < rb_safeNext rb \<Longrightarrow>
     rb_items rb ! i = the (rb_buf rb ! ((rb_readIdx rb + i) mod rb_size rb))"
  by (simp add: rb_items_def)

text \<open>The writer finds a value at its index exactly when the buffer is full.\<close>

lemma rb_overwrites:
  assumes "rb_inv rb"
  shows "(rb_writeIdx rb = rb_readIdx rb \<and> rb_buf rb ! rb_writeIdx rb \<noteq> None) =
         (rb_safeNext rb = rb_size rb)"
proof (cases "rb_safeNext rb = rb_size rb")
  case True
  then show ?thesis using rb_invD(1,3,5)[OF assms] rb_invD(7)[OF assms, of 0] by simp
next
  case False
  then have lt: "rb_safeNext rb < rb_size rb" using rb_invD(4)[OF assms] by simp
  then show ?thesis using rb_invD(5)[OF assms] rb_invD(7)[OF assms lt] by simp
qed

lemma rb_Write_full:
  assumes inv: "rb_inv rb" and full: "rb_safeNext rb = rb_size rb"
  shows "rb_Write v rb = Inr (rb\<lparr>rb_buf := (rb_buf rb)[rb_readIdx rb := Some v],
           rb_readIdx := (rb_readIdx rb + 1) mod rb_size rb,
           rb_writeIdx := (rb_readIdx rb + 1) mod rb_size rb\<rparr>)"
proof -
  have w: "rb_writeIdx rb = rb_readIdx rb" "rb_buf rb ! rb_readIdx rb \<noteq> None"
    using rb_overwrites[OF inv] full by auto
  show ?thesis
    using rb_invD(1-3)[OF inv] w full
    by (simp add: rb_Write_def incReadIdx_eq incWriteIdx_eq Let_def slice_set_def)
qed

lemma rb_Write_room:
  assumes inv: "rb_inv rb" and room: "rb_safeNext rb < rb_size rb"
  shows "rb_Write v rb = Inr (rb\<lparr>rb_buf := (rb_buf rb)[rb_writeIdx rb := Some v],
           rb_writeIdx := (rb_writeIdx rb + 1) mod rb_size rb,
           rb_safeNext := rb_safeNext rb + 1\<rparr>)"
proof -
  have no: "\<not> (rb_writeIdx rb = rb_readIdx rb \<and> rb_buf rb ! rb_writeIdx rb \<noteq> None)"
    using rb_overwrites[OF inv] room by simp
  have "rb_writeIdx rb < length (rb_buf rb)" using rb_invD(2,6)[OF inv] by simp
  then show ?thesis
    using rb_invD(6)[OF inv] room
    by (simp add: rb_Write_def if_not_P[OF no] incWriteIdx_eq Let_def slice_set_def del: not_None_eq)
qed

text \<open>A read of a buffer that is not empty, the token taken.\<close>

lemma rb_Next_some:
  assumes inv: "rb_inv rb" and ne: "0 < rb_safeNext rb"
  shows "rb_Next rb = Some (Inr (the (rb_buf rb ! rb_readIdx rb),
           rb\<lparr>rb_buf := (rb_buf rb)[rb_readIdx rb := None],
              rb_readIdx := (rb_readIdx rb + 1) mod rb_size rb,
              rb_safeNext := rb_safeNext rb - 1\<rparr>))"
proof -
  have "rb_buf rb ! rb_readIdx rb \<noteq> None"
    using rb_invD(7)[OF inv, of 0] rb_invD(1,3)[OF inv] ne by simp
  then obtain v where "rb_buf rb ! rb_readIdx rb = Some v" by blast
  then show ?thesis
    using rb_invD(2,3)[OF inv] ne
    by (simp add: rb_Next_def next_token_def next_read_def slice_get_def incReadIdx_eq Let_def)
qed

lemma rb_Write_room_spec:
  assumes inv: "rb_inv rb" and room: "rb_safeNext rb < rb_size rb"
  shows "\<exists>rb'. rb_Write v rb = Inr rb' \<and> rb_inv rb' \<and> rb_size rb' = rb_size rb \<and>
           rb_items rb' = rb_items rb @ [v]"
proof -
  let ?n = "rb_size rb" and ?r = "rb_readIdx rb" and ?k = "rb_safeNext rb"
  let ?rb' = "rb\<lparr>rb_buf := (rb_buf rb)[rb_writeIdx rb := Some v],
           rb_writeIdx := (rb_writeIdx rb + 1) mod ?n, rb_safeNext := ?k + 1\<rparr>"
  have slot: "(rb_buf rb)[rb_writeIdx rb := Some v] ! ((?r + i) mod ?n) =
      (if i = ?k then Some v else rb_buf rb ! ((?r + i) mod ?n))" if "i < ?n" for i
    using that room rb_invD(1,2,5,6)[OF inv] rb_slot_same[OF room that, of ?r]
    by (simp add: nth_list_update)
  have "rb_inv ?rb'"
    using rb_invD[OF inv] room slot
    by (auto simp: rb_inv_def mod_Suc_eq less_Suc_eq)
  moreover have "rb_items ?rb' = rb_items rb @ [v]"
    by (rule nth_equalityI) (use slot room in \<open>auto simp: nth_append less_Suc_eq\<close>)
  ultimately show ?thesis
    using rb_Write_room[OF inv room] by simp
qed

text \<open>
  The slots after the one at \<open>readIdx\<close> has been given the value \<open>x\<close>, counted from the
  next read index: the slot that changed is the last.
\<close>

lemma rb_rotate:
  assumes inv: "rb_inv rb" and i: "i < rb_size rb"
  shows "(rb_buf rb)[rb_readIdx rb := x] !
           (((rb_readIdx rb + 1) mod rb_size rb + i) mod rb_size rb) =
         (if i = rb_size rb - 1 then x
          else rb_buf rb ! ((rb_readIdx rb + (i + 1)) mod rb_size rb))"
proof -
  let ?n = "rb_size rb" and ?r = "rb_readIdx rb"
  have shift: "((?r + 1) mod ?n + i) mod ?n = (?r + (i + 1)) mod ?n"
    by (simp add: mod_simps)
  show ?thesis
  proof (cases "i = ?n - 1")
    case True
    then have "i + 1 = ?n" using rb_invD(1)[OF inv] by simp
    then have "(?r + (i + 1)) mod ?n = ?r" using rb_invD(3)[OF inv] by simp
    then show ?thesis unfolding shift using True rb_invD(2,3)[OF inv] by simp
  next
    case False
    then have lt: "i + 1 < ?n" using i by simp
    then have "(?r + (i + 1)) mod ?n \<noteq> ?r"
      using rb_slot_same[OF lt, of 0 ?r] rb_invD(1,3)[OF inv] by simp
    then show ?thesis unfolding shift using False by simp
  qed
qed

lemma rb_Write_full_spec:
  assumes inv: "rb_inv rb" and full: "rb_safeNext rb = rb_size rb"
  shows "\<exists>rb'. rb_Write v rb = Inr rb' \<and> rb_inv rb' \<and> rb_size rb' = rb_size rb \<and>
           rb_items rb' = tl (rb_items rb) @ [v]"
proof -
  let ?n = "rb_size rb" and ?r = "rb_readIdx rb"
  let ?rb' = "rb\<lparr>rb_buf := (rb_buf rb)[?r := Some v], rb_readIdx := (?r + 1) mod ?n,
           rb_writeIdx := (?r + 1) mod ?n\<rparr>"
  note slot = rb_rotate[OF inv, where x = "Some v"]
  have some: "rb_buf rb ! ((?r + (i + 1)) mod ?n) \<noteq> None" if "i < ?n" "i \<noteq> ?n - 1" for i
    using that rb_invD(7)[OF inv, of "i + 1"] full by simp
  have "rb_inv ?rb'"
    unfolding rb_inv_def
    using rb_invD(1-3)[OF inv] full slot some by (simp add: mod_simps)
  moreover have "rb_items ?rb' = tl (rb_items rb) @ [v]"
  proof (rule nth_equalityI)
    show len: "length (rb_items ?rb') = length (tl (rb_items rb) @ [v])"
      using full rb_invD(1)[OF inv] by simp
    fix i
    assume "i < length (rb_items ?rb')"
    then have i: "i < ?n" using full by simp
    then have "rb_items ?rb' ! i = the (if i = ?n - 1 then Some v
                                          else rb_buf rb ! ((?r + (i + 1)) mod ?n))"
      using slot[OF i] full by simp
    moreover have "tl (rb_items rb) ! i = the (rb_buf rb ! ((?r + (i + 1)) mod ?n))" if "i \<noteq> ?n - 1"
      using i that full by (simp add: nth_tl)
    ultimately show "rb_items ?rb' ! i = (tl (rb_items rb) @ [v]) ! i"
      using i full by (cases "i < ?n - 1") (auto simp: nth_append less_Suc_eq)
  qed
  ultimately show ?thesis
    using rb_Write_full[OF inv full] by simp
qed

lemma rb_Next_spec:
  assumes inv: "rb_inv rb" and items: "rb_items rb = x # xs"
  shows "\<exists>rb'. rb_Next rb = Some (Inr (x, rb')) \<and> rb_inv rb' \<and> rb_size rb' = rb_size rb \<and>
           rb_items rb' = xs"
proof -
  let ?n = "rb_size rb" and ?r = "rb_readIdx rb" and ?k = "rb_safeNext rb"
  let ?rb' = "rb\<lparr>rb_buf := (rb_buf rb)[?r := None], rb_readIdx := (?r + 1) mod ?n,
              rb_safeNext := ?k - 1\<rparr>"
  note slot = rb_rotate[OF inv, where x = None]
  have k: "0 < ?k" using items length_rb_items[of rb] by simp
  have rest: "(rb_buf rb ! ((?r + (i + 1)) mod ?n) \<noteq> None) = (i < ?k - 1)"
    if "i < ?n" "i \<noteq> ?n - 1" for i
    using that rb_invD(7)[OF inv, of "i + 1"] by auto
  have last: "\<not> ?n - 1 < ?k - 1" using rb_invD(4)[OF inv] by simp
  have "((?r + 1) mod ?n + (?k - 1)) mod ?n = (?r + ?k) mod ?n"
    using mod_add_left_eq[of "?r + 1" ?n "?k - 1"] k by simp
  then have "rb_inv ?rb'"
    unfolding rb_inv_def
    using rb_invD(1-5)[OF inv] slot rest last by (simp add: less_Suc_eq_le del: not_None_eq)
  moreover have "rb_items ?rb' = tl (rb_items rb)"
    by (rule nth_equalityI)
      (use slot rb_invD(1,4)[OF inv] k in \<open>auto simp: nth_tl\<close>)
  moreover have "the (rb_buf rb ! ?r) = x"
    using rb_items_nth[OF k] items rb_invD(1,3)[OF inv] by simp
  ultimately show ?thesis
    using rb_Next_some[OF inv k] items by simp
qed

lemma rb_Next_empty: "rb_items rb = [] \<Longrightarrow> rb_Next rb = None"
  using length_rb_items[of rb] by (simp add: rb_Next_def next_token_def)

interpretation rbq: drop_oldest_queue rb_Write rb_Next rb_items rb_size rb_inv
proof
  fix q :: "'a ring_buffer" and v
  assume inv: "rb_inv q"
  show "0 < rb_size q" and "length (rb_items q) \<le> rb_size q"
    using rb_invD[OF inv] by simp_all
  show "\<exists>q'. rb_Write v q = Inr q' \<and> rb_inv q' \<and> rb_size q' = rb_size q \<and>
          rb_items q' = (if length (rb_items q) = rb_size q then tl (rb_items q) else rb_items q) @ [v]"
    using rb_Write_full_spec[OF inv] rb_Write_room_spec[OF inv] rb_invD(4)[OF inv]
    by (cases "rb_safeNext q = rb_size q") auto
next
  fix q :: "'a ring_buffer"
  assume "rb_items q = []"
  then show "rb_Next q = None" by (rule rb_Next_empty)
next
  fix q :: "'a ring_buffer" and x xs
  assume "rb_inv q" and "rb_items q = x # xs"
  then show "\<exists>q'. rb_Next q = Some (Inr (x, q')) \<and> rb_inv q' \<and> rb_size q' = rb_size q \<and>
               rb_items q' = xs"
    by (rule rb_Next_spec)
qed

section \<open>Properties\<close>

text \<open>
  C13. A ring buffer of positive size used by one goroutine at a time behaves like a queue that
  keeps the last \<open>size\<close> values written and not yet read: for every sequence of calls to
  \<open>Write\<close> and \<open>Next\<close>, the values read are those of the bounded queue, in order, no call
  panics, and a call to \<open>Next\<close> waits exactly when that queue is empty.
\<close>

theorem ring_buffer_refines_bounded_queue:
  assumes "0 < n"
  shows "case bounded_run n ops [] of
           None \<Rightarrow> queue_run rb_Write rb_Next ops (NewRingBuffer n) = None
         | Some (out, left) \<Rightarrow>
             \<exists>rb. queue_run rb_Write rb_Next ops (NewRingBuffer n) = Some (Inr (out, rb)) \<and>
                  rb_inv rb \<and> rb_items rb = left"
proof -
  have "rb_size (NewRingBuffer n) = n" by (simp add: NewRingBuffer_def)
  then show ?thesis
    using rbq.run_refines[of "NewRingBuffer n" ops] NewRingBuffer_inv[OF assms] by metis
qed

theorem ring_buffer_refines_bounded_queue_witness:
  "\<exists>rb. queue_run rb_Write rb_Next
          [Put (0::nat), Put 1, Put 2, Get, Put 3, Put 4, Get, Get] (NewRingBuffer 3) =
        Some (Inr ([0, 2, 3], rb)) \<and> rb_inv rb \<and> rb_items rb = [4]"
  using ring_buffer_refines_bounded_queue[of 3 "[Put (0::nat), Put 1, Put 2, Get, Put 3, Put 4, Get, Get]"]
  by (simp add: keep_last_def)

text \<open>
  One reader and one writer that share a buffer. Between taking its token and taking the lock
  the reader holds nothing, and the writer can run.
\<close>

datatype rb_reader = Idle | Holding

datatype 'a rb_world = Running "'a ring_buffer" rb_reader | Panicked go_panic

inductive rb_step :: "'a rb_world \<Rightarrow> 'a rb_world \<Rightarrow> bool" where
  put: "rb_Write v rb = Inr rb' \<Longrightarrow> rb_step (Running rb r) (Running rb' r)"
| put_panic: "rb_Write v rb = Inl p \<Longrightarrow> rb_step (Running rb r) (Panicked p)"
| token: "next_token rb = Some rb' \<Longrightarrow> rb_step (Running rb Idle) (Running rb' Holding)"
| take: "next_read rb = Inr (v, rb') \<Longrightarrow> rb_step (Running rb Holding) (Running rb' Idle)"
| take_panic: "next_read rb = Inl p \<Longrightarrow> rb_step (Running rb Holding) (Panicked p)"

inductive_cases rb_step_panickedE: "rb_step (Panicked p) w"

text \<open>
  With a reader and a writer, \<open>Next\<close> can dereference a nil pointer: a write that
  overwrites the value of a token already taken adds a second token for the one value left, and
  the read after next finds its slot empty.
\<close>

theorem ring_buffer_race_panics:
  "rb_step\<^sup>*\<^sup>* (Running (NewRingBuffer 1) Idle) (Panicked NilDereference :: nat rb_world)"
proof -
  let ?rb = "\<lambda>v n. \<lparr>rb_buf = [v], rb_size = 1, rb_readIdx = 0, rb_writeIdx = 0, rb_safeNext = n\<rparr>
      :: nat ring_buffer"
  note ev = NewRingBuffer_def rb_Write_def next_token_def next_read_def incReadIdx_def
    incWriteIdx_def slice_set_def slice_get_def Let_def
  have "rb_step (Running (NewRingBuffer 1) Idle) (Running (?rb (Some 7) 1) Idle)"
    by (rule rb_step.put[of 7]) (simp add: ev)
  moreover have "rb_step (Running (?rb (Some 7) 1) Idle) (Running (?rb (Some 7) 0) Holding)"
    by (rule rb_step.token) (simp add: ev)
  moreover have "rb_step (Running (?rb (Some 7) 0) Holding) (Running (?rb (Some 8) 1) Holding)"
    by (rule rb_step.put[of 8]) (simp add: ev)
  moreover have "rb_step (Running (?rb (Some 8) 1) Holding) (Running (?rb None 1) Idle)"
    by (rule rb_step.take[of _ 8]) (simp add: ev)
  moreover have "rb_step (Running (?rb None 1) Idle) (Running (?rb None 0) Holding)"
    by (rule rb_step.token) (simp add: ev)
  moreover have "rb_step (Running (?rb None 0) Holding) (Panicked NilDereference)"
    by (rule rb_step.take_panic) (simp add: ev)
  ultimately show ?thesis
    by (meson rtranclp.rtrancl_refl converse_rtranclp_into_rtranclp)
qed

end
