(* ===== verification/Linked_List.thy ===== *)
theory Linked_List
  imports Prelude
begin

text \<open>
  \<open>internal/util/linkedlist.go\<close>: the doubly linked list with an optional capacity behind the
  watchers' history. Nodes live in a store, a pointer is the index of the node in the order of
  allocation, nil is \<open>None\<close>; nothing is ever removed from the store, which stands for the Go
  heap. Every method takes the list's lock for its whole body, so a call is one step. The
  lengths are natural numbers: a list of \<open>2 ^ 64\<close> nodes does not fit in memory.
\<close>

section \<open>The model\<close>

record 'a llnode =
  n_previous :: "nat option"
  n_next :: "nat option"
  n_data :: 'a

record 'a linked_list =
  ll_nodes :: "'a llnode list"
  ll_head :: "nat option"
  ll_tail :: "nat option"
  ll_length :: nat
  ll_capacity :: nat

definition NewLinkedList :: "nat \<Rightarrow> 'a linked_list" where
  "NewLinkedList cap =
     \<lparr>ll_nodes = [], ll_head = None, ll_tail = None, ll_length = 0, ll_capacity = cap\<rparr>"

definition ll_Head :: "'a linked_list \<Rightarrow> nat option" where
  "ll_Head l = ll_head l"

definition ll_Tail :: "'a linked_list \<Rightarrow> nat option" where
  "ll_Tail l = ll_tail l"

definition ll_Length :: "'a linked_list \<Rightarrow> int" where
  "ll_Length l = int (ll_length l)"

definition ll_Capacity :: "'a linked_list \<Rightarrow> int" where
  "ll_Capacity l = int (ll_capacity l)"

text \<open>The methods of a node; calling one on a nil pointer panics.\<close>

definition node_at :: "'a linked_list \<Rightarrow> nat option \<Rightarrow> ('a llnode) go" where
  "node_at l p =
     (case p of
        None \<Rightarrow> Inl NilDereference
      | Some a \<Rightarrow> if a < length (ll_nodes l) then Inr (ll_nodes l ! a) else Inl NilDereference)"

definition node_Previous :: "'a linked_list \<Rightarrow> nat option \<Rightarrow> (nat option) go" where
  "node_Previous l p = (case node_at l p of Inl e \<Rightarrow> Inl e | Inr n \<Rightarrow> Inr (n_previous n))"

definition node_Next :: "'a linked_list \<Rightarrow> nat option \<Rightarrow> (nat option) go" where
  "node_Next l p = (case node_at l p of Inl e \<Rightarrow> Inl e | Inr n \<Rightarrow> Inr (n_next n))"

definition node_Data :: "'a linked_list \<Rightarrow> nat option \<Rightarrow> 'a go" where
  "node_Data l p = (case node_at l p of Inl e \<Rightarrow> Inl e | Inr n \<Rightarrow> Inr (n_data n))"

text \<open>The first part of \<open>Append\<close>: the head is popped from a full list.\<close>

definition ll_pop :: "'a linked_list \<Rightarrow> ('a linked_list) go" where
  "ll_pop l =
     (if ll_length l = 1
      then Inr (l\<lparr>ll_head := None, ll_tail := None, ll_length := ll_length l - 1\<rparr>)
      else (case node_Next l (ll_head l) of
              Inl e \<Rightarrow> Inl e
            | Inr h \<Rightarrow> Inr (l\<lparr>ll_head := h, ll_length := ll_length l - 1\<rparr>)))"

text \<open>The second part: a new node becomes the tail.\<close>

definition ll_push :: "'a \<Rightarrow> 'a linked_list \<Rightarrow> ('a linked_list) go" where
  "ll_push x l =
     (let a = length (ll_nodes l)
      in (case ll_tail l of
            None \<Rightarrow>
              Inr (l\<lparr>ll_nodes := ll_nodes l @ [\<lparr>n_previous = None, n_next = None, n_data = x\<rparr>],
                     ll_head := Some a, ll_tail := Some a, ll_length := ll_length l + 1\<rparr>)
          | Some t \<Rightarrow>
              (case node_at l (Some t) of
                 Inl e \<Rightarrow> Inl e
               | Inr n \<Rightarrow>
                   Inr (l\<lparr>ll_nodes := (ll_nodes l)[t := n\<lparr>n_next := Some a\<rparr>] @
                            [\<lparr>n_previous = Some t, n_next = None, n_data = x\<rparr>],
                          ll_tail := Some a, ll_length := ll_length l + 1\<rparr>))))"

definition ll_Append :: "'a \<Rightarrow> 'a linked_list \<Rightarrow> ('a linked_list) go" where
  "ll_Append x l =
     (if ll_capacity l \<noteq> 0 \<and> ll_length l = ll_capacity l
      then (if ll_length l = 0 then Inr l
            else (case ll_pop l of Inl e \<Rightarrow> Inl e | Inr l' \<Rightarrow> ll_push x l'))
      else ll_push x l)"

text \<open>A client that follows \<open>Next\<close> from a node, and one that follows \<open>Previous\<close>.\<close>

fun walk :: "('a linked_list \<Rightarrow> nat option \<Rightarrow> (nat option) go) \<Rightarrow> nat \<Rightarrow> 'a linked_list \<Rightarrow>
      nat option \<Rightarrow> ('a list) option" where
  "walk nxt fuel l None = Some []"
| "walk nxt 0 l (Some a) = None"
| "walk nxt (Suc fuel) l (Some a) =
     (case (node_Data l (Some a), nxt l (Some a)) of
        (Inr x, Inr p) \<Rightarrow> map_option ((#) x) (walk nxt fuel l p)
      | _ \<Rightarrow> None)"

section \<open>The shape of the list\<close>

text \<open>
  The live nodes are the last \<open>length\<close> ones that were allocated. With a capacity of one a
  node is never linked to the one before; otherwise every node is linked both ways, also those
  that were popped.
\<close>

abbreviation ll_first :: "'a linked_list \<Rightarrow> nat" where
  "ll_first l \<equiv> length (ll_nodes l) - ll_length l"

definition linked :: "'a list \<Rightarrow> 'a linked_list \<Rightarrow> bool" where
  "linked xs l \<longleftrightarrow>
     map n_data (ll_nodes l) = xs \<and>
     (\<forall>i < length xs.
        n_next (ll_nodes l ! i) = (if Suc i < length xs then Some (Suc i) else None) \<and>
        n_previous (ll_nodes l ! i) = (if i = 0 then None else Some (i - 1)))"

definition unlinked :: "'a list \<Rightarrow> 'a linked_list \<Rightarrow> bool" where
  "unlinked xs l \<longleftrightarrow>
     map n_data (ll_nodes l) = xs \<and>
     (\<forall>i < length xs. n_next (ll_nodes l ! i) = None \<and> n_previous (ll_nodes l ! i) = None)"

definition ll_inv :: "'a list \<Rightarrow> 'a linked_list \<Rightarrow> bool" where
  "ll_inv xs l \<longleftrightarrow>
     (if ll_capacity l = 1 then unlinked xs l else linked xs l) \<and>
     ll_length l = (if ll_capacity l = 0 then length xs else min (ll_capacity l) (length xs)) \<and>
     ll_head l = (if xs = [] then None else Some (ll_first l)) \<and>
     ll_tail l = (if xs = [] then None else Some (length xs - 1))"

lemma NewLinkedList_inv: "ll_inv [] (NewLinkedList cap)"
  by (simp add: ll_inv_def linked_def unlinked_def NewLinkedList_def)

lemma linked_length: "linked xs l \<Longrightarrow> length (ll_nodes l) = length xs"
  unfolding linked_def by (metis length_map)

lemma unlinked_length: "unlinked xs l \<Longrightarrow> length (ll_nodes l) = length xs"
  unfolding unlinked_def by (metis length_map)

lemma linked_cong: "ll_nodes l = ll_nodes l' \<Longrightarrow> linked xs l = linked xs l'"
  by (simp add: linked_def)

lemma ll_push_linked:
  assumes links: "linked xs l" and ne: "xs \<noteq> []" and tail: "ll_tail l = Some (length xs - 1)"
  shows "\<exists>nodes. ll_push x l = Inr (l\<lparr>ll_nodes := nodes, ll_tail := Some (length xs),
             ll_length := ll_length l + 1\<rparr>) \<and> length nodes = Suc (length xs) \<and>
           linked (xs @ [x]) (l\<lparr>ll_nodes := nodes\<rparr>)"
proof -
  let ?n = "length xs" and ?t = "length xs - 1"
  let ?nodes = "(ll_nodes l)[?t := (ll_nodes l ! ?t)\<lparr>n_next := Some ?n\<rparr>] @
      [\<lparr>n_previous = Some ?t, n_next = None, n_data = x\<rparr>]"
  note len = linked_length[OF links]
  have t: "?t < ?n" using ne by simp
  have "ll_push x l = Inr (l\<lparr>ll_nodes := ?nodes, ll_tail := Some ?n, ll_length := ll_length l + 1\<rparr>)"
    using t len by (simp add: ll_push_def node_at_def tail Let_def)
  moreover have "linked (xs @ [x]) (l\<lparr>ll_nodes := ?nodes\<rparr>)"
    unfolding linked_def
  proof (intro conjI allI impI)
    have data: "map n_data (ll_nodes l) = xs" using links by (simp add: linked_def)
    have "n_data (ll_nodes l ! ?t) = xs ! ?t"
      using nth_map[of ?t "ll_nodes l" n_data] data t len by simp
    then have "map n_data ((ll_nodes l)[?t := (ll_nodes l ! ?t)\<lparr>n_next := Some ?n\<rparr>]) = xs"
      by (simp only: map_update data) simp
    then show "map n_data (ll_nodes (l\<lparr>ll_nodes := ?nodes\<rparr>)) = xs @ [x]" by simp
    fix i
    assume "i < length (xs @ [x])"
    then consider "i < ?t" | "i = ?t" | "i = ?n" by fastforce
    note cases_i = this
    have old: "n_next (ll_nodes l ! i) = (if Suc i < ?n then Some (Suc i) else None)"
      "n_previous (ll_nodes l ! i) = (if i = 0 then None else Some (i - 1))" if "i < ?n"
      using links that by (simp_all add: linked_def)
    show "n_next (ll_nodes (l\<lparr>ll_nodes := ?nodes\<rparr>) ! i) =
            (if Suc i < length (xs @ [x]) then Some (Suc i) else None)"
      using cases_i by cases (use old t len in \<open>simp_all add: nth_append nth_list_update\<close>)
    show "n_previous (ll_nodes (l\<lparr>ll_nodes := ?nodes\<rparr>) ! i) =
            (if i = 0 then None else Some (i - 1))"
      using cases_i by cases (use old t len ne in \<open>auto simp: nth_append nth_list_update\<close>)
  qed
  ultimately show ?thesis using len by fastforce
qed

lemma ll_push_first:
  assumes "map n_data (ll_nodes l) = xs" and "ll_tail l = None"
  shows "\<exists>nodes. ll_push x l = Inr (l\<lparr>ll_nodes := nodes, ll_head := Some (length xs),
             ll_tail := Some (length xs), ll_length := ll_length l + 1\<rparr>) \<and>
           nodes = ll_nodes l @ [\<lparr>n_previous = None, n_next = None, n_data = x\<rparr>]"
  using assms by (auto simp: ll_push_def Let_def)

lemma ll_Append_inv:
  assumes inv: "ll_inv xs l"
  shows "\<exists>l'. ll_Append x l = Inr l' \<and> ll_capacity l' = ll_capacity l \<and> ll_inv (xs @ [x]) l'"
proof -
  consider (one) "ll_capacity l = 1" | (empty) "xs = []" "ll_capacity l \<noteq> 1"
    | (full) "1 < ll_capacity l" "xs \<noteq> []" "ll_capacity l \<le> length xs"
    | (room) "ll_capacity l \<noteq> 1" "xs \<noteq> []" "ll_capacity l = 0 \<or> length xs < ll_capacity l"
    by linarith
  then show ?thesis
  proof cases
    case one
    then have un: "unlinked xs l" using inv by (simp add: ll_inv_def)
    have "unlinked (xs @ [x]) (l'\<lparr>ll_nodes := ll_nodes l @
            [\<lparr>n_previous = None, n_next = None, n_data = x\<rparr>]\<rparr>)" for l' :: "'a linked_list"
      using un unlinked_length[OF un] by (simp add: unlinked_def nth_append less_Suc_eq)
    moreover have "min (Suc 0) (length xs) = (if xs = [] then 0 else 1)" by (cases xs) auto
    ultimately show ?thesis
      using inv one unlinked_length[OF un]
      by (auto simp: ll_Append_def ll_pop_def ll_push_def ll_inv_def Let_def unlinked_def)
  next
    case empty
    then show ?thesis
      using inv by (auto simp: ll_Append_def ll_push_def ll_inv_def Let_def linked_def)
  next
    case full
    then have links: "linked xs l" and len: "ll_length l = ll_capacity l"
      and tail: "ll_tail l = Some (length xs - 1)"
      using inv by (simp_all add: ll_inv_def)
    let ?h = "Suc (length xs - ll_capacity l)"
    let ?l = "l\<lparr>ll_head := Some ?h, ll_length := ll_length l - 1\<rparr>"
    have "ll_pop l = Inr ?l"
      using inv full links linked_length[OF links]
      by (auto simp: ll_pop_def node_Next_def node_at_def ll_inv_def linked_def)
    moreover obtain nodes where "ll_push x ?l = Inr (?l\<lparr>ll_nodes := nodes,
        ll_tail := Some (length xs), ll_length := ll_length ?l + 1\<rparr>)"
      "length nodes = Suc (length xs)" "linked (xs @ [x]) (?l\<lparr>ll_nodes := nodes\<rparr>)"
      using ll_push_linked[of xs ?l x] links full(2) tail by (auto simp: linked_def)
    ultimately show ?thesis
      using full len by (simp add: ll_Append_def ll_inv_def linked_def Suc_diff_le)
  next
    case room
    then have links: "linked xs l" and tail: "ll_tail l = Some (length xs - 1)"
      using inv by (simp_all add: ll_inv_def)
    obtain nodes where push: "ll_push x l = Inr (l\<lparr>ll_nodes := nodes,
        ll_tail := Some (length xs), ll_length := ll_length l + 1\<rparr>)"
      and nodes: "length nodes = Suc (length xs)" "linked (xs @ [x]) (l\<lparr>ll_nodes := nodes\<rparr>)"
      using ll_push_linked[OF links room(2) tail] by blast
    have len: "ll_length l = length xs" and head: "ll_head l = Some 0"
      using inv room linked_length[OF links] by (auto simp: ll_inv_def)
    then have "ll_Append x l = ll_push x l"
      using room(2,3) by (auto simp: ll_Append_def)
    then show ?thesis
      using push nodes room len head by (auto simp: ll_inv_def linked_def)
  qed
qed

lemma ll_Append_all:
  assumes "ll_inv xs l"
  shows "\<exists>l'. foldM ll_Append ys l = Inr l' \<and> ll_capacity l' = ll_capacity l \<and> ll_inv (xs @ ys) l'"
  using assms
proof (induction ys arbitrary: xs l)
  case Nil
  then show ?case by simp
next
  case (Cons y ys)
  obtain l1 where "ll_Append y l = Inr l1" "ll_capacity l1 = ll_capacity l" "ll_inv (xs @ [y]) l1"
    using ll_Append_inv[OF Cons.prems] by blast
  then show ?case using Cons.IH[of "xs @ [y]" l1] by auto
qed

section \<open>What a reader of the list sees\<close>

lemma walk_from:
  assumes step: "\<And>i. i < n \<Longrightarrow> nxt l (Some (pos i)) = Inr (if Suc i < n then Some (pos (Suc i)) else None)"
    and data: "\<And>i. i < n \<Longrightarrow> node_Data l (Some (pos i)) = Inr (val i)"
    and "k < n" and "n - k \<le> fuel"
  shows "walk nxt fuel l (Some (pos k)) = Some (map val [k..<n])"
  using assms(3,4)
proof (induction fuel arbitrary: k)
  case 0
  then show ?case by simp
next
  case (Suc fuel)
  show ?case
  proof (cases "Suc k < n")
    case True
    then have "walk nxt fuel l (Some (pos (Suc k))) = Some (map val [Suc k..<n])"
      using Suc.IH[of "Suc k"] Suc.prems by simp
    then show ?thesis using True Suc.prems(1) step[of k] data[of k] by (simp add: upt_conv_Cons)
  next
    case False
    then have "n = Suc k" using Suc.prems by simp
    then show ?thesis using step[of k] data[of k] by simp
  qed
qed

lemma node_Data_nth:
  "map n_data (ll_nodes l) = xs \<Longrightarrow> i < length xs \<Longrightarrow> node_Data l (Some i) = Inr (xs ! i)"
  by (auto simp: node_Data_def node_at_def)

lemma walk_forward:
  assumes inv: "ll_inv xs l"
  shows "walk node_Next (length xs) l (ll_head l) =
           Some (if ll_capacity l = 0 then xs else keep_last (ll_capacity l) xs)"
proof (cases "xs = []")
  case True
  then show ?thesis using inv by (simp add: ll_inv_def)
next
  case ne: False
  let ?c = "ll_capacity l" and ?f = "length xs - ll_length l" and ?n = "ll_length l"
  have data: "map n_data (ll_nodes l) = xs"
    using inv by (auto simp: ll_inv_def linked_def unlinked_def split: if_splits)
  then have len: "length (ll_nodes l) = length xs" by (metis length_map)
  have n: "0 < ?n" "?n \<le> length xs"
    using inv ne by (auto simp: ll_inv_def)
  have "node_Next l (Some (?f + i)) = Inr (if Suc i < ?n then Some (?f + Suc i) else None)" if "i < ?n" for i
  proof (cases "?c = 1")
    case True
    then have "unlinked xs l" "?n = 1" using inv ne by (cases xs; simp add: ll_inv_def)+
    then show ?thesis using that n len by (simp add: unlinked_def node_Next_def node_at_def)
  next
    case False
    then have "linked xs l" using inv by (simp add: ll_inv_def)
    then have "n_next (ll_nodes l ! (?f + i)) =
        (if Suc (?f + i) < length xs then Some (Suc (?f + i)) else None)"
      using that n by (simp add: linked_def)
    then show ?thesis using that n len by (auto simp: node_Next_def node_at_def)
  qed
  then have "walk node_Next (length xs) l (Some (?f + 0)) = Some (map (\<lambda>i. xs ! (?f + i)) [0..<?n])"
    using n data node_Data_nth[OF data] by (intro walk_from) auto
  moreover have "map (\<lambda>i. xs ! (?f + i)) [0..<?n] = drop ?f xs"
    using n by (intro nth_equalityI) auto
  moreover have "ll_head l = Some ?f" using inv ne len by (simp add: ll_inv_def)
  moreover have "drop ?f xs = (if ?c = 0 then xs else keep_last ?c xs)"
    using inv by (auto simp: ll_inv_def keep_last_def min_def)
  ultimately show ?thesis by simp
qed

lemma walk_backward:
  assumes inv: "ll_inv xs l" and cap: "ll_capacity l \<noteq> 1"
  shows "walk node_Previous (length xs) l (ll_tail l) = Some (rev xs)"
proof (cases "xs = []")
  case True
  then show ?thesis using inv by (simp add: ll_inv_def)
next
  case ne: False
  let ?n = "length xs"
  have links: "linked xs l" using inv cap by (simp add: ll_inv_def)
  then have data: "map n_data (ll_nodes l) = xs" by (simp add: linked_def)
  have "node_Previous l (Some (?n - 1 - i)) = Inr (if Suc i < ?n then Some (?n - 1 - Suc i) else None)"
    if "i < ?n" for i
    using links linked_length[OF links] that
    by (auto simp: linked_def node_Previous_def node_at_def)
  then have "walk node_Previous ?n l (Some (?n - 1 - 0)) = Some (map (\<lambda>i. xs ! (?n - 1 - i)) [0..<?n])"
    using ne data node_Data_nth[OF data] by (intro walk_from) auto
  moreover have "map (\<lambda>i. xs ! (?n - 1 - i)) [0..<?n] = rev xs"
    by (intro nth_equalityI) (auto simp: rev_nth)
  moreover have "ll_tail l = Some (?n - 1)" using inv ne by (simp add: ll_inv_def)
  ultimately show ?thesis by simp
qed

text \<open>
  Appending any values to a new list never panics, and following \<open>Next\<close> from the head
  then yields the values in the order they were appended: all of them when the capacity is zero,
  the last \<open>capacity\<close> of them otherwise. \<open>Length\<close> is their number.
\<close>

theorem linked_list_keeps_last:
  "\<exists>l. foldM ll_Append xs (NewLinkedList cap) = Inr l \<and>
       ll_length l = (if cap = 0 then length xs else min cap (length xs)) \<and>
       walk node_Next (length xs) l (ll_head l) =
         Some (if cap = 0 then xs else keep_last cap xs)"
proof -
  have cap: "ll_capacity (NewLinkedList cap) = cap" by (simp add: NewLinkedList_def)
  obtain l where l: "foldM ll_Append xs (NewLinkedList cap) = Inr l" "ll_capacity l = cap"
    "ll_inv xs l"
    using ll_Append_all[OF NewLinkedList_inv[of cap], of xs] unfolding cap by auto
  then show ?thesis using walk_forward[OF l(3)] by (auto simp: ll_inv_def)
qed

text \<open>
  A node popped to make room is still linked from the list: unless the capacity is one,
  following \<open>Previous\<close> from the tail yields every value ever appended, so that a capacity
  bounds the length of the list and not the memory it keeps alive.
\<close>

theorem linked_list_retains_popped_nodes:
  assumes "cap \<noteq> 1"
  shows "\<exists>l. foldM ll_Append xs (NewLinkedList cap) = Inr l \<and>
             walk node_Previous (length xs) l (ll_tail l) = Some (rev xs)"
proof -
  have cap: "ll_capacity (NewLinkedList cap) = cap" by (simp add: NewLinkedList_def)
  obtain l where l: "foldM ll_Append xs (NewLinkedList cap) = Inr l" "ll_capacity l = cap"
    "ll_inv xs l"
    using ll_Append_all[OF NewLinkedList_inv[of cap], of xs] unfolding cap by auto
  then show ?thesis using walk_backward[OF l(3)] assms by auto
qed

theorem linked_list_retains_popped_nodes_witness:
  "\<exists>l. foldM ll_Append [1::nat, 2, 3, 4] (NewLinkedList 2) = Inr l \<and>
       walk node_Previous 4 l (ll_tail l) = Some [4, 3, 2, 1]"
  using linked_list_retains_popped_nodes[of 2 "[1::nat, 2, 3, 4]"]
  by (simp add: numeral_eq_Suc del: foldM.simps)

end
