(* ===== verification/Watcher_Mux.thy ===== *)
theory Watcher_Mux
  imports Prelude
begin

text \<open>
  \<open>internal/util/watchermux.go\<close>: the multiplexer that copies every dispatched value to the
  buffered channel of each watcher. A watcher is an object of a store, because the list that a
  dispatch works through holds pointers. A channel is the list of the values it buffers and a
  flag for closed. A receiver that is ready to receive counts as room in the buffer. The order
  in which a dispatch visits the watchers is that of a Go map; the choice of a \<open>select\<close> with
  several ready cases is the argument \<open>pick\<close>.
\<close>

section \<open>The model\<close>

record 'a watcher =
  w_ch :: "'a list"
  w_cap :: nat
  w_chClosed :: bool
  w_doneClosed :: bool
  w_filter :: "('a \<Rightarrow> bool) option"
  w_once :: bool

record 'a watcher_mux =
  wm_objs :: "'a watcher list"
  wm_watchers :: "(nat \<times> nat) list"
  wm_watcherIdCount :: nat
  wm_watcherChCapacity :: nat
  wm_doneClosed :: bool

definition NewWatcherMux :: "nat \<Rightarrow> 'a watcher_mux" where
  "NewWatcherMux channelBufferSize =
     \<lparr>wm_objs = [], wm_watchers = [], wm_watcherIdCount = 0,
      wm_watcherChCapacity = channelBufferSize, wm_doneClosed = False\<rparr>"

text \<open>\<open>Watch\<close> returns the address of the watcher and the identifier its cancel function holds.\<close>

definition Watch :: "('a \<Rightarrow> bool) option \<Rightarrow> 'a watcher_mux \<Rightarrow> (nat \<times> nat) \<times> 'a watcher_mux" where
  "Watch filt wm =
     (let w = \<lparr>w_ch = [], w_cap = wm_watcherChCapacity wm, w_chClosed = False,
               w_doneClosed = False, w_filter = filt, w_once = False\<rparr>;
          a = length (wm_objs wm);
          ident = wm_watcherIdCount wm
      in ((ident, a), wm\<lparr>wm_objs := wm_objs wm @ [w], wm_watcherIdCount := ident + 1,
                      wm_watchers := wm_watchers wm @ [(ident, a)]\<rparr>))"

definition close_channel_once :: "'a watcher \<Rightarrow> ('a watcher) go" where
  "close_channel_once w =
     (if w_once w then Inr w
      else if w_chClosed w then Inl CloseOfClosedChannel
      else Inr (w\<lparr>w_once := True, w_chClosed := True\<rparr>))"

definition cancel :: "nat \<times> nat \<Rightarrow> 'a watcher_mux \<Rightarrow> ('a watcher_mux) go" where
  "cancel h wm =
     (case slice_get (wm_objs wm) (snd h) of
        Inl p \<Rightarrow> Inl p
      | Inr w \<Rightarrow>
          if w_doneClosed w then Inl CloseOfClosedChannel
          else (case close_channel_once (w\<lparr>w_doneClosed := True\<rparr>) of
                  Inl p \<Rightarrow> Inl p
                | Inr w' \<Rightarrow> Inr (wm\<lparr>wm_objs := (wm_objs wm)[snd h := w'],
                               wm_watchers := filter (\<lambda>(i, _). i \<noteq> fst h) (wm_watchers wm)\<rparr>)))"

definition getWatcherList :: "nat map_order \<Rightarrow> 'a watcher_mux \<Rightarrow> nat list" where
  "getWatcherList ord wm = ord (map snd (wm_watchers wm))"

definition update_watcher :: "('a watcher \<Rightarrow> ('a watcher) go) \<Rightarrow> nat \<Rightarrow> 'a watcher_mux \<Rightarrow>
      ('a watcher_mux) go" where
  "update_watcher f a wm =
     (case slice_get (wm_objs wm) a of
        Inl p \<Rightarrow> Inl p
      | Inr w \<Rightarrow> (case f w of
                   Inl p \<Rightarrow> Inl p
                 | Inr w' \<Rightarrow> Inr (wm\<lparr>wm_objs := (wm_objs wm)[a := w']\<rparr>)))"

text \<open>The \<open>select\<close> of a dispatch: a send on a closed channel is ready, and panics.\<close>

definition select_send :: "bool \<Rightarrow> 'a \<Rightarrow> 'a watcher \<Rightarrow> ('a watcher) go" where
  "select_send pick v w =
     (let send_ready = (w_chClosed w \<or> length (w_ch w) < w_cap w)
      in if w_doneClosed w \<and> (pick \<or> \<not> send_ready) then Inr w
         else if w_chClosed w then Inl SendOnClosedChannel
         else if length (w_ch w) < w_cap w then Inr (w\<lparr>w_ch := w_ch w @ [v]\<rparr>)
         else Inr w)"

definition accepts :: "'a watcher \<Rightarrow> 'a \<Rightarrow> bool" where
  "accepts w v = (case w_filter w of None \<Rightarrow> True | Some f \<Rightarrow> f v)"

definition nonblocking_send :: "bool \<Rightarrow> 'a \<Rightarrow> 'a watcher \<Rightarrow> ('a watcher) go" where
  "nonblocking_send pick v w = (if \<not> accepts w v then Inr w else select_send pick v w)"

definition NonBlockingDispatchFunc :: "nat map_order \<Rightarrow> (nat \<Rightarrow> bool) \<Rightarrow> 'a \<Rightarrow>
      'a watcher_mux \<Rightarrow> ('a watcher_mux) go" where
  "NonBlockingDispatchFunc ord pick v wm =
     foldM (\<lambda>a. update_watcher (nonblocking_send (pick a) v) a) (getWatcherList ord wm) wm"

text \<open>
  \<open>dispatchOne\<close> waits until the timeout; \<open>drained\<close> is the number of values the receiver
  takes from the channel meanwhile.
\<close>

definition dispatchOne :: "bool \<Rightarrow> nat \<Rightarrow> 'a \<Rightarrow> 'a watcher \<Rightarrow> ('a watcher) go" where
  "dispatchOne pick drained v w =
     (if \<not> accepts w v then Inr w
      else select_send pick v (w\<lparr>w_ch := drop drained (w_ch w)\<rparr>))"

definition DispatchFuncWithTimeout :: "nat map_order \<Rightarrow> (nat \<Rightarrow> bool) \<Rightarrow> (nat \<Rightarrow> nat) \<Rightarrow> 'a \<Rightarrow>
      'a watcher_mux \<Rightarrow> ('a watcher_mux) go" where
  "DispatchFuncWithTimeout ord pick drained v wm =
     foldM (\<lambda>a. update_watcher (dispatchOne (pick a) (drained a) v) a) (getWatcherList ord wm) wm"

text \<open>With a worker pool the calls of \<open>dispatchOne\<close> are queued.\<close>

definition DispatchFuncWithTimeoutAndWorkerPool :: "nat map_order \<Rightarrow> 'a \<Rightarrow> 'a watcher_mux \<Rightarrow>
      (nat \<times> 'a) list \<Rightarrow> (nat \<times> 'a) list" where
  "DispatchFuncWithTimeoutAndWorkerPool ord v wm q =
     q @ map (\<lambda>a. (a, v)) (getWatcherList ord wm)"

definition run_dispatch_job :: "(nat \<Rightarrow> bool) \<Rightarrow> (nat \<Rightarrow> nat) \<Rightarrow> nat \<times> 'a \<Rightarrow> 'a watcher_mux \<Rightarrow>
      ('a watcher_mux) go" where
  "run_dispatch_job pick drained job =
     update_watcher (dispatchOne (pick (fst job)) (drained (fst job)) (snd job)) (fst job)"

definition wm_Close :: "nat map_order \<Rightarrow> 'a watcher_mux \<Rightarrow> ('a watcher_mux) go" where
  "wm_Close ord wm =
     (case foldM (update_watcher close_channel_once) (getWatcherList ord wm) wm of
        Inl p \<Rightarrow> Inl p
      | Inr wm' \<Rightarrow> if wm_doneClosed wm' then Inl CloseOfClosedChannel
                  else Inr (wm'\<lparr>wm_doneClosed := True\<rparr>))"

section \<open>Updating every registered watcher\<close>

text \<open>
  A multiplexer that is in use: the registered watchers are distinct objects of the store and
  their channels are open.
\<close>

definition wm_wf :: "'a watcher_mux \<Rightarrow> bool" where
  "wm_wf wm \<longleftrightarrow>
     wm_watcherIdCount wm = length (wm_objs wm) \<and>
     distinct (map snd (wm_watchers wm)) \<and>
     (\<forall>(i, a) \<in> set (wm_watchers wm). i = a \<and> a < length (wm_objs wm))"

definition wm_open :: "'a watcher_mux \<Rightarrow> bool" where
  "wm_open wm \<longleftrightarrow>
     wm_wf wm \<and>
     (\<forall>(i, a) \<in> set (wm_watchers wm).
        \<not> w_chClosed (wm_objs wm ! a) \<and> \<not> w_doneClosed (wm_objs wm ! a) \<and> \<not> w_once (wm_objs wm ! a))"

lemma registered_open:
  assumes "wm_open wm" and "a \<in> snd ` set (wm_watchers wm)"
  shows "a < length (wm_objs wm)" "\<not> w_chClosed (wm_objs wm ! a)" "\<not> w_doneClosed (wm_objs wm ! a)"
    "\<not> w_once (wm_objs wm ! a)"
  using assms by (auto simp: wm_open_def wm_wf_def)

lemma NewWatcherMux_open: "wm_open (NewWatcherMux n)"
  by (simp add: wm_open_def wm_wf_def NewWatcherMux_def)

lemma Watch_open: "wm_open wm \<Longrightarrow> wm_open (snd (Watch filt wm))"
  by (auto simp: wm_open_def wm_wf_def Watch_def Let_def nth_append split: prod.splits)

lemma wm_open_channel:
  assumes "wm_open wm"
  shows "wm_open (wm\<lparr>wm_objs := (wm_objs wm)[a := (wm_objs wm ! a)\<lparr>w_ch := vs\<rparr>]\<rparr>)"
proof -
  let ?xs = "(wm_objs wm)[a := (wm_objs wm ! a)\<lparr>w_ch := vs\<rparr>]"
  have "w_chClosed (?xs ! b) = w_chClosed (wm_objs wm ! b) \<and> w_doneClosed (?xs ! b) = w_doneClosed (wm_objs wm ! b) \<and>
      w_once (?xs ! b) = w_once (wm_objs wm ! b)" if "b < length (wm_objs wm)" for b
    using that by (cases "b = a") simp_all
  then show ?thesis using assms by (fastforce simp: wm_open_def wm_wf_def)
qed

lemma update_watcher_at:
  "a < length (wm_objs wm) \<Longrightarrow>
     update_watcher f a wm =
       (case f (wm_objs wm ! a) of
          Inl p \<Rightarrow> Inl p | Inr w \<Rightarrow> Inr (wm\<lparr>wm_objs := (wm_objs wm)[a := w]\<rparr>))"
  by (simp add: update_watcher_def slice_get_def)

lemma update_all:
  assumes "\<And>a. a \<in> set as \<Longrightarrow> a < length (wm_objs wm)" and "distinct as"
    and "\<And>a. a \<in> set as \<Longrightarrow> f a (wm_objs wm ! a) = Inr (g a (wm_objs wm ! a))"
  shows "\<exists>objs. foldM (\<lambda>a. update_watcher (f a) a) as wm = Inr (wm\<lparr>wm_objs := objs\<rparr>) \<and>
           length objs = length (wm_objs wm) \<and>
           (\<forall>i < length objs. objs ! i = (if i \<in> set as then g i (wm_objs wm ! i) else wm_objs wm ! i))"
  using assms
proof (induction as arbitrary: wm)
  case Nil
  show ?case by (rule exI[of _ "wm_objs wm"]) simp
next
  case (Cons a as)
  let ?wm = "wm\<lparr>wm_objs := (wm_objs wm)[a := g a (wm_objs wm ! a)]\<rparr>"
  have "a < length (wm_objs wm)" "f a (wm_objs wm ! a) = Inr (g a (wm_objs wm ! a))"
    using Cons.prems by simp_all
  then have "update_watcher (f a) a wm = Inr ?wm"
    by (simp add: update_watcher_at)
  moreover have "\<exists>objs. foldM (\<lambda>a. update_watcher (f a) a) as ?wm = Inr (?wm\<lparr>wm_objs := objs\<rparr>) \<and>
      length objs = length (wm_objs ?wm) \<and>
      (\<forall>i < length objs. objs ! i = (if i \<in> set as then g i (wm_objs ?wm ! i) else wm_objs ?wm ! i))"
    by (rule Cons.IH) (use Cons.prems in \<open>auto simp: nth_list_update\<close>)
  ultimately show ?case
    using Cons.prems by (auto simp: nth_list_update)
qed

lemma update_all_panics:
  assumes "a \<in> set as" and "\<And>b. b \<in> set as \<Longrightarrow> b < length (wm_objs wm)" and "distinct as"
    and "f a (wm_objs wm ! a) = Inl p"
    and "\<And>b. b \<in> set as \<Longrightarrow> f b (wm_objs wm ! b) = Inl p \<or> (\<exists>w. f b (wm_objs wm ! b) = Inr w)"
  shows "foldM (\<lambda>a. update_watcher (f a) a) as wm = Inl p"
  using assms
proof (induction as arbitrary: wm)
  case Nil
  then show ?case by simp
next
  case (Cons b as)
  have b: "b < length (wm_objs wm)" using Cons.prems by simp
  consider (panic) "f b (wm_objs wm ! b) = Inl p" | (ok) w where "f b (wm_objs wm ! b) = Inr w"
    using Cons.prems(5)[of b] by auto
  then show ?case
  proof cases
    case panic
    then show ?thesis using b by (simp add: update_watcher_at)
  next
    case ok
    let ?wm = "wm\<lparr>wm_objs := (wm_objs wm)[b := w]\<rparr>"
    have "a \<in> set as" using Cons.prems ok by auto
    moreover have "wm_objs ?wm ! c = wm_objs wm ! c" if "c \<in> set as" for c
      using Cons.prems(3) that by (cases "b = c") simp_all
    ultimately have "foldM (\<lambda>a. update_watcher (f a) a) as ?wm = Inl p"
      using Cons.prems by (intro Cons.IH) auto
    then show ?thesis using b ok by (simp add: update_watcher_at)
  qed
qed

lemma getWatcherList_wf:
  assumes "is_map_order ord" and "wm_wf wm"
  shows "set (getWatcherList ord wm) = snd ` set (wm_watchers wm)"
    and "distinct (getWatcherList ord wm)"
    and "a \<in> set (getWatcherList ord wm) \<Longrightarrow> a < length (wm_objs wm)"
  using assms map_order_set[OF assms(1)] map_order_distinct[OF assms(1)]
  by (auto simp: getWatcherList_def wm_wf_def)

section \<open>Dispatching\<close>

text \<open>What one dispatch does to the channel of an open watcher.\<close>

definition offer :: "'a \<Rightarrow> 'a watcher \<Rightarrow> 'a watcher" where
  "offer v w =
     (if accepts w v \<and> length (w_ch w) < w_cap w then w\<lparr>w_ch := w_ch w @ [v]\<rparr> else w)"

lemma nonblocking_send_open:
  "\<not> w_chClosed w \<Longrightarrow> \<not> w_doneClosed w \<Longrightarrow> nonblocking_send pick v w = Inr (offer v w)"
  by (simp add: nonblocking_send_def select_send_def offer_def Let_def)

lemma offer_frame [simp]:
  "w_chClosed (offer v w) = w_chClosed w" "w_doneClosed (offer v w) = w_doneClosed w"
  "w_once (offer v w) = w_once w" "w_cap (offer v w) = w_cap w" "w_filter (offer v w) = w_filter w"
  "accepts (offer v w) = accepts w"
  by (simp_all add: offer_def accepts_def fun_eq_iff)

lemma w_ch_offer:
  assumes "length (w_ch w) \<le> w_cap w"
  shows "w_ch (offer v w) = take (w_cap w) (w_ch w @ (if accepts w v then [v] else []))"
proof (cases "length (w_ch w) < w_cap w")
  case True
  then show ?thesis using assms by (simp add: offer_def)
next
  case False
  then have "length (w_ch w) = w_cap w" using assms by simp
  then show ?thesis by (simp add: offer_def)
qed

lemma offers:
  "length (w_ch w) \<le> w_cap w \<Longrightarrow>
     w_ch (fold offer vs w) = take (w_cap w) (w_ch w @ filter (accepts w) vs)"
proof (induction vs arbitrary: w)
  case Nil
  then show ?case by simp
next
  case (Cons v vs)
  have "length (w_ch (offer v w)) \<le> w_cap (offer v w)"
    using w_ch_offer[OF Cons.prems] by simp
  then have "w_ch (fold offer (v # vs) w) =
      take (w_cap w) (take (w_cap w) (w_ch w @ (if accepts w v then [v] else [])) @ filter (accepts w) vs)"
    using Cons.IH[of "offer v w"] w_ch_offer[OF Cons.prems, of v] by simp
  then show ?case by (cases "accepts w v") (simp_all only: take_take_append, simp_all)
qed

lemma dispatch_open:
  assumes ord: "is_map_order ord" and wm_open: "wm_open wm"
  shows "\<exists>objs. NonBlockingDispatchFunc ord pick v wm = Inr (wm\<lparr>wm_objs := objs\<rparr>) \<and>
           wm_open (wm\<lparr>wm_objs := objs\<rparr>) \<and> length objs = length (wm_objs wm) \<and>
           (\<forall>i < length objs. objs ! i =
              (if i \<in> snd ` set (wm_watchers wm) then offer v (wm_objs wm ! i) else wm_objs wm ! i))"
proof -
  have wf: "wm_wf wm" using wm_open by (simp add: wm_open_def)
  note gw = getWatcherList_wf[OF ord wf]
  have send: "nonblocking_send (pick a) v (wm_objs wm ! a) = Inr (offer v (wm_objs wm ! a))"
    if "a \<in> set (getWatcherList ord wm)" for a
    by (rule nonblocking_send_open) (use registered_open[OF wm_open] that gw(1) in auto)
  obtain objs where objs: "NonBlockingDispatchFunc ord pick v wm = Inr (wm\<lparr>wm_objs := objs\<rparr>)"
    "length objs = length (wm_objs wm)"
    "\<forall>i < length objs. objs ! i =
       (if i \<in> set (getWatcherList ord wm) then offer v (wm_objs wm ! i) else wm_objs wm ! i)"
    unfolding NonBlockingDispatchFunc_def
    using update_all[of "getWatcherList ord wm" wm "\<lambda>a. nonblocking_send (pick a) v" "\<lambda>_. offer v",
        OF gw(3,2) send] by blast
  have "objs ! a = offer v (wm_objs wm ! a)" if "(i, a) \<in> set (wm_watchers wm)" for i a
  proof -
    have "a \<in> snd ` set (wm_watchers wm)" using that by force
    then show ?thesis using registered_open(1)[OF wm_open, of a] objs(2,3) gw(1) by simp
  qed
  then have "wm_open (wm\<lparr>wm_objs := objs\<rparr>)"
    using wm_open objs(2) unfolding wm_open_def wm_wf_def by auto
  then show ?thesis using objs unfolding gw(1) by blast
qed

lemma dispatch_all_open:
  assumes ord: "is_map_order ord" and "wm_open wm"
  shows "\<exists>objs. foldM (NonBlockingDispatchFunc ord pick) vs wm = Inr (wm\<lparr>wm_objs := objs\<rparr>) \<and>
           length objs = length (wm_objs wm) \<and>
           (\<forall>i < length objs. objs ! i =
              (if i \<in> snd ` set (wm_watchers wm) then fold offer vs (wm_objs wm ! i) else wm_objs wm ! i))"
  using assms(2)
proof (induction vs arbitrary: wm)
  case Nil
  show ?case by (rule exI[of _ "wm_objs wm"]) simp
next
  case (Cons v vs)
  obtain objs where objs: "NonBlockingDispatchFunc ord pick v wm = Inr (wm\<lparr>wm_objs := objs\<rparr>)"
    "wm_open (wm\<lparr>wm_objs := objs\<rparr>)" "length objs = length (wm_objs wm)"
    "\<forall>i < length objs. objs ! i =
       (if i \<in> snd ` set (wm_watchers wm) then offer v (wm_objs wm ! i) else wm_objs wm ! i)"
    using dispatch_open[OF ord Cons.prems] by blast
  obtain objs' where "foldM (NonBlockingDispatchFunc ord pick) vs (wm\<lparr>wm_objs := objs\<rparr>) =
      Inr (wm\<lparr>wm_objs := objs'\<rparr>)" "length objs' = length objs"
    "\<forall>i < length objs'. objs' ! i =
       (if i \<in> snd ` set (wm_watchers wm) then fold offer vs (objs ! i) else objs ! i)"
    using Cons.IH[OF objs(2)] by auto
  then show ?case using objs by (intro exI[of _ objs']) auto
qed

text \<open>
  C27. Values dispatched without blocking to a multiplexer whose watchers have not been closed:
  no call panics, each watcher receives exactly the values its filter accepts, in the order of
  the dispatches, up to the capacity of its channel, and what does not fit is dropped. Neither
  the order of the map iteration nor the other watchers matter.
\<close>

theorem dispatch_delivers:
  assumes "is_map_order ord" and "wm_open wm" and "(i, a) \<in> set (wm_watchers wm)"
    and "length (w_ch (wm_objs wm ! a)) \<le> w_cap (wm_objs wm ! a)"
  shows "\<exists>wm'. foldM (NonBlockingDispatchFunc ord pick) vs wm = Inr wm' \<and>
           w_ch (wm_objs wm' ! a) =
             take (w_cap (wm_objs wm ! a))
               (w_ch (wm_objs wm ! a) @ filter (accepts (wm_objs wm ! a)) vs)"
proof -
  obtain objs where "foldM (NonBlockingDispatchFunc ord pick) vs wm = Inr (wm\<lparr>wm_objs := objs\<rparr>)"
    "length objs = length (wm_objs wm)" "\<forall>i < length objs. objs ! i =
       (if i \<in> snd ` set (wm_watchers wm) then fold offer vs (wm_objs wm ! i) else wm_objs wm ! i)"
    using dispatch_all_open[OF assms(1,2)] by blast
  moreover have "a < length (wm_objs wm)" "a \<in> snd ` set (wm_watchers wm)"
    using assms(2,3) by (force simp: wm_open_def wm_wf_def)+
  ultimately show ?thesis using offers[OF assms(4), of vs] by auto
qed

abbreviation two_watchers :: "nat watcher_mux" where
  "two_watchers \<equiv> snd (Watch (Some even) (snd (Watch None (NewWatcherMux 2))))"

lemma two_watchers_open: "wm_open two_watchers"
  by (rule Watch_open[OF Watch_open[OF NewWatcherMux_open]])

theorem dispatch_delivers_witness:
  "\<exists>wm'. foldM (NonBlockingDispatchFunc rev (\<lambda>_. False)) [1, 2, 3, 4, 6] two_watchers = Inr wm' \<and>
         w_ch (wm_objs wm' ! 1) = [2, 4]"
  using dispatch_delivers[of rev two_watchers 1 1 "\<lambda>_. False" "[1, 2, 3, 4, 6]",
      OF map_order_rev two_watchers_open]
  by (simp add: Watch_def NewWatcherMux_def accepts_def Let_def del: foldM.simps)

section \<open>Closing\<close>

lemma wm_Close_open:
  assumes ord: "is_map_order ord" and wm_open: "wm_open wm" and "\<not> wm_doneClosed wm"
  shows "\<exists>objs. wm_Close ord wm = Inr (wm\<lparr>wm_objs := objs, wm_doneClosed := True\<rparr>) \<and>
           length objs = length (wm_objs wm) \<and>
           (\<forall>i < length objs. objs ! i =
              (if i \<in> snd ` set (wm_watchers wm)
               then (wm_objs wm ! i)\<lparr>w_once := True, w_chClosed := True\<rparr> else wm_objs wm ! i))"
proof -
  have wf: "wm_wf wm" using wm_open by (simp add: wm_open_def)
  note gw = getWatcherList_wf[OF ord wf]
  have step: "close_channel_once (wm_objs wm ! a) = Inr ((wm_objs wm ! a)\<lparr>w_once := True, w_chClosed := True\<rparr>)"
    if "a \<in> set (getWatcherList ord wm)" for a
    using that gw(1) registered_open[OF wm_open] by (simp add: close_channel_once_def)
  obtain objs where objs: "foldM (update_watcher close_channel_once) (getWatcherList ord wm) wm =
      Inr (wm\<lparr>wm_objs := objs\<rparr>)" "length objs = length (wm_objs wm)"
    "\<forall>i < length objs. objs ! i = (if i \<in> set (getWatcherList ord wm)
       then (wm_objs wm ! i)\<lparr>w_once := True, w_chClosed := True\<rparr> else wm_objs wm ! i)"
    using update_all[of "getWatcherList ord wm" wm "\<lambda>_. close_channel_once"
        "\<lambda>_ w. w\<lparr>w_once := True, w_chClosed := True\<rparr>", OF gw(3,2) step] by blast
  then show ?thesis
    using assms(3) unfolding gw(1) by (intro exI[of _ objs]) (simp add: wm_Close_def)
qed

text \<open>
  \<open>Close\<close> leaves the watchers registered with a closed channel: the next dispatch of a
  value that one of them accepts panics, whatever the order of the map, and so does a second
  \<open>Close\<close>.
\<close>

theorem dispatch_after_close_panics:
  assumes "is_map_order ord" and "is_map_order ord'" and "wm_open wm" and "\<not> wm_doneClosed wm"
    and "(i, a) \<in> set (wm_watchers wm)" and "accepts (wm_objs wm ! a) v"
  shows "\<exists>wm'. wm_Close ord wm = Inr wm' \<and>
           NonBlockingDispatchFunc ord' pick v wm' = Inl SendOnClosedChannel \<and>
           wm_Close ord' wm' = Inl CloseOfClosedChannel"
proof -
  obtain objs where objs: "wm_Close ord wm = Inr (wm\<lparr>wm_objs := objs, wm_doneClosed := True\<rparr>)"
    "length objs = length (wm_objs wm)" "\<forall>i < length objs. objs ! i =
       (if i \<in> snd ` set (wm_watchers wm)
        then (wm_objs wm ! i)\<lparr>w_once := True, w_chClosed := True\<rparr> else wm_objs wm ! i)"
    using wm_Close_open[OF assms(1,3,4)] by blast
  let ?wm = "wm\<lparr>wm_objs := objs, wm_doneClosed := True\<rparr>"
  have wf: "wm_wf ?wm" using assms(3) objs(2) by (simp add: wm_open_def wm_wf_def)
  note gw = getWatcherList_wf[OF assms(2) wf]
  have live: "w_chClosed (objs ! b)" "\<not> w_doneClosed (objs ! b)" "w_once (objs ! b)"
    "accepts (objs ! b) = accepts (wm_objs wm ! b)"
    if "b \<in> set (getWatcherList ord' ?wm)" for b
    using that gw(1) objs(2,3) registered_open[OF assms(3)]
    by (simp_all add: accepts_def fun_eq_iff)
  have "NonBlockingDispatchFunc ord' pick v ?wm = Inl SendOnClosedChannel"
    unfolding NonBlockingDispatchFunc_def
  proof (rule update_all_panics)
    show "a \<in> set (getWatcherList ord' ?wm)" using assms(5) gw(1) by force
    then show "nonblocking_send (pick a) v (wm_objs ?wm ! a) = Inl SendOnClosedChannel"
      using live[of a] assms(6) by (simp add: nonblocking_send_def select_send_def)
  qed (use gw live in \<open>auto simp: nonblocking_send_def select_send_def\<close>)
  moreover have "wm_Close ord' ?wm = Inl CloseOfClosedChannel"
  proof -
    have "close_channel_once (objs ! b) = Inr (objs ! b)" if "b \<in> set (getWatcherList ord' ?wm)" for b
      using live(3)[OF that] by (simp add: close_channel_once_def)
    then obtain objs' where "foldM (update_watcher close_channel_once) (getWatcherList ord' ?wm) ?wm =
        Inr (?wm\<lparr>wm_objs := objs'\<rparr>)"
      using update_all[of "getWatcherList ord' ?wm" ?wm "\<lambda>_. close_channel_once" "\<lambda>_ w. w"] gw(2,3)
      by auto
    then show ?thesis by (simp add: wm_Close_def)
  qed
  ultimately show ?thesis using objs(1) by blast
qed

theorem dispatch_after_close_panics_witness:
  "\<exists>wm'. wm_Close rev two_watchers = Inr wm' \<and>
     NonBlockingDispatchFunc (\<lambda>ks. ks) (\<lambda>_. True) 5 wm' = Inl SendOnClosedChannel \<and>
     wm_Close (\<lambda>ks. ks) wm' = Inl CloseOfClosedChannel"
  by (rule dispatch_after_close_panics[of _ _ _ 0 0])
    (simp_all add: Watch_open NewWatcherMux_open,
     simp_all add: Watch_def NewWatcherMux_def accepts_def Let_def)

lemma cancel_open:
  assumes "wm_open wm" and "(i, a) \<in> set (wm_watchers wm)"
  shows "\<exists>wm'. cancel (i, a) wm = Inr wm' \<and> wm_open wm' \<and> wm_doneClosed wm' = wm_doneClosed wm \<and>
           w_chClosed (wm_objs wm' ! a) \<and> cancel (i, a) wm' = Inl CloseOfClosedChannel \<and>
           a < length (wm_objs wm') \<and> a \<notin> snd ` set (wm_watchers wm')"
proof -
  let ?w = "(wm_objs wm ! a)\<lparr>w_doneClosed := True, w_once := True, w_chClosed := True\<rparr>"
  let ?wm = "wm\<lparr>wm_objs := (wm_objs wm)[a := ?w],
      wm_watchers := filter (\<lambda>(j, _). j \<noteq> i) (wm_watchers wm)\<rparr>"
  have a: "a < length (wm_objs wm)" "i = a" "\<not> w_chClosed (wm_objs wm ! a)"
    "\<not> w_doneClosed (wm_objs wm ! a)" "\<not> w_once (wm_objs wm ! a)"
    using assms by (auto simp: wm_open_def wm_wf_def)
  have c: "cancel (i, a) wm = Inr ?wm"
    using a by (simp add: cancel_def slice_get_def close_channel_once_def)
  have "distinct (map snd (filter (\<lambda>(j, _). j \<noteq> i) (wm_watchers wm)))"
    using assms(1) by (simp add: wm_open_def wm_wf_def distinct_map_filter)
  then have op: "wm_open ?wm"
    using assms(1) a by (auto simp: wm_open_def wm_wf_def nth_list_update)
  moreover have "a \<notin> snd ` set (wm_watchers ?wm)"
    using assms(1) a(2) by (auto simp: wm_open_def wm_wf_def)
  moreover have "cancel (i, a) ?wm = Inl CloseOfClosedChannel"
    using a by (simp add: cancel_def slice_get_def)
  ultimately show ?thesis using c a(1) by auto
qed

text \<open>
  Calling the cancel function of a registered watcher closes its channel and takes it out
  of the multiplexer, so that later dispatches leave its channel alone and do not panic; calling
  the same cancel function a second time panics.
\<close>

theorem cancel_unregisters:
  assumes "is_map_order ord" and "wm_open wm" and "(i, a) \<in> set (wm_watchers wm)"
  shows "\<exists>wm'. cancel (i, a) wm = Inr wm' \<and> wm_open wm' \<and> w_chClosed (wm_objs wm' ! a) \<and>
           cancel (i, a) wm' = Inl CloseOfClosedChannel \<and>
           (\<exists>wm''. foldM (NonBlockingDispatchFunc ord pick) vs wm' = Inr wm'' \<and>
                   wm_objs wm'' ! a = wm_objs wm' ! a)"
proof -
  obtain wm' where wm': "cancel (i, a) wm = Inr wm'" "wm_open wm'" "w_chClosed (wm_objs wm' ! a)"
    "cancel (i, a) wm' = Inl CloseOfClosedChannel" "a < length (wm_objs wm')"
    "a \<notin> snd ` set (wm_watchers wm')"
    using cancel_open[OF assms(2,3)] by blast
  obtain objs where "foldM (NonBlockingDispatchFunc ord pick) vs wm' = Inr (wm'\<lparr>wm_objs := objs\<rparr>)"
    "length objs = length (wm_objs wm')" "\<forall>i < length objs. objs ! i =
       (if i \<in> snd ` set (wm_watchers wm') then fold offer vs (wm_objs wm' ! i) else wm_objs wm' ! i)"
    using dispatch_all_open[OF assms(1) wm'(2)] by blast
  then show ?thesis using wm' by auto
qed

theorem cancel_unregisters_witness:
  "\<exists>wm'. cancel (0, 0) two_watchers = Inr wm' \<and> wm_open wm' \<and> w_chClosed (wm_objs wm' ! 0) \<and>
     cancel (0, 0) wm' = Inl CloseOfClosedChannel \<and>
     (\<exists>wm''. foldM (NonBlockingDispatchFunc rev (\<lambda>_. True)) [1, 2] wm' = Inr wm'' \<and>
             wm_objs wm'' ! 0 = wm_objs wm' ! 0)"
  by (rule cancel_unregisters)
    (simp_all add: Watch_open NewWatcherMux_open, simp add: Watch_def NewWatcherMux_def Let_def)

end
