(* ===== verification/Wal.thy ===== *)
theory Wal
  imports Lifecycle Ring_Buffer Linked_List Watcher_Mux
begin

text \<open>
  \<open>internal/types/wal.go\<close> and \<open>internal/adapter/wal/wal.go\<close>: the write-ahead log of one
  node. \<open>Propose\<close> writes to a ring buffer; a reader goroutine takes the entries out one by
  one and hands each to the event loop, which appends it to the log and dispatches its data to
  the watchers. The goroutines are steps on the record. The encoder, the hash and the clock that
  \<open>types/wal.go\<close> calls are arguments.
\<close>

section \<open>Entries\<close>

datatype WALEntryType = DataWALEntryType | StateWALEntryType

record 'a wal_entry =
  we_Key :: string
  we_Data :: 'a
  we_Verb :: StateMachineCommand
  we_Timestamp :: int
  we_WALName :: string
  we_ProposalHash :: "u8 list"
  we_PreviousHash :: "u8 list"
  we_Hash :: "u8 list"

record 'a suggestion =
  sg_Key :: string
  sg_Data :: 'a
  sg_Verb :: StateMachineCommand

definition zero_hash :: "u8 list" where
  "zero_hash = replicate 32 0"

definition NewProposal :: "string \<Rightarrow> 'a \<Rightarrow> StateMachineCommand \<Rightarrow> 'a suggestion" where
  "NewProposal key data verb = \<lparr>sg_Key = key, sg_Data = data, sg_Verb = verb\<rparr>"

definition TransformProposalIntoWALEntry ::
    "('a wal_entry \<Rightarrow> go_error + u8 list) \<Rightarrow> (u8 list \<Rightarrow> u8 list) \<Rightarrow> int \<Rightarrow> string \<Rightarrow> u8 list \<Rightarrow>
     'a suggestion \<Rightarrow> StateMachineCommand \<Rightarrow> go_error + 'a wal_entry" where
  "TransformProposalIntoWALEntry marshal sha256 now walName previousHash proposal verb =
     (let out = \<lparr>we_Key = sg_Key proposal, we_Data = sg_Data proposal, we_Verb = verb,
                 we_Timestamp = now, we_WALName = walName, we_ProposalHash = zero_hash,
                 we_PreviousHash = previousHash, we_Hash = zero_hash\<rparr>
      in (case marshal out of
            Inl e \<Rightarrow> Inl e
          | Inr buf \<Rightarrow> Inr (out\<lparr>we_Hash := sha256 buf\<rparr>)))"

definition RawWALEntryInto :: "(u8 list \<Rightarrow> go_error + 'a) \<Rightarrow> (u8 list) wal_entry \<Rightarrow>
      go_error + 'a wal_entry" where
  "RawWALEntryInto decode raw =
     (case decode (we_Data raw) of
        Inl e \<Rightarrow> Inl e
      | Inr d \<Rightarrow>
          Inr \<lparr>we_Key = we_Key raw, we_Data = d, we_Verb = we_Verb raw,
               we_Timestamp = we_Timestamp raw, we_WALName = we_WALName raw,
               we_ProposalHash = we_ProposalHash raw, we_PreviousHash = we_PreviousHash raw,
               we_Hash = we_Hash raw\<rparr>)"

section \<open>The log of a node\<close>

text \<open>
  \<open>wal_inflight\<close> is the entry the reader goroutine holds between \<open>Next\<close> and its send to
  the event loop.
\<close>

record 'a wal =
  wal_name :: string
  wal_linkedList :: "'a wal_entry linked_list"
  wal_proposalBuffer :: "'a wal_entry ring_buffer"
  wal_inflight :: "'a wal_entry option"
  wal_watcherMux :: "('a list) watcher_mux"
  wal_lc :: lifecycle

definition proposingRingBufferSize :: nat where
  "proposingRingBufferSize = 32"

definition wal_New :: "string \<Rightarrow> nat \<Rightarrow> ('a list) watcher_mux \<Rightarrow> 'a wal" where
  "wal_New name capacity watcherMux =
     \<lparr>wal_name = name, wal_linkedList = NewLinkedList capacity,
      wal_proposalBuffer = NewRingBuffer proposingRingBufferSize, wal_inflight = None,
      wal_watcherMux = watcherMux, wal_lc = lc_new\<rparr>"

definition wal_Propose :: "'a wal_entry \<Rightarrow> 'a wal \<Rightarrow> (err \<times> 'a wal) go" where
  "wal_Propose proposal w =
     (case rb_Write (proposal\<lparr>we_WALName := wal_name w\<rparr>) (wal_proposalBuffer w) of
        Inl p \<Rightarrow> Inl p
      | Inr rb \<Rightarrow> Inr (None, w\<lparr>wal_proposalBuffer := rb\<rparr>))"

definition wal_Watch :: "'a wal \<Rightarrow> (nat \<times> nat) \<times> 'a wal" where
  "wal_Watch w = (let (h, wm) = Watch None (wal_watcherMux w) in (h, w\<lparr>wal_watcherMux := wm\<rparr>))"

definition wal_Run :: "'a wal \<Rightarrow> (err \<times> 'a wal) comp" where
  "wal_Run w = Some (Inr
     (if lc_running (wal_lc w) then (Some ErrAlreadyRunning, w)
      else if lc_closed (wal_lc w) then (Some ErrCannotRunClosedRunnable, w)
      else (None, w\<lparr>wal_lc := (wal_lc w)\<lparr>lc_running := True\<rparr>\<rparr>)))"

text \<open>The two goroutines of \<open>eventLoop\<close>. \<open>None\<close> is a goroutine that waits.\<close>

definition wal_read :: "'a wal \<Rightarrow> ('a wal) comp" where
  "wal_read w =
     (if wal_inflight w \<noteq> None then None
      else (case rb_Next (wal_proposalBuffer w) of
              None \<Rightarrow> None
            | Some (Inl p) \<Rightarrow> Some (Inl p)
            | Some (Inr (e, rb)) \<Rightarrow>
                Some (Inr (w\<lparr>wal_proposalBuffer := rb, wal_inflight := Some e\<rparr>))))"

definition wal_accept :: "('a list \<Rightarrow> ('a list) watcher_mux \<Rightarrow> (('a list) watcher_mux) go) \<Rightarrow>
      'a wal \<Rightarrow> ('a wal) comp" where
  "wal_accept dispatch w =
     (case wal_inflight w of
        None \<Rightarrow> None
      | Some proposal \<Rightarrow>
          Some (case ll_Append proposal (wal_linkedList w) of
                  Inl p \<Rightarrow> Inl p
                | Inr l \<Rightarrow>
                    (case dispatch [we_Data proposal] (wal_watcherMux w) of
                       Inl p \<Rightarrow> Inl p
                     | Inr wm \<Rightarrow> Inr (w\<lparr>wal_linkedList := l, wal_watcherMux := wm,
                                      wal_inflight := None\<rparr>))))"

definition wal_terminate :: "nat map_order \<Rightarrow> 'a wal \<Rightarrow> ('a wal) go" where
  "wal_terminate ord w =
     (case wm_Close ord (wal_watcherMux w) of
        Inl p \<Rightarrow> Inl p
      | Inr wm \<Rightarrow>
          if lc_done (wal_lc w) then Inl CloseOfClosedChannel
          else Inr (w\<lparr>wal_watcherMux := wm, wal_lc := (wal_lc w)\<lparr>lc_done := True\<rparr>\<rparr>))"

text \<open>
  \<open>Close\<close> signals the loop and waits for it or for the timeout; \<open>graceful\<close> says which comes
  first.
\<close>

definition wal_Close :: "nat map_order \<Rightarrow> bool \<Rightarrow> 'a wal \<Rightarrow> (err \<times> 'a wal) comp" where
  "wal_Close ord graceful w = Some
     (if \<not> lc_running (wal_lc w) then Inr (Some ErrRunnableMustBeRunningToBeClosed, w)
      else if lc_closed (wal_lc w) then Inr (Some ErrAlreadyClosed, w)
      else if lc_terminate (wal_lc w) then Inl CloseOfClosedChannel
      else
        let w = w\<lparr>wal_lc := (wal_lc w)\<lparr>lc_terminate := True\<rparr>\<rparr>
        in (case (if graceful then wal_terminate ord w else Inr w) of
              Inl p \<Rightarrow> Inl p
            | Inr w' \<Rightarrow>
                Inr (None, w'\<lparr>wal_lc := (wal_lc w')\<lparr>lc_running := False, lc_closed := True\<rparr>\<rparr>)))"

section \<open>The life cycle\<close>

definition wal_wf :: "'a wal \<Rightarrow> bool" where
  "wal_wf w \<longleftrightarrow>
     lc_wf (wal_lc w) \<and>
     (\<not> lc_closed (wal_lc w) \<longrightarrow>
        wm_open (wal_watcherMux w) \<and> \<not> wm_doneClosed (wal_watcherMux w) \<and> \<not> lc_done (wal_lc w))"

lemma wal_New_wf: "wm_open wm \<Longrightarrow> \<not> wm_doneClosed wm \<Longrightarrow> wal_wf (wal_New name cap wm)"
  by (simp add: wal_wf_def wal_New_def lc_new_def lc_wf_def)

lemma wal_Close_running:
  assumes "is_map_order ord" and "wal_wf w" and "lc_running (wal_lc w)"
  shows "\<exists>w'. wal_Close ord graceful w = Some (Inr (None, w')) \<and> wal_wf w' \<and> lc_closed (wal_lc w')"
proof -
  have lc: "\<not> lc_closed (wal_lc w)" "\<not> lc_terminate (wal_lc w)" "\<not> lc_done (wal_lc w)"
    and mux: "wm_open (wal_watcherMux w)" "\<not> wm_doneClosed (wal_watcherMux w)"
    using assms(2,3) by (auto simp: wal_wf_def lc_wf_def)
  obtain wm where "wm_Close ord (wal_watcherMux w) = Inr wm"
    using wm_Close_open[OF assms(1) mux] by blast
  then show ?thesis
    using assms(3) lc by (auto simp: wal_Close_def wal_terminate_def wal_wf_def lc_wf_def Let_def)
qed

interpretation wal_life: runnable wal_Run "wal_Close ord graceful"
  "\<lambda>w. lc_running (wal_lc w)" "\<lambda>w. lc_closed (wal_lc w)" "\<lambda>w. is_map_order ord \<and> wal_wf w"
  for ord graceful
proof
  fix w :: "'a wal"
  assume wf: "is_map_order ord \<and> wal_wf w"
  show "\<not> (lc_running (wal_lc w) \<and> lc_closed (wal_lc w))"
    using wf by (simp add: wal_wf_def lc_wf_def)
  show "lc_running (wal_lc w) \<Longrightarrow> wal_Run w = Some (Inr (Some ErrAlreadyRunning, w))"
    by (simp add: wal_Run_def)
  show "lc_closed (wal_lc w) \<Longrightarrow> wal_Run w = Some (Inr (Some ErrCannotRunClosedRunnable, w))"
    using wf by (auto simp: wal_Run_def wal_wf_def lc_wf_def)
  show "\<not> lc_running (wal_lc w) \<Longrightarrow> \<not> lc_closed (wal_lc w) \<Longrightarrow>
      (\<exists>s'. wal_Run w = Some (Inr (None, s')) \<and> (is_map_order ord \<and> wal_wf s') \<and> lc_running (wal_lc s')) \<or>
      (\<exists>e. wal_Run w = Some (Inr (Some e, w)))"
    using wf by (auto simp: wal_Run_def wal_wf_def lc_wf_def)
  show "lc_running (wal_lc w) \<Longrightarrow>
      \<exists>s'. wal_Close ord graceful w = Some (Inr (None, s')) \<and> (is_map_order ord \<and> wal_wf s') \<and>
           lc_closed (wal_lc s')"
    using wal_Close_running wf by blast
  show "\<not> lc_running (wal_lc w) \<Longrightarrow> \<exists>e. wal_Close ord graceful w = Some (Inr (Some e, w))"
    by (simp add: wal_Close_def)
qed

text \<open>
  However a write-ahead log is started and closed, by any sequence of calls to \<open>Run\<close> and
  \<open>Close\<close>: every call returns, none panics, at most one \<open>Run\<close> succeeds and at most as many
  \<open>Close\<close> as \<open>Run\<close>, whether or not the event loop stops within the timeout.
\<close>

theorem wal_lifecycle:
  assumes "is_map_order ord" and "wm_open wm" and "\<not> wm_doneClosed wm"
  shows "\<exists>es w. make_calls wal_Run (wal_Close ord graceful) cs (wal_New name cap wm) = Some (Inr (es, w)) \<and>
           length es = length cs \<and> succeeded CallRun cs es \<le> 1 \<and>
           succeeded CallClose cs es \<le> succeeded CallRun cs es"
proof -
  have "is_map_order ord \<and> wal_wf (wal_New name cap wm)" using assms wal_New_wf by blast
  moreover have "\<not> lc_running (wal_lc (wal_New name cap wm))" "\<not> lc_closed (wal_lc (wal_New name cap wm))"
    by (simp_all add: wal_New_def)
  ultimately show ?thesis using wal_life.calls_new by blast
qed

theorem wal_lifecycle_witness:
  "\<exists>es w. make_calls wal_Run (wal_Close rev True) [CallRun, CallClose, CallClose]
        (wal_New ''w'' 4 (NewWatcherMux 10 :: (nat list) watcher_mux)) = Some (Inr (es, w)) \<and>
      length es = 3 \<and> succeeded CallRun [CallRun, CallClose, CallClose] es \<le> 1 \<and>
      succeeded CallClose [CallRun, CallClose, CallClose] es \<le>
        succeeded CallRun [CallRun, CallClose, CallClose] es"
  using wal_lifecycle[of rev "NewWatcherMux 10 :: (nat list) watcher_mux" True
      "[CallRun, CallClose, CallClose]" "''w''" 4, OF map_order_rev NewWatcherMux_open]
  by (simp add: NewWatcherMux_def numeral_eq_Suc del: make_calls.simps)

section \<open>From proposals to the log\<close>

text \<open>A round of the two goroutines.\<close>

definition wal_round :: "('a list \<Rightarrow> ('a list) watcher_mux \<Rightarrow> (('a list) watcher_mux) go) \<Rightarrow> 'a wal \<Rightarrow>
      ('a wal) comp" where
  "wal_round dispatch w =
     (case wal_read w of
        None \<Rightarrow> None
      | Some (Inl p) \<Rightarrow> Some (Inl p)
      | Some (Inr w') \<Rightarrow> wal_accept dispatch w')"

definition wal_ready :: "'a wal_entry list \<Rightarrow> 'a wal \<Rightarrow> bool" where
  "wal_ready logged w \<longleftrightarrow>
     rb_inv (wal_proposalBuffer w) \<and> ll_inv logged (wal_linkedList w) \<and> wal_inflight w = None \<and>
     wm_open (wal_watcherMux w)"

lemma wal_New_ready: "wm_open wm \<Longrightarrow> wal_ready [] (wal_New name cap wm)"
  by (simp add: wal_ready_def wal_New_def NewRingBuffer_inv NewLinkedList_inv proposingRingBufferSize_def)

lemma wal_Propose_all:
  assumes "rb_inv (wal_proposalBuffer w)"
  shows "\<exists>rb. foldM (\<lambda>e w. case wal_Propose e w of Inl p \<Rightarrow> Inl p | Inr (_, w') \<Rightarrow> Inr w') es w =
             Inr (w\<lparr>wal_proposalBuffer := rb\<rparr>) \<and> rb_inv rb \<and>
           rb_items rb = keep_last (rb_size (wal_proposalBuffer w))
             (rb_items (wal_proposalBuffer w) @ map (\<lambda>e. e\<lparr>we_WALName := wal_name w\<rparr>) es)"
proof -
  have "foldM (\<lambda>e w. case wal_Propose e w of Inl p \<Rightarrow> Inl p | Inr (_, w') \<Rightarrow> Inr w') es w =
     (case foldM rb_Write (map (\<lambda>e. e\<lparr>we_WALName := wal_name w\<rparr>) es) (wal_proposalBuffer w) of
        Inl p \<Rightarrow> Inl p | Inr rb \<Rightarrow> Inr (w\<lparr>wal_proposalBuffer := rb\<rparr>))" for w :: "'a wal"
    by (induction es arbitrary: w) (simp_all add: wal_Propose_def split: sum.splits)
  then show ?thesis
    using rbq.enq_all[OF assms, of "map (\<lambda>e. e\<lparr>we_WALName := wal_name w\<rparr>) es"] by auto
qed

lemma wal_round_step:
  assumes ord: "is_map_order ord" and ready: "wal_ready logged w"
    and items: "rb_items (wal_proposalBuffer w) = e # es"
  shows "\<exists>w'. wal_round (NonBlockingDispatchFunc ord pick) w = Some (Inr w') \<and>
           wal_ready (logged @ [e]) w' \<and> rb_items (wal_proposalBuffer w') = es \<and>
           ll_capacity (wal_linkedList w') = ll_capacity (wal_linkedList w) \<and>
           NonBlockingDispatchFunc ord pick [we_Data e] (wal_watcherMux w) = Inr (wal_watcherMux w')"
proof -
  obtain rb where rb: "rb_Next (wal_proposalBuffer w) = Some (Inr (e, rb))" "rb_inv rb" "rb_items rb = es"
    using rbq.deq_spec[OF _ items] ready by (auto simp: wal_ready_def)
  obtain l where l: "ll_Append e (wal_linkedList w) = Inr l" "ll_capacity l = ll_capacity (wal_linkedList w)"
    "ll_inv (logged @ [e]) l"
    using ll_Append_inv[of logged "wal_linkedList w" e] ready by (auto simp: wal_ready_def)
  obtain objs where wm: "NonBlockingDispatchFunc ord pick [we_Data e] (wal_watcherMux w) =
      Inr ((wal_watcherMux w)\<lparr>wm_objs := objs\<rparr>)" "wm_open ((wal_watcherMux w)\<lparr>wm_objs := objs\<rparr>)"
    using dispatch_open[OF ord, of "wal_watcherMux w" pick "[we_Data e]"] ready
    by (auto simp: wal_ready_def)
  show ?thesis
    using rb l wm ready
    by (simp add: wal_round_def wal_read_def wal_accept_def wal_ready_def)
qed

lemma wal_rounds:
  assumes ord: "is_map_order ord" and "wal_ready logged w" and "rb_items (wal_proposalBuffer w) = es"
  shows "\<exists>w'. foldD (\<lambda>_. wal_round (NonBlockingDispatchFunc ord pick)) es w = Some (Inr w') \<and>
           wal_ready (logged @ es) w' \<and> ll_capacity (wal_linkedList w') = ll_capacity (wal_linkedList w) \<and>
           foldM (NonBlockingDispatchFunc ord pick) (map (\<lambda>e. [we_Data e]) es) (wal_watcherMux w) =
             Inr (wal_watcherMux w')"
  using assms(2,3)
proof (induction es arbitrary: logged w)
  case Nil
  then show ?case by simp
next
  case (Cons e es)
  obtain w1 where w1: "wal_round (NonBlockingDispatchFunc ord pick) w = Some (Inr w1)"
    "wal_ready (logged @ [e]) w1" "rb_items (wal_proposalBuffer w1) = es"
    "ll_capacity (wal_linkedList w1) = ll_capacity (wal_linkedList w)"
    "NonBlockingDispatchFunc ord pick [we_Data e] (wal_watcherMux w) = Inr (wal_watcherMux w1)"
    using wal_round_step[OF ord Cons.prems] by blast
  then show ?case using Cons.IH[OF w1(2,3)] by auto
qed

text \<open>
  C26. Entries proposed to a new log before its event loop reads any: the loop then logs the last
  32 of them, in the order of the proposals and each marked with the name of the log, keeps the
  last \<open>capacity\<close> of these in its list (all when the capacity is zero), and ends with nothing
  in flight. No step panics or waits.
\<close>

theorem wal_logs_proposals:
  assumes "is_map_order ord" and "wm_open wm"
  shows "\<exists>w1 w2. foldM (\<lambda>e w. case wal_Propose e w of Inl p \<Rightarrow> Inl p | Inr (_, w') \<Rightarrow> Inr w') es
                   (wal_New name cap wm) = Inr w1 \<and>
           foldD (\<lambda>_. wal_round (NonBlockingDispatchFunc ord pick)) [0..<min 32 (length es)] w1 = Some (Inr w2) \<and>
           wal_inflight w2 = None \<and>
           (let named = keep_last 32 (map (\<lambda>e. e\<lparr>we_WALName := name\<rparr>) es)
            in walk node_Next (length named) (wal_linkedList w2) (ll_head (wal_linkedList w2)) =
                 Some (if cap = 0 then named else keep_last cap named))"
proof -
  let ?w = "wal_New name cap wm" and ?named = "keep_last 32 (map (\<lambda>e. e\<lparr>we_WALName := name\<rparr>) es)"
  have ready: "wal_ready [] ?w" using wal_New_ready[OF assms(2)] .
  have "rb_inv (wal_proposalBuffer ?w)" using ready by (simp add: wal_ready_def)
  moreover have "rb_size (wal_proposalBuffer ?w) = 32" "rb_items (wal_proposalBuffer ?w) = []"
    "wal_name ?w = name"
    by (simp_all add: wal_New_def NewRingBuffer_def proposingRingBufferSize_def rb_items_def)
  ultimately obtain rb where rb: "foldM (\<lambda>e w. case wal_Propose e w of Inl p \<Rightarrow> Inl p | Inr (_, w') \<Rightarrow> Inr w') es ?w =
      Inr (?w\<lparr>wal_proposalBuffer := rb\<rparr>)" "rb_inv rb" "rb_items rb = ?named"
    using wal_Propose_all[of ?w es] by auto
  let ?w1 = "?w\<lparr>wal_proposalBuffer := rb\<rparr>"
  have "wal_ready [] ?w1" using ready rb(2) by (simp add: wal_ready_def)
  then obtain w2 where w2: "foldD (\<lambda>_. wal_round (NonBlockingDispatchFunc ord pick)) ?named ?w1 = Some (Inr w2)"
    "wal_ready ?named w2" "ll_capacity (wal_linkedList w2) = ll_capacity (wal_linkedList ?w1)"
    using wal_rounds[OF assms(1), of "[]" ?w1 ?named pick] rb(3) by auto
  have "foldD (\<lambda>_. wal_round (NonBlockingDispatchFunc ord pick)) [0..<min 32 (length es)] ?w1 = Some (Inr w2)"
    using foldD_const[of ?named "[0..<min 32 (length es)]" "wal_round (NonBlockingDispatchFunc ord pick)" ?w1]
      w2(1) by simp
  moreover have "ll_capacity (wal_linkedList ?w1) = cap" by (simp add: wal_New_def NewLinkedList_def)
  ultimately show ?thesis
    using rb(1) w2(2,3) walk_forward[of ?named "wal_linkedList w2"] by (auto simp: wal_ready_def Let_def)
qed

abbreviation entry_of :: "nat \<Rightarrow> nat wal_entry" where
  "entry_of n \<equiv> \<lparr>we_Key = [], we_Data = n, we_Verb = PutCommand, we_Timestamp = 0, we_WALName = [],
      we_ProposalHash = zero_hash, we_PreviousHash = zero_hash, we_Hash = zero_hash\<rparr>"

theorem wal_logs_proposals_witness:
  "\<exists>w1 w2. foldM (\<lambda>e w. case wal_Propose e w of Inl p \<Rightarrow> Inl p | Inr (_, w') \<Rightarrow> Inr w')
        [entry_of 1, entry_of 2, entry_of 3] (wal_New ''w'' 2 (NewWatcherMux 10)) = Inr w1 \<and>
     foldD (\<lambda>_. wal_round (NonBlockingDispatchFunc rev (\<lambda>_. True))) [0..<3] w1 = Some (Inr w2) \<and>
     wal_inflight w2 = None \<and>
     walk node_Next 3 (wal_linkedList w2) (ll_head (wal_linkedList w2)) =
       Some [(entry_of 2)\<lparr>we_WALName := ''w''\<rparr>, (entry_of 3)\<lparr>we_WALName := ''w''\<rparr>]"
proof -
  have three: "length [a, b, c :: nat wal_entry] = 3" "min 32 (3::nat) = 3"
    "keep_last 2 [a, b, c] = [b, c]" "keep_last 32 [a, b, c] = [a, b, c]" for a b c
    by (simp_all add: keep_last_def)
  show ?thesis
    using wal_logs_proposals[of rev "NewWatcherMux 10" "[entry_of 1, entry_of 2, entry_of 3]" "''w''" 2 "\<lambda>_. True",
        OF map_order_rev NewWatcherMux_open]
    unfolding three Let_def list.map by (simp only: three numeral_neq_zero if_False)
qed

end
