(* ===== verification/State_Machines.thy ===== *)
theory State_Machines
  imports Core_Types
begin

text \<open>
  \<open>internal/adapter/statemachine\<close>: the replicated data structures. A machine is a record, a
  call of \<open>Execute\<close> returns the error and the machine after the call. A Go map that may be
  nil is an option; a write to a nil map panics. A JSON document is \<open>null\<close> or the value it
  encodes; decoding follows \<open>encoding/json\<close>, which replaces a slice or a number and adds the
  entries of an object to the map it decodes into. The machines implement one interface
  (locale \<open>state_machine\<close>), and all but the counter can be forked with \<open>DeepCopy\<close>
  (locale \<open>forkable_machine\<close>).
\<close>

section \<open>Options and documents\<close>

datatype 'a json = JNull | JVal 'a

type_synonym 's stm_option = "'s \<Rightarrow> go_error + 's"

definition WithInitialState :: "('u \<Rightarrow> 's \<Rightarrow> 's) \<Rightarrow> 'u \<Rightarrow> 's stm_option" where
  "WithInitialState setState u stm = Inr (setState u stm)"

definition execOptions :: "'s stm_option list \<Rightarrow> 's \<Rightarrow> go_error + 's" where
  "execOptions opts stm = foldM (\<lambda>opt s. opt s) opts stm"

section \<open>The array\<close>

record 'a array =
  arr_state :: "'a list"
  arr_filter :: "('a \<Rightarrow> 'a \<Rightarrow> bool) option"

definition NewArray :: "('a \<Rightarrow> 'a \<Rightarrow> bool) option \<Rightarrow> 'a array stm_option list \<Rightarrow>
      go_error + 'a array" where
  "NewArray filt opts = execOptions opts \<lparr>arr_state = [], arr_filter = filt\<rparr>"

definition executeAppend :: "'a \<Rightarrow> 'a array \<Rightarrow> 'a array" where
  "executeAppend x stm = stm\<lparr>arr_state := arr_state stm @ [x]\<rparr>"

text \<open>The loop of \<open>executePut\<close> overwrites every element that the filter selects.\<close>

definition executePut :: "'a \<Rightarrow> 'a array \<Rightarrow> err \<times> 'a array" where
  "executePut x stm =
     (case arr_filter stm of
        None \<Rightarrow> (Some ErrOperationRequiresAFilterFunc, stm)
      | Some f \<Rightarrow>
          (None, fold (\<lambda>i s. if f x (arr_state s ! i) then s\<lparr>arr_state := (arr_state s)[i := x]\<rparr> else s)
                   [0..<length (arr_state stm)] stm))"

definition executeDelete :: "'a \<Rightarrow> 'a array \<Rightarrow> err \<times> 'a array" where
  "executeDelete x stm =
     (case arr_filter stm of
        None \<Rightarrow> (Some ErrOperationRequiresAFilterFunc, stm)
      | Some f \<Rightarrow>
          (case find (\<lambda>i. f x (arr_state stm ! i)) [0..<length (arr_state stm)] of
             None \<Rightarrow> (Some ErrNotFound, stm)
           | Some i \<Rightarrow>
               let out = (if 0 < i then take i (arr_state stm) else []);
                   out = (if int i < int (length (arr_state stm)) - 1
                          then out @ drop (i + 1) (arr_state stm) else out)
               in (None, stm\<lparr>arr_state := out\<rparr>)))"

definition array_Execute :: "StateMachineCommand \<Rightarrow> 'a \<Rightarrow> 'a array \<Rightarrow> (err \<times> 'a array) go" where
  "array_Execute verb x stm = Inr
     (if verb = AppendCommand then (None, executeAppend x stm)
      else if verb = PutCommand then executePut x stm
      else if verb = DeleteCommand then executeDelete x stm
      else (Some ErrUnsupportedStateMachineCommand, stm))"

definition array_State :: "'a array \<Rightarrow> 'a list" where
  "array_State stm = arr_state stm"

definition array_DeepCopy :: "'a array \<Rightarrow> 'a array" where
  "array_DeepCopy stm = \<lparr>arr_state = array_State stm, arr_filter = arr_filter stm\<rparr>"

definition array_setState :: "'a list \<Rightarrow> 'a array \<Rightarrow> 'a array" where
  "array_setState xs stm = stm\<lparr>arr_state := xs\<rparr>"

definition array_Encode :: "'a array \<Rightarrow> ('a list) json" where
  "array_Encode stm = JVal (arr_state stm)"

definition array_Decode :: "('a list) json \<Rightarrow> 'a array \<Rightarrow> 'a array" where
  "array_Decode buf stm =
     (case buf of JNull \<Rightarrow> stm\<lparr>arr_state := []\<rparr> | JVal xs \<Rightarrow> stm\<lparr>arr_state := xs\<rparr>)"

section \<open>The counter\<close>

record counter =
  allowOverflow :: bool
  maxVal :: "i64 option"
  minVal :: "i64 option"
  cnt_state :: i64

definition CounterWithAllowOverflow :: "counter stm_option" where
  "CounterWithAllowOverflow c = Inr (c\<lparr>allowOverflow := True\<rparr>)"

definition CounterWithMaximumValue :: "i64 \<Rightarrow> counter stm_option" where
  "CounterWithMaximumValue v c = Inr (c\<lparr>maxVal := Some v\<rparr>)"

definition CounterWithMinimumValue :: "i64 \<Rightarrow> counter stm_option" where
  "CounterWithMinimumValue v c = Inr (c\<lparr>minVal := Some v\<rparr>)"

definition NewCounter :: "counter stm_option list \<Rightarrow> go_error + counter" where
  "NewCounter opts =
     execOptions opts \<lparr>allowOverflow = False, maxVal = None, minVal = None, cnt_state = 0\<rparr>"

definition counter_add :: "i64 \<Rightarrow> counter \<Rightarrow> err \<times> counter" where
  "counter_add i stm =
     (if i <s 0 then (Some ErrInputMustBeAPositiveInteger, stm)
      else if i = 0 then (None, stm)
      else
        let newState = cnt_state stm + i;
            hasOverflown = newState <s cnt_state stm
        in (case maxVal stm of
              Some m \<Rightarrow>
                if hasOverflown \<or> m <s cnt_state stm then (None, stm\<lparr>cnt_state := m\<rparr>)
                else if hasOverflown \<and> \<not> allowOverflow stm then (Some ErrNoOverflow, stm)
                else (None, stm\<lparr>cnt_state := newState\<rparr>)
            | None \<Rightarrow>
                if hasOverflown \<and> \<not> allowOverflow stm then (Some ErrNoOverflow, stm)
                else (None, stm\<lparr>cnt_state := newState\<rparr>)))"

definition counter_subtract :: "i64 \<Rightarrow> counter \<Rightarrow> err \<times> counter" where
  "counter_subtract i stm =
     (if i <s 0 then (Some ErrInputMustBeAPositiveInteger, stm)
      else if i = 0 then (None, stm)
      else
        let newState = cnt_state stm - i;
            hasUnderFlown = cnt_state stm <s newState
        in (case minVal stm of
              Some m \<Rightarrow>
                if hasUnderFlown \<or> cnt_state stm <s m then (None, stm\<lparr>cnt_state := m\<rparr>)
                else if hasUnderFlown \<and> \<not> allowOverflow stm then (Some ErrNoUnderflow, stm)
                else (None, stm\<lparr>cnt_state := newState\<rparr>)
            | None \<Rightarrow>
                if hasUnderFlown \<and> \<not> allowOverflow stm then (Some ErrNoUnderflow, stm)
                else (None, stm\<lparr>cnt_state := newState\<rparr>)))"

definition counter_Execute :: "StateMachineCommand \<Rightarrow> i64 \<Rightarrow> counter \<Rightarrow> (err \<times> counter) go" where
  "counter_Execute verb i stm = Inr
     (if verb = AddCommand then counter_add i stm
      else if verb = SubtractCommand then counter_subtract i stm
      else (Some ErrUnsupportedStateMachineCommand, stm))"

definition counter_State :: "counter \<Rightarrow> i64" where
  "counter_State stm = cnt_state stm"

definition counter_DeepCopy :: "counter \<Rightarrow> counter" where
  "counter_DeepCopy stm =
     \<lparr>allowOverflow = False, maxVal = maxVal stm, minVal = minVal stm, cnt_state = counter_State stm\<rparr>"

definition counter_setState :: "i64 \<Rightarrow> counter \<Rightarrow> counter" where
  "counter_setState v stm = stm\<lparr>cnt_state := v\<rparr>"

definition counter_Encode :: "counter \<Rightarrow> i64 json" where
  "counter_Encode stm = JVal (cnt_state stm)"

definition counter_Decode :: "i64 json \<Rightarrow> counter \<Rightarrow> counter" where
  "counter_Decode buf stm = (case buf of JNull \<Rightarrow> stm | JVal v \<Rightarrow> stm\<lparr>cnt_state := v\<rparr>)"

section \<open>The map\<close>

record ('e, 'k, 'v) hashmap =
  hm_state :: "('k \<rightharpoonup> 'v) option"
  hm_transform :: "'e \<Rightarrow> go_error + ('k \<times> 'v)"

definition NewMap :: "('e \<Rightarrow> go_error + ('k \<times> 'v)) option \<Rightarrow> ('e, 'k, 'v) hashmap stm_option list \<Rightarrow>
      go_error + ('e, 'k, 'v) hashmap" where
  "NewMap transformFunc opts =
     (case transformFunc of
        None \<Rightarrow> Inl ErrTransformFuncMustNotBeNil
      | Some f \<Rightarrow> execOptions opts \<lparr>hm_state = Some Map.empty, hm_transform = f\<rparr>)"

definition hashmap_Execute :: "StateMachineCommand \<Rightarrow> 'e \<Rightarrow> ('e, 'k, 'v) hashmap \<Rightarrow>
      (err \<times> ('e, 'k, 'v) hashmap) go" where
  "hashmap_Execute verb x stm =
     (case hm_transform stm x of
        Inl e \<Rightarrow> Inr (Some e, stm)
      | Inr (k, v) \<Rightarrow>
          if verb = PutCommand then
            (case hm_state stm of
               None \<Rightarrow> Inl AssignmentToNilMap
             | Some m \<Rightarrow> Inr (None, stm\<lparr>hm_state := Some (m(k \<mapsto> v))\<rparr>))
          else if verb = DeleteCommand then
            Inr (None, stm\<lparr>hm_state := map_option (\<lambda>m. m(k := None)) (hm_state stm)\<rparr>)
          else Inr (Some ErrUnsupportedStateMachineCommand, stm))"

text \<open>\<open>copyMap\<close> always makes a map: the copy of a nil map is empty.\<close>

definition copyMap :: "('k \<rightharpoonup> 'v) option \<Rightarrow> 'k \<rightharpoonup> 'v" where
  "copyMap m = (case m of None \<Rightarrow> Map.empty | Some m \<Rightarrow> m)"

definition hashmap_State :: "('e, 'k, 'v) hashmap \<Rightarrow> 'k \<rightharpoonup> 'v" where
  "hashmap_State stm = copyMap (hm_state stm)"

definition hashmap_DeepCopy :: "('e, 'k, 'v) hashmap \<Rightarrow> ('e, 'k, 'v) hashmap" where
  "hashmap_DeepCopy stm = \<lparr>hm_state = Some (hashmap_State stm), hm_transform = hm_transform stm\<rparr>"

definition hashmap_setState :: "('k \<rightharpoonup> 'v) option \<Rightarrow> ('e, 'k, 'v) hashmap \<Rightarrow> ('e, 'k, 'v) hashmap" where
  "hashmap_setState m stm = stm\<lparr>hm_state := m\<rparr>"

definition hashmap_Encode :: "('e, 'k, 'v) hashmap \<Rightarrow> ('k \<rightharpoonup> 'v) json" where
  "hashmap_Encode stm = (case hm_state stm of None \<Rightarrow> JNull | Some m \<Rightarrow> JVal m)"

definition hashmap_Decode :: "('k \<rightharpoonup> 'v) json \<Rightarrow> ('e, 'k, 'v) hashmap \<Rightarrow> ('e, 'k, 'v) hashmap" where
  "hashmap_Decode buf stm =
     (case buf of
        JNull \<Rightarrow> stm\<lparr>hm_state := None\<rparr>
      | JVal m \<Rightarrow> stm\<lparr>hm_state := Some (copyMap (hm_state stm) ++ m)\<rparr>)"

section \<open>The set\<close>

record 'a set_machine =
  set_state :: "('a set) option"

definition NewSet :: "'a set_machine stm_option list \<Rightarrow> go_error + 'a set_machine" where
  "NewSet opts = execOptions opts \<lparr>set_state = Some {}\<rparr>"

definition set_Execute :: "StateMachineCommand \<Rightarrow> 'a \<Rightarrow> 'a set_machine \<Rightarrow> (err \<times> 'a set_machine) go" where
  "set_Execute verb x stm =
     (if verb = PutCommand then
        (case set_state stm of
           None \<Rightarrow> Inl AssignmentToNilMap
         | Some s \<Rightarrow> Inr (None, stm\<lparr>set_state := Some (insert x s)\<rparr>))
      else if verb = DeleteCommand then
        Inr (None, stm\<lparr>set_state := map_option (\<lambda>s. s - {x}) (set_state stm)\<rparr>)
      else Inr (Some ErrUnsupportedStateMachineCommand, stm))"

definition set_State :: "'a set_machine \<Rightarrow> 'a set" where
  "set_State stm = (case set_state stm of None \<Rightarrow> {} | Some s \<Rightarrow> s)"

definition set_DeepCopy :: "'a set_machine \<Rightarrow> 'a set_machine" where
  "set_DeepCopy stm = \<lparr>set_state = Some (set_State stm)\<rparr>"

definition set_setState :: "('a set) option \<Rightarrow> 'a set_machine \<Rightarrow> 'a set_machine" where
  "set_setState s stm = stm\<lparr>set_state := s\<rparr>"

definition set_Encode :: "'a set_machine \<Rightarrow> ('a set) json" where
  "set_Encode stm = (case set_state stm of None \<Rightarrow> JNull | Some s \<Rightarrow> JVal s)"

definition set_Decode :: "('a set) json \<Rightarrow> 'a set_machine \<Rightarrow> 'a set_machine" where
  "set_Decode buf stm =
     (case buf of
        JNull \<Rightarrow> stm\<lparr>set_state := None\<rparr>
      | JVal s \<Rightarrow> stm\<lparr>set_state := Some (set_State stm \<union> s)\<rparr>)"

section \<open>The interface\<close>

text \<open>
  What the users of \<open>types.StateMachine\<close> rely on: on a machine whose state is set, no call
  panics, a call that returns an error leaves the machine as it was, a copy has the state of the
  original and decoding a machine's own encoding changes nothing.
\<close>

locale state_machine =
  fixes execute :: "StateMachineCommand \<Rightarrow> 'o \<Rightarrow> 's \<Rightarrow> (err \<times> 's) go"
    and state :: "'s \<Rightarrow> 'u"
    and deepCopy :: "'s \<Rightarrow> 's"
    and encode :: "'s \<Rightarrow> 'u json"
    and decode :: "'u json \<Rightarrow> 's \<Rightarrow> 's"
    and ready :: "'s \<Rightarrow> bool"
  assumes execute_ok: "ready s \<Longrightarrow> \<exists>e s'. execute verb x s = Inr (e, s') \<and> ready s'"
    and execute_err: "execute verb x s = Inr (Some e, s') \<Longrightarrow> s' = s"
    and state_deepCopy: "state (deepCopy s) = state s"
    and deepCopy_ready: "ready (deepCopy s)"
    and encode_ready: "ready s \<Longrightarrow> encode s = JVal (state s)"
    and decode_encode: "decode (encode s) s = s"
begin

text \<open>A sequence of commands: the errors are ignored, as the event loops do.\<close>

definition run :: "(StateMachineCommand \<times> 'o) list \<Rightarrow> 's \<Rightarrow> 's go" where
  "run cmds s =
     foldM (\<lambda>(verb, x) s. case execute verb x s of Inl p \<Rightarrow> Inl p | Inr (_, s') \<Rightarrow> Inr s') cmds s"

lemma run_ready: "ready s \<Longrightarrow> \<exists>s'. run cmds s = Inr s' \<and> ready s'"
  unfolding run_def
proof (rule foldM_invariant[where P = ready])
  fix c s
  assume "ready s"
  then show "\<exists>s'. (case c of (verb, x) \<Rightarrow> \<lambda>s. case execute verb x s of Inl p \<Rightarrow> Inl p | Inr (_, s') \<Rightarrow> Inr s') s
        = Inr s' \<and> ready s'"
    using execute_ok[of s "fst c" "snd c"] by (auto split: prod.splits)
qed

lemma run_failing:
  assumes "\<And>verb x. (verb, x) \<in> set cmds \<Longrightarrow> \<exists>e. execute verb x s = Inr (Some e, s)"
  shows "run cmds s = Inr s"
  using assms by (induction cmds) (force simp: run_def split: sum.splits)+

end

text \<open>A machine whose copy behaves like the original under every command.\<close>

locale forkable_machine = state_machine +
  assumes deepCopy_same: "ready s \<Longrightarrow> deepCopy s = s"
begin

lemma fork_runs_alike: "ready s \<Longrightarrow> run cmds (deepCopy s) = run cmds s"
  by (simp add: deepCopy_same)

end

section \<open>The machines implement the interface\<close>

abbreviation hashmap_ready :: "('e, 'k, 'v) hashmap \<Rightarrow> bool" where
  "hashmap_ready stm \<equiv> hm_state stm \<noteq> None"

abbreviation set_ready :: "'a set_machine \<Rightarrow> bool" where
  "set_ready stm \<equiv> set_state stm \<noteq> None"

lemma executePut_filter:
  "arr_filter (fold (\<lambda>i s. if f x (arr_state s ! i) then s\<lparr>arr_state := (arr_state s)[i := x]\<rparr> else s) is stm) =
     arr_filter stm"
  by (induction "is" arbitrary: stm) auto

interpretation arr: forkable_machine array_Execute array_State array_DeepCopy array_Encode array_Decode
  "\<lambda>_. True"
proof
  fix stm stm' :: "'a array" and verb x e
  show "array_Execute verb x stm = Inr (Some e, stm') \<Longrightarrow> stm' = stm"
    by (auto simp: array_Execute_def executePut_def executeDelete_def Let_def
        split: if_splits option.splits)
qed (simp_all add: array_Execute_def array_State_def array_DeepCopy_def array_Encode_def array_Decode_def)

interpretation cnt: state_machine counter_Execute counter_State counter_DeepCopy counter_Encode
  counter_Decode "\<lambda>_. True"
proof
  fix stm stm' :: counter and verb x e
  show "counter_Execute verb x stm = Inr (Some e, stm') \<Longrightarrow> stm' = stm"
    by (auto simp: counter_Execute_def counter_add_def counter_subtract_def Let_def
        split: if_splits option.splits)
qed (simp_all add: counter_Execute_def counter_State_def counter_DeepCopy_def counter_Encode_def
  counter_Decode_def)

lemma map_add_same [simp]: "m ++ m = m"
  by (simp add: map_add_def fun_eq_iff split: option.splits)

lemma hashmap_decode_own: "hashmap_Decode (hashmap_Encode stm) stm = stm"
  by (cases stm) (simp add: hashmap_Decode_def hashmap_Encode_def copyMap_def split: option.splits)

interpretation hm: forkable_machine hashmap_Execute hashmap_State hashmap_DeepCopy hashmap_Encode
  hashmap_Decode hashmap_ready
proof
  fix stm stm' :: "('e, 'k, 'v) hashmap" and verb x e
  show "hashmap_ready stm \<Longrightarrow> \<exists>e s'. hashmap_Execute verb x stm = Inr (e, s') \<and> hashmap_ready s'"
    by (auto simp: hashmap_Execute_def split: sum.splits)
  show "hashmap_Execute verb x stm = Inr (Some e, stm') \<Longrightarrow> stm' = stm"
    by (auto simp: hashmap_Execute_def split: sum.splits prod.splits if_splits option.splits)
  show "hashmap_Decode (hashmap_Encode stm) stm = stm" by (rule hashmap_decode_own)
qed (auto simp: hashmap_State_def hashmap_DeepCopy_def hashmap_Encode_def
  copyMap_def split: option.splits)

interpretation st: forkable_machine set_Execute set_State set_DeepCopy set_Encode set_Decode set_ready
proof
  fix stm stm' :: "'a set_machine" and verb x e
  show "set_ready stm \<Longrightarrow> \<exists>e s'. set_Execute verb x stm = Inr (e, s') \<and> set_ready s'"
    by (auto simp: set_Execute_def)
  show "set_Execute verb x stm = Inr (Some e, stm') \<Longrightarrow> stm' = stm"
    by (auto simp: set_Execute_def split: if_splits option.splits)
qed (auto simp: set_State_def set_DeepCopy_def set_Encode_def set_Decode_def split: option.splits)

section \<open>Properties of the counter\<close>

lemma sint_64: "- 9223372036854775808 \<le> sint (x :: i64)" "sint (x :: i64) < 9223372036854775808"
  using sint_greater_eq[of x] sint_less[of x] by simp_all

lemma signed_wrap:
  fixes z :: int
  assumes "- 18446744073709551616 \<le> z" and "z < 18446744073709551616"
  shows "signed_take_bit 63 z =
    (if z < - 9223372036854775808 then z + 18446744073709551616
     else if 9223372036854775808 \<le> z then z - 18446744073709551616 else z)"
proof -
  let ?h = "9223372036854775808 :: int" and ?m = "18446744073709551616 :: int"
  have eq: "signed_take_bit 63 z = (z + ?h) mod ?m - ?h"
    by (simp add: signed_take_bit_eq_take_bit_shift take_bit_eq_mod)
  consider "z < - ?h" | "?h \<le> z" | "- ?h \<le> z" "z < ?h" by linarith
  then show ?thesis
  proof cases
    case 1
    then have "(z + ?h) mod ?m = z + ?h + ?m"
      using assms mod_add_self2[of "z + ?h" ?m] mod_pos_pos_trivial[of "z + ?h + ?m" ?m] by linarith
    then show ?thesis using eq 1 by simp
  next
    case 2
    then have "(z + ?h) mod ?m = z + ?h - ?m"
      using assms minus_mod_self2[of "z + ?h" ?m] mod_pos_pos_trivial[of "z + ?h - ?m" ?m] by linarith
    then show ?thesis using eq 2 by simp
  next
    case 3
    then show ?thesis using eq by simp
  qed
qed

lemma sint_add_wrap:
  fixes a b :: i64
  shows "sint (a + b) =
    (if sint a + sint b < - 9223372036854775808 then sint a + sint b + 18446744073709551616
     else if 9223372036854775808 \<le> sint a + sint b then sint a + sint b - 18446744073709551616
     else sint a + sint b)"
  using signed_wrap[of "sint a + sint b"] sint_64[of a] sint_64[of b]
  by (simp add: sint_word_ariths)

lemma sint_sub_wrap:
  fixes a b :: i64
  shows "sint (a - b) =
    (if sint a - sint b < - 9223372036854775808 then sint a - sint b + 18446744073709551616
     else if 9223372036854775808 \<le> sint a - sint b then sint a - sint b - 18446744073709551616
     else sint a - sint b)"
  using signed_wrap[of "sint a - sint b"] sint_64[of a] sint_64[of b]
  by (simp add: sint_word_ariths)

text \<open>The test for a wrap in \<open>add\<close> and \<open>subtract\<close> is exact for positive operands.\<close>

lemma overflow_test:
  fixes a b :: i64
  assumes "0 <s b"
  shows "a + b <s a \<longleftrightarrow> 9223372036854775808 \<le> sint a + sint b"
  using assms sint_64[of a] sint_64[of b] by (simp add: word_sless_alt sint_add_wrap)

lemma underflow_test:
  fixes a b :: i64
  assumes "0 <s b"
  shows "a <s a - b \<longleftrightarrow> sint a - sint b < - 9223372036854775808"
  using assms sint_64[of a] sint_64[of b] by (simp add: word_sless_alt sint_sub_wrap)

lemma positive_operand: "0 <s (i :: i64) \<Longrightarrow> \<not> i <s 0 \<and> i \<noteq> 0"
  by (auto simp: word_sless_alt)

text \<open>
  C38. A counter without a maximum adds exactly: for a positive operand the new value is the sum
  of the integers when that fits in 64 bits; when it does not, the counter either refuses with
  \<open>ErrNoOverflow\<close> and keeps its value, or, where overflow is allowed, wraps by \<open>2 ^ 64\<close>.
\<close>

theorem counter_add_exact:
  assumes "0 <s i" and "maxVal c = None"
  shows "if sint (cnt_state c) + sint i < 2 ^ 63
         then counter_add i c = (None, c\<lparr>cnt_state := cnt_state c + i\<rparr>) \<and>
              sint (cnt_state c + i) = sint (cnt_state c) + sint i
         else if allowOverflow c
         then counter_add i c = (None, c\<lparr>cnt_state := cnt_state c + i\<rparr>) \<and>
              sint (cnt_state c + i) = sint (cnt_state c) + sint i - 2 ^ 64
         else counter_add i c = (Some ErrNoOverflow, c)"
proof -
  have pos: "0 < sint i" using assms(1) by (simp add: word_sless_alt)
  show ?thesis
    using positive_operand[OF assms(1)] overflow_test[OF assms(1), of "cnt_state c"] assms(2) pos
      sint_64[of "cnt_state c"] sint_64[of i] sint_add_wrap[of "cnt_state c" i]
    by (auto simp: counter_add_def Let_def)
qed

abbreviation full_counter :: counter where
  "full_counter \<equiv> \<lparr>allowOverflow = False, maxVal = None, minVal = None, cnt_state = 9223372036854775807\<rparr>"

theorem counter_add_exact_witness:
  "counter_add 1 full_counter = (Some ErrNoOverflow, full_counter)"
  using counter_add_exact[of 1 full_counter] by (simp add: word_sless_alt)

text \<open>
  With a maximum, \<open>add\<close> compares the maximum with the value before the addition: a
  counter that is not above its maximum is set to the sum, whether or not the sum is above the
  maximum; only the following \<open>add\<close> of a positive operand brings it back to the maximum.
\<close>

theorem counter_maximum_is_checked_late:
  assumes "0 <s i" and "0 <s j" and "maxVal c = Some m" and "\<not> m <s cnt_state c"
    and "sint (cnt_state c) + sint i < 2 ^ 63" and "m <s cnt_state c + i"
  shows "counter_add i c = (None, c\<lparr>cnt_state := cnt_state c + i\<rparr>) \<and>
         counter_add j (c\<lparr>cnt_state := cnt_state c + i\<rparr>) = (None, c\<lparr>cnt_state := m\<rparr>)"
proof -
  have "\<not> cnt_state c + i <s cnt_state c"
    using overflow_test[OF assms(1)] assms(5) by simp
  then show ?thesis
    using positive_operand[OF assms(1)] positive_operand[OF assms(2)] assms(3,4,6)
    by (simp add: counter_add_def Let_def)
qed

abbreviation counter_10 :: "i64 \<Rightarrow> counter" where
  "counter_10 v \<equiv> \<lparr>allowOverflow = False, maxVal = Some 10, minVal = None, cnt_state = v\<rparr>"

theorem counter_maximum_is_checked_late_witness:
  "counter_add 8 (counter_10 8) = (None, counter_10 16) \<and>
   counter_add 1 (counter_10 16) = (None, counter_10 10)"
  using counter_maximum_is_checked_late[of 8 1 "counter_10 8" 10]
  by (simp add: word_sless_alt)

text \<open>
  \<open>DeepCopy\<close> of a counter drops \<open>allowOverflow\<close>: there is a counter on which a
  command succeeds that its copy refuses.
\<close>

theorem counter_copy_diverges:
  "\<exists>c c' e. counter_Execute AddCommand 1 c = Inr (None, c') \<and>
            counter_Execute AddCommand 1 (counter_DeepCopy c) = Inr (Some e, counter_DeepCopy c)"
  by (rule exI[of _ "full_counter\<lparr>allowOverflow := True\<rparr>"])
    (simp add: counter_Execute_def counter_add_def counter_DeepCopy_def counter_State_def Let_def
      word_sless_alt)

section \<open>Properties of the array\<close>

lemma put_loop:
  assumes "k \<le> length (arr_state stm)"
  shows "arr_state (fold (\<lambda>i s. if f x (arr_state s ! i) then s\<lparr>arr_state := (arr_state s)[i := x]\<rparr> else s)
             [0..<k] stm) =
         map (\<lambda>y. if f x y then x else y) (take k (arr_state stm)) @ drop k (arr_state stm)"
  using assms
proof (induction k)
  case 0
  then show ?case by simp
next
  case (Suc k)
  let ?g = "\<lambda>y. if f x y then x else y"
  let ?xs = "arr_state stm"
  have k: "k < length ?xs" using Suc.prems by simp
  have "(map ?g (take k ?xs) @ drop k ?xs) ! k = ?xs ! k"
    using k by (simp add: nth_append)
  moreover have "(map ?g (take k ?xs) @ drop k ?xs)[k := ?xs ! k] = map ?g (take k ?xs) @ drop k ?xs"
    using k by (metis calculation list_update_id)
  moreover have "(map ?g (take k ?xs) @ drop k ?xs)[k := y] =
      map ?g (take k ?xs) @ y # drop (Suc k) ?xs" for y
    using k by (simp add: list_update_append flip: Cons_nth_drop_Suc)
  ultimately show ?case
    using Suc k by (auto simp: take_Suc_conv_app_nth)
qed

lemma find_first_index:
  assumes "i < length xs" and "P (xs ! i)" and "\<And>j. j < i \<Longrightarrow> \<not> P (xs ! j)"
  shows "find (\<lambda>i. P (xs ! i)) [0..<length xs] = Some i"
  using assms by (auto simp: find_Some_iff intro!: exI[of _ i])

text \<open>
  The array updates and deletes by its filter: \<open>Put\<close> replaces every element that the
  filter matches with the new object and leaves the others; \<open>Delete\<close> removes the first match
  and keeps the order of the rest, and returns \<open>ErrNotFound\<close> on an array without one.
\<close>

theorem array_put_delete:
  assumes "arr_filter stm = Some f"
  shows "(\<exists>stm'. array_Execute PutCommand x stm = Inr (None, stm') \<and>
            array_State stm' = map (\<lambda>y. if f x y then x else y) (array_State stm)) \<and>
         (\<forall>ys y zs. array_State stm = ys @ y # zs \<and> f x y \<and> (\<forall>z \<in> set ys. \<not> f x z) \<longrightarrow>
            array_Execute DeleteCommand x stm = Inr (None, stm\<lparr>arr_state := ys @ zs\<rparr>)) \<and>
         ((\<forall>y \<in> set (array_State stm). \<not> f x y) \<longrightarrow>
            array_Execute DeleteCommand x stm = Inr (Some ErrNotFound, stm))"
proof (intro conjI allI impI)
  show "\<exists>stm'. array_Execute PutCommand x stm = Inr (None, stm') \<and>
          array_State stm' = map (\<lambda>y. if f x y then x else y) (array_State stm)"
    using put_loop[of "length (arr_state stm)" stm f x] assms
    by (simp add: array_Execute_def executePut_def array_State_def command_defs)
next
  fix ys y zs
  assume a: "array_State stm = ys @ y # zs \<and> f x y \<and> (\<forall>z \<in> set ys. \<not> f x z)"
  then have "find (\<lambda>i. f x (arr_state stm ! i)) [0..<length (arr_state stm)] = Some (length ys)"
    by (intro find_first_index) (auto simp: array_State_def nth_append)
  then show "array_Execute DeleteCommand x stm = Inr (None, stm\<lparr>arr_state := ys @ zs\<rparr>)"
    using a assms
    by (cases zs) (auto simp: array_Execute_def executeDelete_def command_defs array_State_def Let_def)
next
  assume "\<forall>y \<in> set (array_State stm). \<not> f x y"
  then have "find (\<lambda>i. f x (arr_state stm ! i)) [0..<length (arr_state stm)] = None"
    by (simp add: find_None_iff array_State_def)
  then show "array_Execute DeleteCommand x stm = Inr (Some ErrNotFound, stm)"
    using assms by (simp add: array_Execute_def executeDelete_def command_defs)
qed

theorem array_put_delete_witness:
  "array_Execute DeleteCommand 2 \<lparr>arr_state = [1::nat, 2, 3, 2], arr_filter = Some (=)\<rparr> =
     Inr (None, \<lparr>arr_state = [1, 3, 2], arr_filter = Some (=)\<rparr>)"
  using array_put_delete[of "\<lparr>arr_state = [1::nat, 2, 3, 2], arr_filter = Some (=)\<rparr>" "(=)" 2]
  by (simp add: array_State_def) (metis append.left_neutral append_Cons empty_iff empty_set
      set_ConsD numeral_eq_one_iff semiring_norm(85))

section \<open>Properties of the map\<close>

text \<open>The effect of a command on a key: what it sets the key to, if it concerns the key.\<close>

definition effect :: "('e \<Rightarrow> go_error + ('k \<times> 'v)) \<Rightarrow> 'k \<Rightarrow> StateMachineCommand \<times> 'e \<Rightarrow>
      'v option option" where
  "effect t k c =
     (case t (snd c) of
        Inl _ \<Rightarrow> None
      | Inr (k', v) \<Rightarrow>
          if k' \<noteq> k then None
          else if fst c = PutCommand then Some (Some v)
          else if fst c = DeleteCommand then Some None
          else None)"

definition last_effect :: "('e \<Rightarrow> go_error + ('k \<times> 'v)) \<Rightarrow> 'k \<Rightarrow> (StateMachineCommand \<times> 'e) list \<Rightarrow>
      'v option \<Rightarrow> 'v option" where
  "last_effect t k cmds old = fold (\<lambda>c r. case effect t k c of None \<Rightarrow> r | Some r' \<Rightarrow> r') cmds old"

lemma hashmap_Execute_effect:
  assumes "hashmap_ready stm"
  shows "\<exists>e stm'. hashmap_Execute verb x stm = Inr (e, stm') \<and> hashmap_ready stm' \<and>
           hm_transform stm' = hm_transform stm \<and>
           (\<forall>k. hashmap_State stm' k =
                  (case effect (hm_transform stm) k (verb, x) of
                     None \<Rightarrow> hashmap_State stm k | Some r \<Rightarrow> r))"
  using assms
  by (auto simp: hashmap_Execute_def effect_def hashmap_State_def copyMap_def command_defs
      split: sum.splits)

text \<open>
  Running any commands on a map machine whose map is not nil never panics, and the value of
  every key afterwards is decided by the last command that concerns the key: the value it put, or
  none if it was a delete. Commands with an unsupported verb or a failing transform function
  change nothing.
\<close>

theorem map_last_command_wins:
  assumes "hashmap_ready stm"
  shows "\<exists>stm'. hm.run cmds stm = Inr stm' \<and> hashmap_ready stm' \<and>
           (\<forall>k. hashmap_State stm' k = last_effect (hm_transform stm) k cmds (hashmap_State stm k))"
proof -
  have "\<exists>stm'. hm.run cmds stm = Inr stm' \<and> hashmap_ready stm' \<and> hm_transform stm' = hm_transform stm \<and>
      (\<forall>k. hashmap_State stm' k = last_effect (hm_transform stm) k cmds (hashmap_State stm k))"
    using assms
  proof (induction cmds arbitrary: stm)
    case Nil
    then show ?case by (simp add: hm.run_def last_effect_def)
  next
    case (Cons c cmds)
    obtain e stm1 where s1: "hashmap_Execute (fst c) (snd c) stm = Inr (e, stm1)" "hashmap_ready stm1"
      "hm_transform stm1 = hm_transform stm"
      "\<forall>k. hashmap_State stm1 k = (case effect (hm_transform stm) k c of
                None \<Rightarrow> hashmap_State stm k | Some r \<Rightarrow> r)"
      using hashmap_Execute_effect[OF Cons.prems, of "fst c" "snd c"] by auto
    then show ?case
      using Cons.IH[OF s1(2)] by (auto simp: hm.run_def last_effect_def split: prod.splits)
  qed
  then show ?thesis by blast
qed

abbreviation pair_map :: "(nat \<times> nat, nat, nat) hashmap" where
  "pair_map \<equiv> \<lparr>hm_state = Some [0 \<mapsto> 5], hm_transform = Inr\<rparr>"

theorem map_last_command_wins_witness:
  "\<exists>stm'. hm.run [(PutCommand, (1, 2)), (DeleteCommand, (0, 9)), (PutCommand, (1, 3))] pair_map = Inr stm' \<and>
     hashmap_State stm' 1 = Some 3 \<and> hashmap_State stm' 0 = None"
  using map_last_command_wins[of pair_map "[(PutCommand, (1, 2)), (DeleteCommand, (0, 9)), (PutCommand, (1, 3))]"]
  by (auto simp: last_effect_def effect_def command_defs)

lemma map_add_absorb: "(a ++ m = m) = (dom a \<subseteq> dom m)"
proof
  assume "a ++ m = m"
  then show "dom a \<subseteq> dom m" by (metis dom_map_add sup_ge2 sup.absorb_iff1 sup_commute)
next
  assume "dom a \<subseteq> dom m"
  then show "a ++ m = m" by (fastforce simp: map_add_def fun_eq_iff split: option.splits)
qed

text \<open>
  Decoding the encoding of one map machine into another adds its entries and deletes none:
  afterwards the state is the old state overridden by the encoded one, and it equals the encoded
  state exactly when every key of the old state is also a key of the encoded one.
\<close>

theorem map_decode_merges:
  assumes "hashmap_ready src"
  shows "hashmap_State (hashmap_Decode (hashmap_Encode src) dst) = hashmap_State dst ++ hashmap_State src \<and>
         (hashmap_State (hashmap_Decode (hashmap_Encode src) dst) = hashmap_State src \<longleftrightarrow>
            dom (hashmap_State dst) \<subseteq> dom (hashmap_State src))"
proof -
  obtain m where m: "hm_state src = Some m" using assms by auto
  have merge: "hashmap_State (hashmap_Decode (hashmap_Encode src) dst) = hashmap_State dst ++ m"
    by (simp add: hashmap_State_def hashmap_Decode_def hashmap_Encode_def m) (simp add: copyMap_def)
  show ?thesis using merge m by (simp add: hashmap_State_def copyMap_def map_add_absorb)
qed

theorem map_decode_merges_witness:
  "hashmap_State (hashmap_Decode (hashmap_Encode (pair_map\<lparr>hm_state := Some [1 \<mapsto> 7]\<rparr>)) pair_map) 0 = Some 5"
  using map_decode_merges[of "pair_map\<lparr>hm_state := Some [1 \<mapsto> 7]\<rparr>" pair_map]
  by (simp add: hashmap_State_def copyMap_def map_add_def)

end
