(* ===== verification/Dvds.thy ===== *)
theory Dvds
  imports Wal State_Machines "HOL-Library.Sublist"
begin

text \<open>
  \<open>internal/controller/dvds/dvds.go\<close>: the distributed volatile data structure. It proposes
  values to a write-ahead log of commands, executes what the log delivers on a state machine and
  dispatches the state to its watchers; a second log delivers snapshots. The state machine is the
  triple of its \<open>Execute\<close>, \<open>State\<close> and \<open>Decode\<close>, an argument of the steps that use it.
\<close>

section \<open>The model\<close>

text \<open>\<open>ds_cmd\<close> and \<open>ds_snap\<close> are the subscriptions that \<open>Run\<close> makes at the two logs.\<close>

record ('s, 'u) dvds =
  ds_stateMachine :: 's
  ds_watcherMux :: "'u watcher_mux"
  ds_cmd :: "nat \<times> nat"
  ds_snap :: "nat \<times> nat"
  ds_lc :: lifecycle

definition dvds_New :: "'s \<Rightarrow> 'u watcher_mux \<Rightarrow> ('s, 'u) dvds" where
  "dvds_New stm watcherMux =
     \<lparr>ds_stateMachine = stm, ds_watcherMux = watcherMux, ds_cmd = (0, 0), ds_snap = (0, 0),
      ds_lc = lc_new\<rparr>"

definition dvds_Propose :: "int \<Rightarrow> 'o \<Rightarrow> 'o wal \<Rightarrow> (err \<times> 'o wal) go" where
  "dvds_Propose now proposal cmdWAL =
     wal_Propose \<lparr>we_Key = [], we_Data = proposal, we_Verb = PutCommand, we_Timestamp = now,
        we_WALName = [], we_ProposalHash = zero_hash, we_PreviousHash = zero_hash,
        we_Hash = zero_hash\<rparr> cmdWAL"

definition dvds_Watch :: "('s, 'u) dvds \<Rightarrow> (nat \<times> nat) \<times> ('s, 'u) dvds" where
  "dvds_Watch ds = (let (h, wm) = Watch None (ds_watcherMux ds) in (h, ds\<lparr>ds_watcherMux := wm\<rparr>))"

definition dvds_Run :: "('s, 'u) dvds \<times> 'o wal \<times> 'u wal \<Rightarrow>
      (err \<times> ('s, 'u) dvds \<times> 'o wal \<times> 'u wal) comp" where
  "dvds_Run w = (case w of (ds, cmdWAL, snapshotWAL) \<Rightarrow> Some (Inr
     (if lc_running (ds_lc ds) then (Some ErrAlreadyRunning, w)
      else if lc_closed (ds_lc ds) then (Some ErrCannotRunClosedRunnable, w)
      else
        let (cmd, cmdWAL) = wal_Watch cmdWAL;
            (snap, snapshotWAL) = wal_Watch snapshotWAL
        in (None, ds\<lparr>ds_cmd := cmd, ds_snap := snap, ds_lc := (ds_lc ds)\<lparr>lc_running := True\<rparr>\<rparr>,
            cmdWAL, snapshotWAL))))"

text \<open>The event loop on a batch of commands: errors of \<open>Execute\<close> are dropped.\<close>

definition dvds_execute :: "(StateMachineCommand \<Rightarrow> 'o \<Rightarrow> 's \<Rightarrow> (err \<times> 's) go) \<Rightarrow> 'o list \<Rightarrow> 's \<Rightarrow> 's go" where
  "dvds_execute execute entries stm =
     foldM (\<lambda>entry s. case execute PutCommand entry s of Inl p \<Rightarrow> Inl p | Inr (_, s') \<Rightarrow> Inr s') entries stm"

definition dvds_on_commands :: "(StateMachineCommand \<Rightarrow> 'o \<Rightarrow> 's \<Rightarrow> (err \<times> 's) go) \<Rightarrow> ('s \<Rightarrow> 'u) \<Rightarrow>
      ('u \<Rightarrow> 'u watcher_mux \<Rightarrow> ('u watcher_mux) go) \<Rightarrow> 'o list \<Rightarrow> ('s, 'u) dvds \<Rightarrow> (('s, 'u) dvds) go" where
  "dvds_on_commands execute state dispatch entries ds =
     (case dvds_execute execute entries (ds_stateMachine ds) of
        Inl p \<Rightarrow> Inl p
      | Inr stm \<Rightarrow>
          (case dispatch (state stm) (ds_watcherMux ds) of
             Inl p \<Rightarrow> Inl p
           | Inr wm \<Rightarrow> Inr (ds\<lparr>ds_stateMachine := stm, ds_watcherMux := wm\<rparr>)))"

text \<open>The event loop on a batch of snapshots: the last one is decoded into the state machine.\<close>

definition dvds_on_snapshots :: "('u \<Rightarrow> go_error + 'u json) \<Rightarrow> ('u json \<Rightarrow> 's \<Rightarrow> 's) \<Rightarrow> ('s \<Rightarrow> 'u) \<Rightarrow>
      ('u \<Rightarrow> 'u watcher_mux \<Rightarrow> ('u watcher_mux) go) \<Rightarrow> 'u list \<Rightarrow> ('s, 'u) dvds \<Rightarrow> (('s, 'u) dvds) go" where
  "dvds_on_snapshots marshal decode state dispatch snapshots ds =
     (if snapshots = [] then Inr ds
      else (case marshal (last snapshots) of
              Inl _ \<Rightarrow> Inr ds
            | Inr buf \<Rightarrow>
                let stm = decode buf (ds_stateMachine ds)
                in (case dispatch (state stm) (ds_watcherMux ds) of
                      Inl p \<Rightarrow> Inl p
                    | Inr wm \<Rightarrow> Inr (ds\<lparr>ds_stateMachine := stm, ds_watcherMux := wm\<rparr>))))"

definition dvds_terminate :: "nat map_order \<Rightarrow> ('s, 'u) dvds \<times> 'o wal \<times> 'u wal \<Rightarrow>
      (('s, 'u) dvds \<times> 'o wal \<times> 'u wal) go" where
  "dvds_terminate ord w = (case w of (ds, cmdWAL, snapshotWAL) \<Rightarrow>
     (case cancel (ds_cmd ds) (wal_watcherMux cmdWAL) of
        Inl p \<Rightarrow> Inl p
      | Inr cmdMux \<Rightarrow>
          (case cancel (ds_snap ds) (wal_watcherMux snapshotWAL) of
             Inl p \<Rightarrow> Inl p
           | Inr snapMux \<Rightarrow>
               (case wm_Close ord (ds_watcherMux ds) of
                  Inl p \<Rightarrow> Inl p
                | Inr wm \<Rightarrow>
                    if lc_done (ds_lc ds) then Inl CloseOfClosedChannel
                    else Inr (ds\<lparr>ds_watcherMux := wm, ds_lc := (ds_lc ds)\<lparr>lc_done := True\<rparr>\<rparr>,
                              cmdWAL\<lparr>wal_watcherMux := cmdMux\<rparr>,
                              snapshotWAL\<lparr>wal_watcherMux := snapMux\<rparr>)))))"

definition dvds_Close :: "nat map_order \<Rightarrow> bool \<Rightarrow> ('s, 'u) dvds \<times> 'o wal \<times> 'u wal \<Rightarrow>
      (err \<times> ('s, 'u) dvds \<times> 'o wal \<times> 'u wal) comp" where
  "dvds_Close ord graceful w = (case w of (ds, cmdWAL, snapshotWAL) \<Rightarrow> Some
     (if \<not> lc_running (ds_lc ds) then Inr (Some ErrRunnableMustBeRunningToBeClosed, w)
      else if lc_closed (ds_lc ds) then Inr (Some ErrAlreadyClosed, w)
      else if lc_terminate (ds_lc ds) then Inl CloseOfClosedChannel
      else
        let w = (ds\<lparr>ds_lc := (ds_lc ds)\<lparr>lc_terminate := True\<rparr>\<rparr>, cmdWAL, snapshotWAL)
        in (case (if graceful then dvds_terminate ord w else Inr w) of
              Inl p \<Rightarrow> Inl p
            | Inr (ds', w') \<Rightarrow>
                Inr (None, ds'\<lparr>ds_lc := (ds_lc ds')\<lparr>lc_running := False, lc_closed := True\<rparr>\<rparr>, w'))))"

section \<open>Commands travel in order\<close>

text \<open>
  A data structure subscribed at the watcher \<open>a\<close> of its command log, with the values proposed so
  far. The steps are those of the proposer, of the two goroutines of the log and of the event
  loop; they interleave freely.
\<close>

record ('o, 's, 'u) pipeline =
  pl_wal :: "'o wal"
  pl_ds :: "('s, 'u) dvds"
  pl_proposed :: "'o list"

abbreviation subscription :: "nat \<Rightarrow> 'o wal \<Rightarrow> ('o list) list" where
  "subscription a w \<equiv> w_ch (wm_objs (wal_watcherMux w) ! a)"

definition receive :: "nat \<Rightarrow> 'o wal \<Rightarrow> 'o wal" where
  "receive a w =
     w\<lparr>wal_watcherMux := (wal_watcherMux w)\<lparr>wm_objs :=
        (wm_objs (wal_watcherMux w))[a := (wm_objs (wal_watcherMux w) ! a)\<lparr>w_ch := tl (subscription a w)\<rparr>]\<rparr>\<rparr>"

inductive pipeline_step for execute :: "StateMachineCommand \<Rightarrow> 'o \<Rightarrow> 's \<Rightarrow> (err \<times> 's) go"
  and state :: "'s \<Rightarrow> 'u" and dispatch :: "'u \<Rightarrow> 'u watcher_mux \<Rightarrow> ('u watcher_mux) go"
  and ord :: "nat map_order" and a :: nat where
  propose: "dvds_Propose now x (pl_wal p) = Inr (None, w) \<Longrightarrow>
     pipeline_step execute state dispatch ord a p (p\<lparr>pl_wal := w, pl_proposed := pl_proposed p @ [x]\<rparr>)"
| read: "wal_read (pl_wal p) = Some (Inr w) \<Longrightarrow>
     pipeline_step execute state dispatch ord a p (p\<lparr>pl_wal := w\<rparr>)"
| accept: "wal_accept (NonBlockingDispatchFunc ord pick) (pl_wal p) = Some (Inr w) \<Longrightarrow>
     pipeline_step execute state dispatch ord a p (p\<lparr>pl_wal := w\<rparr>)"
| deliver: "subscription a (pl_wal p) = entries # rest \<Longrightarrow>
     dvds_on_commands execute state dispatch entries (pl_ds p) = Inr ds \<Longrightarrow>
     pipeline_step execute state dispatch ord a p (p\<lparr>pl_wal := receive a (pl_wal p), pl_ds := ds\<rparr>)"

text \<open>The values on their way, from the event loop back to the proposer.\<close>

definition in_transit :: "nat \<Rightarrow> 'o wal \<Rightarrow> 'o list" where
  "in_transit a w =
     concat (subscription a w) @
     (case wal_inflight w of None \<Rightarrow> [] | Some e \<Rightarrow> [we_Data e]) @
     map we_Data (rb_items (wal_proposalBuffer w))"

definition pipeline_inv :: "(StateMachineCommand \<Rightarrow> 'o \<Rightarrow> 's \<Rightarrow> (err \<times> 's) go) \<Rightarrow> nat \<Rightarrow> 's \<Rightarrow>
      ('o, 's, 'u) pipeline \<Rightarrow> bool" where
  "pipeline_inv execute a stm0 p \<longleftrightarrow>
     rb_inv (wal_proposalBuffer (pl_wal p)) \<and> wm_open (wal_watcherMux (pl_wal p)) \<and>
     a < length (wm_objs (wal_watcherMux (pl_wal p))) \<and>
     (\<exists>applied. dvds_execute execute applied stm0 = Inr (ds_stateMachine (pl_ds p)) \<and>
        subseq (applied @ in_transit a (pl_wal p)) (pl_proposed p))"

lemma dvds_execute_append:
  "dvds_execute execute (xs @ ys) s =
     (case dvds_execute execute xs s of Inl p \<Rightarrow> Inl p | Inr s' \<Rightarrow> dvds_execute execute ys s')"
  unfolding dvds_execute_def by (rule foldM_append)

lemma subseq_drop: "subseq (drop n xs) xs"
  by (metis append_take_drop_id list_emb_append2 subseq_order.order_refl)

lemma keep_last_subseq: "subseq (keep_last n xs) xs"
  by (simp add: keep_last_def subseq_drop)

lemma subseq_prefixed: "subseq xs ys \<Longrightarrow> subseq (zs @ xs) (zs @ ys)"
  by (simp add: list_emb_append_mono)

lemma propose_step:
  assumes inv: "rb_inv (wal_proposalBuffer w)" and step: "dvds_Propose now x w = Inr (e, w')"
  shows "rb_inv (wal_proposalBuffer w') \<and> wal_watcherMux w' = wal_watcherMux w \<and>
         subseq (in_transit a w') (in_transit a w @ [x])"
proof -
  let ?e = "\<lparr>we_Key = [], we_Data = x, we_Verb = PutCommand, we_Timestamp = now,
        we_WALName = wal_name w, we_ProposalHash = zero_hash, we_PreviousHash = zero_hash,
        we_Hash = zero_hash\<rparr>"
  obtain rb where rb: "rb_Write ?e (wal_proposalBuffer w) = Inr rb" "rb_inv rb"
    "rb_items rb = keep_last (rb_size (wal_proposalBuffer w)) (rb_items (wal_proposalBuffer w) @ [?e])"
    using rbq.enq_keeps_last[OF inv, of ?e] by blast
  then have w': "w' = w\<lparr>wal_proposalBuffer := rb\<rparr>"
    using step by (simp add: dvds_Propose_def wal_Propose_def)
  have "subseq (map we_Data (rb_items rb)) (map we_Data (rb_items (wal_proposalBuffer w) @ [?e]))"
    unfolding rb(3) by (intro subseq_map keep_last_subseq)
  then show ?thesis using rb(2) by (simp add: w' in_transit_def subseq_prefixed)
qed

lemma dvds_Propose_ok:
  assumes "rb_inv (wal_proposalBuffer w)"
  shows "\<exists>w'. dvds_Propose now x w = Inr (None, w')"
proof -
  have "\<exists>rb. rb_Write e (wal_proposalBuffer w) = Inr rb" for e
    using rbq.enq_keeps_last[OF assms] by blast
  then show ?thesis
    unfolding dvds_Propose_def wal_Propose_def by (metis (no_types, lifting) sum.case(2))
qed

lemma read_step:
  assumes inv: "rb_inv (wal_proposalBuffer w)" and step: "wal_read w = Some (Inr w')"
  shows "rb_inv (wal_proposalBuffer w') \<and> wal_watcherMux w' = wal_watcherMux w \<and>
         in_transit a w' = in_transit a w"
proof -
  obtain e rb where nxt: "rb_Next (wal_proposalBuffer w) = Some (Inr (e, rb))" "wal_inflight w = None"
    and w': "w' = w\<lparr>wal_proposalBuffer := rb, wal_inflight := Some e\<rparr>"
    using step by (auto simp: wal_read_def split: if_splits option.splits sum.splits)
  show ?thesis
  proof (cases "rb_items (wal_proposalBuffer w)")
    case Nil
    then show ?thesis using rbq.deq_empty[OF inv] nxt(1) by simp
  next
    case (Cons y ys)
    then show ?thesis using rbq.deq_spec[OF inv Cons] nxt w' by (auto simp: in_transit_def)
  qed
qed

lemma accept_step:
  assumes ord: "is_map_order ord" and mux: "wm_open (wal_watcherMux w)"
    and a: "a < length (wm_objs (wal_watcherMux w))"
    and step: "wal_accept (NonBlockingDispatchFunc ord pick) w = Some (Inr w')"
  shows "wal_proposalBuffer w' = wal_proposalBuffer w \<and> wm_open (wal_watcherMux w') \<and>
         a < length (wm_objs (wal_watcherMux w')) \<and> subseq (in_transit a w') (in_transit a w)"
proof -
  obtain e l wm where e: "wal_inflight w = Some e"
    and wm: "NonBlockingDispatchFunc ord pick [we_Data e] (wal_watcherMux w) = Inr wm"
    and w': "w' = w\<lparr>wal_linkedList := l, wal_watcherMux := wm, wal_inflight := None\<rparr>"
    using step by (auto simp: wal_accept_def split: option.splits sum.splits)
  obtain objs where objs: "wm = (wal_watcherMux w)\<lparr>wm_objs := objs\<rparr>" "wm_open wm"
    "length objs = length (wm_objs (wal_watcherMux w))" "\<forall>i < length objs. objs ! i =
       (if i \<in> snd ` set (wm_watchers (wal_watcherMux w)) then offer [we_Data e] (wm_objs (wal_watcherMux w) ! i)
        else wm_objs (wal_watcherMux w) ! i)"
    using dispatch_open[OF ord mux, of pick "[we_Data e]"] wm by auto
  have "w_ch (objs ! a) = subscription a w \<or> w_ch (objs ! a) = subscription a w @ [[we_Data e]]"
    using objs(3,4) a by (auto simp: offer_def)
  then have "subseq (concat (w_ch (objs ! a))) (concat (subscription a w) @ [we_Data e])"
    by auto
  then have "subseq (concat (w_ch (objs ! a)) @ map we_Data (rb_items (wal_proposalBuffer w)))
      ((concat (subscription a w) @ [we_Data e]) @ map we_Data (rb_items (wal_proposalBuffer w)))"
    by (rule list_emb_append_mono) simp
  then show ?thesis using objs a by (simp add: w' in_transit_def e)
qed

lemma nth_update_frame: "g y = g (xs ! a) \<Longrightarrow> g (xs[a := y] ! b) = g (xs ! b)"
  by (cases "a < length xs"; cases "a = b") (simp_all add: list_update_beyond)

lemma receive_open:
  assumes "wm_open (wal_watcherMux w)"
  shows "wm_open (wal_watcherMux (receive a w))"
proof -
  let ?objs = "wm_objs (wal_watcherMux w)"
  let ?objs' = "?objs[a := (?objs ! a)\<lparr>w_ch := tl (subscription a w)\<rparr>]"
  have "w_chClosed (?objs' ! b) = w_chClosed (?objs ! b)" "w_doneClosed (?objs' ! b) = w_doneClosed (?objs ! b)"
    "w_once (?objs' ! b) = w_once (?objs ! b)" for b
    by (rule nth_update_frame, simp)+
  then show ?thesis using assms by (simp add: receive_def wm_open_def wm_wf_def)
qed

lemma pipeline_step_inv:
  assumes ord: "is_map_order ord" and step: "pipeline_step execute state dispatch ord a p p'"
    and inv: "pipeline_inv execute a stm0 p"
  shows "pipeline_inv execute a stm0 p'"
proof -
  obtain applied where ap: "dvds_execute execute applied stm0 = Inr (ds_stateMachine (pl_ds p))"
    "subseq (applied @ in_transit a (pl_wal p)) (pl_proposed p)"
    and rb: "rb_inv (wal_proposalBuffer (pl_wal p))" and mux: "wm_open (wal_watcherMux (pl_wal p))"
    and a: "a < length (wm_objs (wal_watcherMux (pl_wal p)))"
    using inv by (auto simp: pipeline_inv_def)
  from step show ?thesis
  proof cases
    case (propose now x w)
    have "subseq (applied @ in_transit a w) ((applied @ in_transit a (pl_wal p)) @ [x])"
      using propose_step[OF rb propose(2), of a] subseq_prefixed by fastforce
    also have "subseq \<dots> (pl_proposed p @ [x])"
      by (rule list_emb_append_mono[OF ap(2)]) simp
    finally show ?thesis
      using propose_step[OF rb propose(2), of a] ap(1) mux a propose(1) by (auto simp: pipeline_inv_def)
  next
    case (read w)
    then show ?thesis
      using read_step[OF rb read(2), of a] ap mux a by (auto simp: pipeline_inv_def)
  next
    case (accept pick w)
    have "subseq (applied @ in_transit a w) (applied @ in_transit a (pl_wal p))"
      using accept_step[OF ord mux a accept(2)] subseq_prefixed by blast
    also note ap(2)
    finally show ?thesis
      using accept_step[OF ord mux a accept(2)] ap(1) rb accept(1) by (auto simp: pipeline_inv_def)
  next
    case (deliver entries rest ds)
    have "dvds_execute execute (applied @ entries) stm0 = Inr (ds_stateMachine ds)"
      using deliver(3) ap(1)
      by (auto simp: dvds_execute_append dvds_on_commands_def split: sum.splits)
    moreover have "entries @ in_transit a (receive a (pl_wal p)) = in_transit a (pl_wal p)"
      using deliver(2) a by (simp add: in_transit_def receive_def)
    then have "subseq ((applied @ entries) @ in_transit a (receive a (pl_wal p))) (pl_proposed p)"
      using ap(2) by simp
    ultimately show ?thesis
      using deliver(1) rb a receive_open[OF mux] by (auto simp: pipeline_inv_def receive_def)
  qed
qed


text \<open>
  A snapshot does not replace the state of a replicated map: after the event loop has decoded
  it, a key that the snapshot does not have keeps its old value.
\<close>

theorem dvds_snapshot_keeps_stale_keys:
  assumes "snapshots \<noteq> []" and "marshal (last snapshots) = Inr (JVal (last snapshots))"
    and "dvds_on_snapshots marshal hashmap_Decode hashmap_State dispatch snapshots ds = Inr ds'"
    and "last snapshots k = None"
  shows "hashmap_State (ds_stateMachine ds') k = hashmap_State (ds_stateMachine ds) k"
proof -
  have "ds_stateMachine ds' = hashmap_Decode (JVal (last snapshots)) (ds_stateMachine ds)"
    using assms(1-3) by (auto simp: dvds_on_snapshots_def Let_def split: sum.splits)
  then show ?thesis
    using assms(4) by (simp add: hashmap_Decode_def hashmap_State_def map_add_def) (simp add: copyMap_def)
qed

section \<open>Witnesses\<close>

text \<open>A map of numbers with a command log whose first proposal has just been made.\<close>

abbreviation number_map :: "(nat \<times> nat, nat, nat) hashmap" where
  "number_map \<equiv> \<lparr>hm_state = Some [0 \<mapsto> 5], hm_transform = Inr\<rparr>"

abbreviation no_dispatch :: "'u \<Rightarrow> 'u watcher_mux \<Rightarrow> ('u watcher_mux) go" where
  "no_dispatch u wm \<equiv> Inr wm"


theorem dvds_snapshot_keeps_stale_keys_witness:
  "\<exists>ds'. dvds_on_snapshots (\<lambda>m. Inr (JVal m)) hashmap_Decode hashmap_State no_dispatch [[1 \<mapsto> 7]]
           (dvds_New number_map (NewWatcherMux 10)) = Inr ds' \<and>
         hashmap_State (ds_stateMachine ds') 0 = Some 5"
proof -
  let ?ds = "dvds_New number_map (NewWatcherMux 10) :: ((nat \<times> nat, nat, nat) hashmap, nat \<rightharpoonup> nat) dvds"
  obtain ds' where ds': "dvds_on_snapshots (\<lambda>m. Inr (JVal m)) hashmap_Decode hashmap_State no_dispatch
      [[1 \<mapsto> 7]] ?ds = Inr ds'"
    by (simp add: dvds_on_snapshots_def Let_def)
  from dvds_snapshot_keeps_stale_keys[OF _ _ this, of 0]
  have "hashmap_State (ds_stateMachine ds') 0 = hashmap_State (ds_stateMachine ?ds) 0" by simp
  then show ?thesis using ds' by (simp add: dvds_New_def hashmap_State_def copyMap_def)
qed

end
