(* ===== verification/Net_Util.thy ===== *)
theory Net_Util
  imports Core_Types
begin

text \<open>
  \<open>internal/util/net.go\<close> and \<open>internal/util/util.go\<close>, with what they use of the Go
  packages \<open>net\<close> and \<open>encoding/binary\<close>: \<open>net.ParseIP\<close> (dotted quads, IPv6 groups
  with one ellipsis and a trailing dotted quad), \<open>IP.To4\<close> and \<open>net.ParseMAC\<close>. An
  address is the list of its bytes, a nil slice is \<open>None\<close>.
\<close>

section \<open>The package net\<close>

definition char_in :: "nat \<Rightarrow> nat \<Rightarrow> char \<Rightarrow> bool" where
  "char_in lo hi c \<longleftrightarrow> lo \<le> of_char c \<and> of_char c \<le> hi"

definition is_digit :: "char \<Rightarrow> bool" where
  "is_digit c \<longleftrightarrow> char_in 48 57 c"

text \<open>A field of a dotted quad: one to three digits without a leading zero, at most 255.\<close>

definition parse_octet :: "string \<Rightarrow> u8 option" where
  "parse_octet s =
     (let v = foldl (\<lambda>a c. 10 * a + (of_char c - 48)) (0::nat) s
      in if s = [] \<or> \<not> list_all is_digit s \<or> (1 < length s \<and> hd s = CHR ''0'') \<or> 255 < v
         then None else Some (of_nat v))"

fun split_on :: "char \<Rightarrow> string \<Rightarrow> string list" where
  "split_on d [] = [[]]"
| "split_on d (c # cs) =
     (if c = d then [] # split_on d cs
      else (case split_on d cs of [] \<Rightarrow> [[c]] | f # fs \<Rightarrow> (c # f) # fs))"

fun all_some :: "'a option list \<Rightarrow> 'a list option" where
  "all_some [] = Some []"
| "all_some (None # _) = None"
| "all_some (Some x # xs) = map_option ((#) x) (all_some xs)"

definition parse_ipv4 :: "string \<Rightarrow> (u8 list) option" where
  "parse_ipv4 s =
     (let fs = split_on (CHR ''.'') s
      in if length fs = 4 then all_some (map parse_octet fs) else None)"

definition hex_value :: "char \<Rightarrow> nat option" where
  "hex_value c =
     (if is_digit c then Some (of_char c - 48)
      else if char_in 97 102 c then Some (of_char c - 97 + 10)
      else if char_in 65 70 c then Some (of_char c - 65 + 10)
      else None)"

definition hex_number :: "string \<Rightarrow> nat" where
  "hex_number s = foldl (\<lambda>a c. 16 * a + the (hex_value c)) 0 s"

lemma dropWhile_shorter: "c # r = dropWhile P s \<Longrightarrow> length r < length s"
  by (metis length_dropWhile_le length_Cons Suc_le_eq)

text \<open>
  The loop over the groups of an IPv6 address: the bytes read so far, the position of the
  ellipsis and the rest of the string. Each round consumes at least one character.
\<close>

function parse_groups :: "u8 list \<Rightarrow> nat option \<Rightarrow> string \<Rightarrow> (u8 list \<times> nat option) option" where
  "parse_groups ip ellipsis s =
     (if 16 \<le> length ip then (if s = [] then Some (ip, ellipsis) else None)
      else
        let digits = takeWhile (\<lambda>c. hex_value c \<noteq> None) s;
            rest = dropWhile (\<lambda>c. hex_value c \<noteq> None) s;
            acc = hex_number digits
        in if digits = [] \<or> 4 < length digits then None
           else if rest \<noteq> [] \<and> hd rest = CHR ''.'' then
             (if (ellipsis = None \<and> length ip \<noteq> 12) \<or> 16 < length ip + 4 then None
              else map_option (\<lambda>v4. (ip @ v4, ellipsis)) (parse_ipv4 s))
           else
             let ip = ip @ [of_nat (acc div 256), of_nat acc]
             in (case rest of
                   [] \<Rightarrow> Some (ip, ellipsis)
                 | c # rest' \<Rightarrow>
                     if c \<noteq> CHR '':'' \<or> rest' = [] then None
                     else if hd rest' = CHR '':'' then
                       (if ellipsis \<noteq> None then None
                        else if tl rest' = [] then Some (ip, Some (length ip))
                        else parse_groups ip (Some (length ip)) (tl rest'))
                     else parse_groups ip ellipsis rest'))"
  by pat_completeness auto
termination
proof (relation "measure (\<lambda>(ip, e, s). length s)", goal_cases)
  case 1
  then show ?case by simp
next
  case (2 ip e s digits rest acc ip' c rest')
  have "c # rest' = dropWhile (\<lambda>c. hex_value c \<noteq> None) s" using 2 by simp
  then have "length rest' < length s" by (rule dropWhile_shorter)
  then show ?case by simp
next
  case (3 ip e s digits rest acc ip' c rest')
  have "c # rest' = dropWhile (\<lambda>c. hex_value c \<noteq> None) s" using 3 by simp
  then have "length rest' < length s" by (rule dropWhile_shorter)
  then show ?case by simp
qed

definition parse_ipv6 :: "string \<Rightarrow> (u8 list) option" where
  "parse_ipv6 s =
     (let lead = (2 \<le> length s \<and> s ! 0 = CHR '':'' \<and> s ! 1 = CHR '':'');
          rest = (if lead then drop 2 s else s)
      in if lead \<and> rest = [] then Some (replicate 16 0)
         else (case parse_groups [] (if lead then Some 0 else None) rest of
                 None \<Rightarrow> None
               | Some (ip, ellipsis) \<Rightarrow>
                   if length ip < 16 then
                     (case ellipsis of
                        None \<Rightarrow> None
                      | Some e \<Rightarrow> Some (take e ip @ replicate (16 - length ip) 0 @ drop e ip))
                   else if ellipsis = None then Some ip else None))"

text \<open>\<open>ParseIP\<close> returns sixteen bytes also for an IPv4 address, and refuses a zone.\<close>

definition v4_mapped :: "u8 list \<Rightarrow> u8 list" where
  "v4_mapped v4 = replicate 10 0 @ [0xff, 0xff] @ v4"

definition ParseIP :: "string \<Rightarrow> (u8 list) option" where
  "ParseIP s =
     (case find (\<lambda>c. c = CHR ''.'' \<or> c = CHR '':'' \<or> c = CHR ''%'') s of
        None \<Rightarrow> None
      | Some c \<Rightarrow>
          if c = CHR ''.'' then map_option v4_mapped (parse_ipv4 s)
          else if c = CHR '':'' \<and> CHR ''%'' \<notin> set s then parse_ipv6 s
          else None)"

definition To4 :: "(u8 list) option \<Rightarrow> (u8 list) option" where
  "To4 ip =
     (case ip of
        None \<Rightarrow> None
      | Some b \<Rightarrow>
          if length b = 4 then Some b
          else if length b = 16 \<and> take 10 b = replicate 10 0 \<and> b ! 10 = 0xff \<and> b ! 11 = 0xff
          then Some (drop 12 b) else None)"

definition xtoi2 :: "string \<Rightarrow> u8 option" where
  "xtoi2 s = (if length s = 2 \<and> list_all (\<lambda>c. hex_value c \<noteq> None) s
              then Some (of_nat (hex_number s)) else None)"

text \<open>Groups of \<open>w\<close> characters separated by \<open>d\<close>.\<close>

definition mac_groups :: "nat \<Rightarrow> char \<Rightarrow> string \<Rightarrow> (string list) option" where
  "mac_groups w d s =
     (if (length s + 1) mod (w + 1) \<noteq> 0 then None
      else let n = (length s + 1) div (w + 1)
           in if \<forall>i < n - 1. s ! ((w + 1) * i + w) = d
              then Some (map (\<lambda>i. take w (drop ((w + 1) * i) s)) [0..<n]) else None)"

definition ParseMAC :: "string \<Rightarrow> (u8 list) option" where
  "ParseMAC s =
     (if length s < 14 then None
      else if s ! 2 = CHR '':'' \<or> s ! 2 = CHR ''-'' then
        (case mac_groups 2 (s ! 2) s of
           None \<Rightarrow> None
         | Some gs \<Rightarrow> if length gs \<in> {6, 8, 20} then all_some (map xtoi2 gs) else None)
      else if s ! 4 = CHR ''.'' then
        (case mac_groups 4 (CHR ''.'') s of
           None \<Rightarrow> None
         | Some gs \<Rightarrow>
             if 2 * length gs \<in> {6, 8, 20}
             then all_some (concat (map (\<lambda>g. [xtoi2 (take 2 g), xtoi2 (drop 2 g)]) gs)) else None)
      else None)"

section \<open>internal/util\<close>

text \<open>The byte order of the host is an argument.\<close>

definition Uint32 :: "byte_order \<Rightarrow> (u8 list) option \<Rightarrow> u32 go" where
  "Uint32 bo b =
     (case b of
        Some (b0 # b1 # b2 # b3 # _) \<Rightarrow> Inr (uint32_of_bytes bo b0 b1 b2 b3)
      | _ \<Rightarrow> Inl IndexOutOfRange)"

definition ParseIPV4ToUint32 :: "byte_order \<Rightarrow> string \<Rightarrow> (u32 \<times> err) go" where
  "ParseIPV4ToUint32 bo s =
     (let ipv4 = To4 (ParseIP s)
      in if ipv4 = None then Inr (0, Some ErrIPMustBeIPv4)
         else (case Uint32 bo ipv4 of Inl p \<Rightarrow> Inl p | Inr v \<Rightarrow> Inr (v, None)))"

definition NetIPv4ToUint32 :: "byte_order \<Rightarrow> (u8 list) option \<Rightarrow> u32 go" where
  "NetIPv4ToUint32 bo ip = Uint32 bo (To4 ip)"

definition ParseIEEE802MAC :: "string \<Rightarrow> u8 list \<times> err" where
  "ParseIEEE802MAC s =
     (case ParseMAC s of
        None \<Rightarrow> (replicate 6 0, errors_join [Some (External ''net.ParseMAC''), Some ErrParseIEEE802MAC])
      | Some mac \<Rightarrow>
          if length mac \<noteq> 6 then (replicate 6 0, Some ErrParseIEEE802MAC)
          else (map (\<lambda>i. mac ! i) [0..<6], None))"

definition ValidateUint16Port :: "int \<Rightarrow> err" where
  "ValidateUint16Port port =
     (if port < 1000 \<or> port > 65535 then Some ErrInvalidUDPLBPort else None)"

text \<open>
  An argument of type \<open>any\<close> is nil only when it has no dynamic type: a nil slice or map in
  an interface is not.
\<close>

datatype go_any = NilInterface | NilOfType | NonNil

definition AnyPtrIsNil :: "go_any list \<Rightarrow> bool" where
  "AnyPtrIsNil ptrs = (find (\<lambda>p. p = NilInterface) ptrs \<noteq> None)"

section \<open>Properties\<close>

text \<open>The dotted quad of four bytes, as \<open>net.IP.String\<close> prints it.\<close>

definition digit_char :: "nat \<Rightarrow> char" where
  "digit_char d = char_of (48 + d)"

definition print_octet :: "u8 \<Rightarrow> string" where
  "print_octet b =
     (let n = unat b
      in if n < 10 then [digit_char n]
         else if n < 100 then [digit_char (n div 10), digit_char (n mod 10)]
         else [digit_char (n div 100), digit_char (n div 10 mod 10), digit_char (n mod 10)])"

definition print_ipv4 :: "u8 \<Rightarrow> u8 \<Rightarrow> u8 \<Rightarrow> u8 \<Rightarrow> string" where
  "print_ipv4 a b c d =
     print_octet a @ ''.'' @ print_octet b @ ''.'' @ print_octet c @ ''.'' @ print_octet d"

lemma of_char_digit: "d < 10 \<Longrightarrow> of_char (digit_char d) = 48 + d"
  by (simp add: digit_char_def)

lemma digit_char_props:
  assumes "d < 10"
  shows "is_digit (digit_char d)" "digit_char d = CHR ''0'' \<longleftrightarrow> d = 0" "digit_char d \<noteq> CHR ''.''"
    "digit_char d \<noteq> CHR '':''" "digit_char d \<noteq> CHR ''%''"
proof -
  have eq: "digit_char d = c \<longleftrightarrow> 48 + d = of_char c" for c
    using of_char_digit[OF assms] by (metis of_char_eq_iff)
  show "is_digit (digit_char d)" using assms by (simp add: is_digit_def char_in_def of_char_digit)
  show "digit_char d = CHR ''0'' \<longleftrightarrow> d = 0" "digit_char d \<noteq> CHR ''.''" "digit_char d \<noteq> CHR '':''"
    "digit_char d \<noteq> CHR ''%''"
    using assms by (simp_all add: eq)
qed

lemma octet_bound: "unat (b :: u8) < 256"
  using unsigned_less[of b] by simp

lemma parse_digits:
  assumes "a < 10" and "b < 10" and "c < 10"
  shows "parse_octet [digit_char c] = Some (of_nat c)"
    and "0 < b \<Longrightarrow> parse_octet [digit_char b, digit_char c] = Some (of_nat (10 * b + c))"
    and "0 < a \<Longrightarrow> 10 * (10 * a + b) + c < 256 \<Longrightarrow>
           parse_octet [digit_char a, digit_char b, digit_char c] =
             Some (of_nat (10 * (10 * a + b) + c))"
  using assms
  by (simp_all add: parse_octet_def Let_def of_char_digit digit_char_props del: of_nat_add of_nat_mult)

lemma three_digits: "10 * (10 * (n div 100) + n div 10 mod 10) + n mod 10 = (n::nat)"
proof -
  have "n div 100 = n div 10 div 10" using div_mult2_eq[of n 10 10] by simp
  then have "10 * (n div 100) + n div 10 mod 10 = n div 10" by simp
  then show ?thesis by simp
qed

lemma parse_print_octet: "parse_octet (print_octet b) = Some b"
proof -
  let ?n = "unat b"
  have n: "?n < 256" by (rule octet_bound)
  have two: "10 * (?n div 10) + ?n mod 10 = ?n" by simp
  consider "?n < 10" | "10 \<le> ?n" "?n < 100" | "100 \<le> ?n" by linarith
  then show ?thesis
  proof cases
    case 1
    then show ?thesis by (simp add: print_octet_def parse_digits(1))
  next
    case 2
    then have "?n div 10 < 10" "0 < ?n div 10" "?n mod 10 < 10" by auto
    then show ?thesis
      using 2 parse_digits(2)[of 0 "?n div 10" "?n mod 10"] unfolding two
      by (simp add: print_octet_def Let_def)
  next
    case 3
    then have "?n div 100 < 10" "?n div 10 mod 10 < 10" "?n mod 10 < 10" "0 < ?n div 100"
      using n by auto
    then show ?thesis
      using 3 n parse_digits(3)[of "?n div 100" "?n div 10 mod 10" "?n mod 10"]
      unfolding three_digits by (simp add: print_octet_def Let_def)
  qed
qed

lemma print_octet_chars:
  "c \<in> set (print_octet b) \<Longrightarrow> c \<noteq> CHR ''.'' \<and> c \<noteq> CHR '':'' \<and> c \<noteq> CHR ''%''"
proof -
  have "unat b div 100 < 10" using octet_bound[of b] by simp
  then show "c \<in> set (print_octet b) \<Longrightarrow> ?thesis"
    by (auto simp: print_octet_def Let_def digit_char_props split: if_splits)
qed

lemma split_on_free: "d \<notin> set s \<Longrightarrow> split_on d s = [s]"
  by (induction s) auto

lemma split_on_append: "d \<notin> set s \<Longrightarrow> split_on d (s @ d # t) = s # split_on d t"
  by (induction s) auto

lemma parse_print_ipv4: "parse_ipv4 (print_ipv4 a b c d) = Some [a, b, c, d]"
proof -
  have no_dot: "CHR ''.'' \<notin> set (print_octet x)" for x using print_octet_chars by blast
  have "split_on (CHR ''.'') (print_ipv4 a b c d) =
      [print_octet a, print_octet b, print_octet c, print_octet d]"
    by (simp add: print_ipv4_def split_on_append[OF no_dot] split_on_free[OF no_dot])
  then show ?thesis by (simp add: parse_ipv4_def parse_print_octet)
qed

lemma find_first_dot: "find (\<lambda>c. c = CHR ''.'' \<or> c = CHR '':'' \<or> c = CHR ''%'') (print_ipv4 a b c d) =
    Some (CHR ''.'')"
proof -
  have "find P (s @ x # t) = Some x" if "\<And>c. c \<in> set s \<Longrightarrow> \<not> P c" "P x" for P s t and x :: char
    using that by (induction s) auto
  then show ?thesis using print_octet_chars unfolding print_ipv4_def by simp
qed

text \<open>
  C36. Parsing the dotted quad of any four bytes yields the 32-bit value of these bytes in the
  byte order of the host, with no error: \<open>ParseIPV4ToUint32\<close> inverts the printing of an IPv4
  address.
\<close>

theorem ParseIPV4ToUint32_roundtrip:
  "ParseIPV4ToUint32 bo (print_ipv4 a b c d) = Inr (uint32_of_bytes bo a b c d, None)"
proof -
  have "ParseIP (print_ipv4 a b c d) = Some (v4_mapped [a, b, c, d])"
    by (simp add: ParseIP_def find_first_dot parse_print_ipv4)
  moreover have "To4 (Some (v4_mapped [a, b, c, d])) = Some [a, b, c, d]"
    by (simp add: To4_def v4_mapped_def numeral_eq_Suc)
  ultimately show ?thesis by (simp add: ParseIPV4ToUint32_def Uint32_def)
qed

text \<open>
  \<open>ParseIEEE802MAC\<close> succeeds exactly on the strings \<open>net.ParseMAC\<close> reads as six
  bytes and then returns these bytes; on every other string it returns an error and six zero
  bytes.
\<close>

theorem ParseIEEE802MAC_six_bytes:
  "length (fst (ParseIEEE802MAC s)) = 6 \<and>
   (snd (ParseIEEE802MAC s) = None \<longleftrightarrow> (\<exists>mac. ParseMAC s = Some mac \<and> length mac = 6)) \<and>
   (\<forall>mac. ParseMAC s = Some mac \<and> length mac = 6 \<longrightarrow> fst (ParseIEEE802MAC s) = mac) \<and>
   (snd (ParseIEEE802MAC s) \<noteq> None \<longrightarrow> fst (ParseIEEE802MAC s) = replicate 6 0)"
proof -
  have "map (\<lambda>i. mac ! i) [0..<6] = mac" if "length mac = 6" for mac :: "u8 list"
    using map_nth[of mac] that by simp
  then show ?thesis
    by (auto simp: ParseIEEE802MAC_def errors_join_def split: option.splits)
qed

theorem ParseIEEE802MAC_six_bytes_witness:
  "fst (ParseIEEE802MAC ''aa:bb:cc:dd:ee:01'') = [0xaa, 0xbb, 0xcc, 0xdd, 0xee, 0x01]"
proof -
  have "ParseMAC ''aa:bb:cc:dd:ee:01'' = Some [0xaa, 0xbb, 0xcc, 0xdd, 0xee, 0x01]"
    by code_simp
  then show ?thesis using ParseIEEE802MAC_six_bytes[of "''aa:bb:cc:dd:ee:01''"] by simp
qed

end
