(* ===== verification/Bpf_Manager.thy ===== *)
theory Bpf_Manager
  imports Lifecycle Net_Util Watcher_Mux
begin

text \<open>
  \<open>internal/adapter/bpf\<close>: the manager of the BPF data structures (\<open>manager.go\<close>,
  \<open>objects.go\<close>) and the program that owns them (\<open>udplb_user.go\<close>). The data structures come
  from the package \<open>ebpfstruct\<close>, outside the repository: they are an argument, a record of
  operations on the state \<open>'k\<close> of the kernel, and \<open>double_buffered\<close> states what the manager
  relies on. A call that sends an event and awaits it is one step, because the manager runs all
  events in one worker. \<open>None\<close> is a call that never returns.
\<close>

section \<open>Objects\<close>

record backend_spec_t =
  bs_Id :: uuid
  bs_Ip :: u32
  bs_Port :: u16
  bs_Mac :: "u8 list"

type_synonym session_map = "uuid \<rightharpoonup> nat"

type_synonym 'k switchover = "'k \<Rightarrow> 'k"

record 'k bpf_objects =
  obj_BackendList_Set :: "backend_spec_t list \<Rightarrow> 'k \<Rightarrow> (go_error + 'k switchover) \<times> 'k"
  obj_LookupTable_Set :: "nat list \<Rightarrow> 'k \<Rightarrow> (go_error + 'k switchover) \<times> 'k"
  obj_SessionMap_Set :: "session_map \<Rightarrow> 'k \<Rightarrow> (go_error + 'k switchover) \<times> 'k"
  obj_SessionMap_BatchUpdate :: "session_map \<Rightarrow> 'k \<Rightarrow> err \<times> 'k"
  obj_SessionMap_BatchDelete :: "uuid list \<Rightarrow> 'k \<Rightarrow> err \<times> 'k"
  obj_AssignmentFIFO_Subscribe :: "'k \<Rightarrow> err \<times> 'k"

text \<open>
  The maps of the loaded program, by their names in the generated code, and \<open>newObjects\<close>, which
  wraps them. The constructors of \<open>ebpfstruct\<close> are arguments.
\<close>

datatype bpf_map =
    BackendListA | BackendListB | BackendListA_len | BackendListB_len
  | LookupTableA | LookupTableB | LookupTableA_len | LookupTableB_len
  | SessionMapA | SessionMapB | SessionMapA_len | SessionMapB_len
  | ActivePointer | AssignmentRingbuf

type_synonym 'a new_buffered = "bpf_map \<Rightarrow> bpf_map \<Rightarrow> bpf_map \<Rightarrow> bpf_map \<Rightarrow> bpf_map \<Rightarrow> go_error + 'a"

definition newObjects :: "'b new_buffered \<Rightarrow> 'l new_buffered \<Rightarrow> 's new_buffered \<Rightarrow> (bpf_map \<Rightarrow> go_error + 'f) \<Rightarrow>
      go_error + ('b \<times> 'l \<times> 'f \<times> 's)" where
  "newObjects newBackends newTable newSessions newFIFO =
     (case newBackends BackendListA BackendListB BackendListA_len BackendListB_len ActivePointer of
        Inl e \<Rightarrow> Inl e
      | Inr backendList \<Rightarrow>
          (case newTable LookupTableA LookupTableB LookupTableA_len LookupTableB_len ActivePointer of
             Inl e \<Rightarrow> Inl e
           | Inr lookupTable \<Rightarrow>
               (case newSessions SessionMapA SessionMapB SessionMapA_len SessionMapB_len ActivePointer of
                  Inl e \<Rightarrow> Inl e
                | Inr sessionMap \<Rightarrow>
                    (case newFIFO AssignmentRingbuf of
                       Inl e \<Rightarrow> Inl e
                     | Inr assignmentFIFO \<Rightarrow> Inr (backendList, lookupTable, assignmentFIFO, sessionMap)))))"

text \<open>
  Three structures that record the maps they are made of share the pointer to the active side and
  no other map.
\<close>

lemma newObjects_shares_pointer:
  assumes "newObjects (\<lambda>a b la lb p. Inr ([a, b, la, lb], p)) (\<lambda>a b la lb p. Inr ([a, b, la, lb], p))
             (\<lambda>a b la lb p. Inr ([a, b, la, lb], p)) Inr = Inr ((bs, p1), (ls, p2), r, (ss, p3))"
  shows "p1 = p2 \<and> p2 = p3 \<and> distinct (bs @ ls @ ss @ [p1, r])"
  using assms by (auto simp: newObjects_def)

definition transformBackend :: "byte_order \<Rightarrow> backend \<Rightarrow> backend_spec_t go" where
  "transformBackend bo b =
     (case NetIPv4ToUint32 bo (Some (spec_IP (be_Spec b))) of
        Inl p \<Rightarrow> Inl p
      | Inr ip \<Rightarrow>
          if length (spec_MacAddr (be_Spec b)) < 6 then Inl SliceToArrayConversion
          else Inr \<lparr>bs_Id = be_Id b, bs_Ip = ip, bs_Port = word_of_int (spec_Port (be_Spec b)),
                    bs_Mac = take 6 (spec_MacAddr (be_Spec b))\<rparr>)"

definition transformBackendList :: "byte_order \<Rightarrow> backend list \<Rightarrow> (backend_spec_t list) go" where
  "transformBackendList bo bs =
     foldM (\<lambda>b out. case transformBackend bo b of Inl p \<Rightarrow> Inl p | Inr s \<Rightarrow> Inr (out @ [s])) bs []"

section \<open>Events\<close>

record event_objects =
  eo_BackendList :: "backend_spec_t list"
  eo_LookupTable :: "nat list"
  eo_SessionMap :: session_map

datatype event_kind = EventKindUnknown | EventKindSet | EventKindSessionBatchUpdate | EventKindSessionBatchDelete

datatype event_value = VObjects event_objects | VUpdate session_map | VDelete "uuid list" | VOther

record event =
  ev_kind :: event_kind
  ev_set :: event_objects
  ev_sessionBatchUpdate :: session_map
  ev_sessionBatchDelete :: "uuid list"

definition no_objects :: event_objects where
  "no_objects = \<lparr>eo_BackendList = [], eo_LookupTable = [], eo_SessionMap = Map.empty\<rparr>"

definition newEvent :: "event_kind \<Rightarrow> event_value \<Rightarrow> go_error + event" where
  "newEvent kind v =
     (let e = \<lparr>ev_kind = kind, ev_set = no_objects, ev_sessionBatchUpdate = Map.empty,
               ev_sessionBatchDelete = []\<rparr>;
          invalid = Joined [ErrInvalidObjectType, ErrCreatingInternalEvent]
      in (case kind of
            EventKindUnknown \<Rightarrow> Inl (Joined [ErrUnknownEventKind, ErrCreatingInternalEvent])
          | EventKindSet \<Rightarrow>
              (case v of VObjects x \<Rightarrow> Inr (e\<lparr>ev_set := x\<rparr>) | _ \<Rightarrow> Inl invalid)
          | EventKindSessionBatchUpdate \<Rightarrow>
              (case v of VUpdate x \<Rightarrow> Inr (e\<lparr>ev_sessionBatchUpdate := x\<rparr>) | _ \<Rightarrow> Inl invalid)
          | EventKindSessionBatchDelete \<Rightarrow>
              (case v of VDelete x \<Rightarrow> Inr (e\<lparr>ev_sessionBatchDelete := x\<rparr>) | _ \<Rightarrow> Inl invalid)))"

text \<open>The three sets come first; only when all have succeeded are the switchovers run.\<close>

definition setObjects :: "'k bpf_objects \<Rightarrow> event_objects \<Rightarrow> 'k \<Rightarrow> err \<times> 'k" where
  "setObjects objs x k =
     (case obj_BackendList_Set objs (eo_BackendList x) k of
        (Inl e, k1) \<Rightarrow> (Some e, k1)
      | (Inr bSwitchover, k1) \<Rightarrow>
          (case obj_LookupTable_Set objs (eo_LookupTable x) k1 of
             (Inl e, k2) \<Rightarrow> (Some e, k2)
           | (Inr lupSwitchover, k2) \<Rightarrow>
               (case obj_SessionMap_Set objs (eo_SessionMap x) k2 of
                  (Inl e, k3) \<Rightarrow> (Some e, k3)
                | (Inr sSwitchover, k3) \<Rightarrow>
                    (None, sSwitchover (lupSwitchover (bSwitchover k3))))))"

definition handleEvent :: "'k bpf_objects \<Rightarrow> event \<Rightarrow> 'k \<Rightarrow> err \<times> 'k" where
  "handleEvent objs e k =
     (case ev_kind e of
        EventKindUnknown \<Rightarrow> (Some ErrUnknownEventKind, k)
      | EventKindSet \<Rightarrow> setObjects objs (ev_set e) k
      | EventKindSessionBatchUpdate \<Rightarrow> obj_SessionMap_BatchUpdate objs (ev_sessionBatchUpdate e) k
      | EventKindSessionBatchDelete \<Rightarrow> obj_SessionMap_BatchDelete objs (ev_sessionBatchDelete e) k)"

section \<open>The manager\<close>

text \<open>\<open>mgr_locked\<close> is a mutex that was locked and never unlocked.\<close>

record 'k ds_manager =
  mgr_kernel :: 'k
  mgr_mux :: "assignment watcher_mux"
  mgr_lc :: lifecycle
  mgr_eventClosed :: bool
  mgr_locked :: bool

definition NewDataStructureManager :: "'k \<Rightarrow> assignment watcher_mux \<Rightarrow> 'k ds_manager" where
  "NewDataStructureManager k mux =
     \<lparr>mgr_kernel = k, mgr_mux = mux, mgr_lc = lc_new, mgr_eventClosed = False, mgr_locked = False\<rparr>"

definition mgr_Run :: "'k bpf_objects \<Rightarrow> 'k ds_manager \<Rightarrow> (err \<times> 'k ds_manager) comp" where
  "mgr_Run objs mgr =
     (if mgr_locked mgr then None
      else Some (Inr
        (if lc_running (mgr_lc mgr) then (Some ErrAlreadyRunning, mgr\<lparr>mgr_locked := True\<rparr>)
         else if lc_closed (mgr_lc mgr) then (Some ErrCannotRunClosedRunnable, mgr\<lparr>mgr_locked := True\<rparr>)
         else (case obj_AssignmentFIFO_Subscribe objs (mgr_kernel mgr) of
                 (Some e, k) \<Rightarrow> (Some e, mgr\<lparr>mgr_kernel := k\<rparr>)
               | (None, k) \<Rightarrow>
                   (None, mgr\<lparr>mgr_kernel := k, mgr_lc := (mgr_lc mgr)\<lparr>lc_running := True\<rparr>\<rparr>)))))"

text \<open>
  A send on \<open>eventCh\<close> and the wait for the result. Without an event loop the unbuffered send
  blocks; on the closed channel it panics.
\<close>

definition mgr_submit :: "'k bpf_objects \<Rightarrow> event \<Rightarrow> 'k ds_manager \<Rightarrow> (err \<times> 'k ds_manager) comp" where
  "mgr_submit objs e mgr =
     (if mgr_eventClosed mgr then Some (Inl SendOnClosedChannel)
      else if \<not> lc_running (mgr_lc mgr) \<or> lc_terminate (mgr_lc mgr) then None
      else let (er, k) = handleEvent objs e (mgr_kernel mgr)
           in Some (Inr (er, mgr\<lparr>mgr_kernel := k\<rparr>)))"

definition BatchDeleteSession :: "'k bpf_objects \<Rightarrow> uuid list \<Rightarrow> 'k ds_manager \<Rightarrow>
      (err \<times> 'k ds_manager) comp" where
  "BatchDeleteSession objs batch mgr =
     (case newEvent EventKindSessionBatchDelete (VDelete batch) of
        Inl e \<Rightarrow> Some (Inr (Some e, mgr))
      | Inr ev \<Rightarrow> mgr_submit objs ev mgr)"

definition BatchUpdateSession :: "'k bpf_objects \<Rightarrow> session_map \<Rightarrow> 'k ds_manager \<Rightarrow>
      (err \<times> 'k ds_manager) comp" where
  "BatchUpdateSession objs batch mgr =
     (case newEvent EventKindSessionBatchUpdate (VUpdate batch) of
        Inl e \<Rightarrow> Some (Inr (Some e, mgr))
      | Inr ev \<Rightarrow> mgr_submit objs ev mgr)"

text \<open>
  The arguments of \<open>SetObjects\<close> are slices and a map that may be nil; passed as \<open>any\<close> a nil
  slice still has its type.
\<close>

definition any_of :: "'a option \<Rightarrow> go_any" where
  "any_of x = (case x of None \<Rightarrow> NilOfType | Some _ \<Rightarrow> NonNil)"

definition SetObjects :: "byte_order \<Rightarrow> 'k bpf_objects \<Rightarrow> (backend list) option \<Rightarrow> (nat list) option \<Rightarrow>
      session_map option \<Rightarrow> 'k ds_manager \<Rightarrow> (err \<times> 'k ds_manager) comp" where
  "SetObjects bo objs backendList lookupTable sessionMap mgr =
     (if AnyPtrIsNil [any_of backendList, any_of lookupTable, any_of sessionMap]
      then Some (Inr (Some (Joined [ErrObjectsMustNotBeNil, ErrInvalidArguments, ErrSettingObjectsDSManager]), mgr))
      else (case transformBackendList bo (case backendList of None \<Rightarrow> [] | Some bs \<Rightarrow> bs) of
              Inl p \<Rightarrow> Some (Inl p)
            | Inr specs \<Rightarrow>
                (case newEvent EventKindSet (VObjects
                    \<lparr>eo_BackendList = specs,
                     eo_LookupTable = (case lookupTable of None \<Rightarrow> [] | Some t \<Rightarrow> t),
                     eo_SessionMap = (case sessionMap of None \<Rightarrow> Map.empty | Some m \<Rightarrow> m)\<rparr>) of
                   Inl e \<Rightarrow> Some (Inr (errors_join [Some e, Some ErrSettingObjectsDSManager], mgr))
                 | Inr ev \<Rightarrow>
                     (case mgr_submit objs ev mgr of
                        None \<Rightarrow> None
                      | Some (Inl p) \<Rightarrow> Some (Inl p)
                      | Some (Inr (None, mgr')) \<Rightarrow> Some (Inr (None, mgr'))
                      | Some (Inr (Some e, mgr')) \<Rightarrow>
                          Some (Inr (errors_join [Some e, Some ErrSettingObjectsDSManager], mgr'))))))"

definition WatchAssignment :: "'k ds_manager \<Rightarrow> (nat \<times> nat) \<times> 'k ds_manager" where
  "WatchAssignment mgr = (let (h, wm) = Watch None (mgr_mux mgr) in (h, mgr\<lparr>mgr_mux := wm\<rparr>))"

text \<open>
  The event loop: an assignment from the kernel goes to the watchers; on termination the
  multiplexer is closed after the workers are done.
\<close>

definition mgr_on_assignment :: "(assignment \<Rightarrow> assignment watcher_mux \<Rightarrow> (assignment watcher_mux) go) \<Rightarrow>
      assignment \<Rightarrow> 'k ds_manager \<Rightarrow> ('k ds_manager) go" where
  "mgr_on_assignment dispatch a mgr =
     (case dispatch \<lparr>BackendId = BackendId a, SessionId = SessionId a\<rparr> (mgr_mux mgr) of
        Inl p \<Rightarrow> Inl p
      | Inr wm \<Rightarrow> Inr (mgr\<lparr>mgr_mux := wm\<rparr>))"

definition mgr_terminate :: "nat map_order \<Rightarrow> 'k ds_manager \<Rightarrow> ('k ds_manager) go" where
  "mgr_terminate ord mgr =
     (case wm_Close ord (mgr_mux mgr) of
        Inl p \<Rightarrow> Inl p
      | Inr wm \<Rightarrow>
          if lc_done (mgr_lc mgr) then Inl CloseOfClosedChannel
          else Inr (mgr\<lparr>mgr_mux := wm, mgr_lc := (mgr_lc mgr)\<lparr>lc_done := True\<rparr>\<rparr>))"

definition mgr_Close :: "nat map_order \<Rightarrow> bool \<Rightarrow> 'k ds_manager \<Rightarrow> (err \<times> 'k ds_manager) comp" where
  "mgr_Close ord graceful mgr =
     (if mgr_locked mgr then None
      else Some
       (if \<not> lc_running (mgr_lc mgr) then Inr (Some ErrRunnableMustBeRunningToBeClosed, mgr)
        else if lc_closed (mgr_lc mgr) then Inr (Some ErrAlreadyClosed, mgr)
        else if lc_terminate (mgr_lc mgr) then Inl CloseOfClosedChannel
        else
          let mgr = mgr\<lparr>mgr_lc := (mgr_lc mgr)\<lparr>lc_terminate := True\<rparr>\<rparr>
          in (case (if graceful then mgr_terminate ord mgr else Inr mgr) of
                Inl p \<Rightarrow> Inl p
              | Inr mgr' \<Rightarrow>
                  if mgr_eventClosed mgr' then Inl CloseOfClosedChannel
                  else Inr (None, mgr'\<lparr>mgr_eventClosed := True,
                         mgr_lc := (mgr_lc mgr')\<lparr>lc_running := False, lc_closed := True\<rparr>\<rparr>))))"

section \<open>The program\<close>

text \<open>
  \<open>runnable\<close> of \<open>udplb_user.go\<close>, with the manager that its \<open>Close\<close> also closes. The
  results of attaching and detaching the XDP program are arguments.
\<close>

record bpf_program =
  prog_running :: bool
  prog_doneClosed :: bool

definition prog_New :: bpf_program where
  "prog_New = \<lparr>prog_running = False, prog_doneClosed = False\<rparr>"

text \<open>
  \<open>New\<close>. \<open>load\<close> stands for the four calls that bring the generated program into the kernel
  and wrap its maps (\<open>loadUdplb\<close>, \<open>Variables.Set\<close>, \<open>LoadAndAssign\<close>, \<open>newObjects\<close>).
\<close>

record udplb_config =
  uc_Ip :: u32
  uc_Port :: u16
  uc_LookupTableSize :: nat
  uc_Mac :: "u8 list"

definition bpf_New :: "byte_order \<Rightarrow> err \<Rightarrow> (udplb_config \<Rightarrow> go_error + 'k) \<Rightarrow> u8 list \<Rightarrow> u8 list \<Rightarrow> u16 \<Rightarrow> nat \<Rightarrow>
      assignment watcher_mux \<Rightarrow> (go_error + bpf_program \<times> 'k ds_manager) go" where
  "bpf_New bo removeMemlock load hardwareAddr ip port lookupTableSize mux =
     (case removeMemlock of
        Some e \<Rightarrow> Inr (Inl (Joined [e, ErrRemovingMemlock, ErrCreatingNewBPFProgram]))
      | None \<Rightarrow>
          (case NetIPv4ToUint32 bo (Some ip) of
             Inl p \<Rightarrow> Inl p
           | Inr addr \<Rightarrow>
               if length hardwareAddr < 6 then Inl SliceToArrayConversion
               else (case load \<lparr>uc_Ip = addr, uc_Port = port, uc_LookupTableSize = lookupTableSize,
                               uc_Mac = take 6 hardwareAddr\<rparr> of
                       Inl e \<Rightarrow> Inr (Inl (Joined [e, ErrCreatingNewBPFProgram]))
                     | Inr k \<Rightarrow> Inr (Inr (prog_New, NewDataStructureManager k mux)))))"

definition prog_Run :: "err \<Rightarrow> bpf_program \<Rightarrow> err \<times> bpf_program" where
  "prog_Run attach r =
     (if prog_running r then (None, r)
      else (case attach of
              Some e \<Rightarrow> (errors_join [Some e, Some ErrRunningUdplbUserlandProgram], r)
            | None \<Rightarrow> (None, r\<lparr>prog_running := True\<rparr>)))"

definition prog_Close :: "nat map_order \<Rightarrow> bool \<Rightarrow> err \<Rightarrow> err \<Rightarrow> bpf_program \<times> 'k ds_manager \<Rightarrow>
      (err \<times> bpf_program \<times> 'k ds_manager) comp" where
  "prog_Close ord graceful linkClose objsClose w = (case w of (r, mgr) \<Rightarrow>
     if \<not> prog_running r then Some (Inr (None, w))
     else (case mgr_Close ord graceful mgr of
             None \<Rightarrow> None
           | Some (Inl p) \<Rightarrow> Some (Inl p)
           | Some (Inr (e, mgr')) \<Rightarrow>
               if prog_doneClosed r then Some (Inl CloseOfClosedChannel)
               else Some (Inr (join_err (join_err (join_err None e) linkClose) objsClose, r\<lparr>prog_doneClosed := True\<rparr>, mgr'))))"

section \<open>Translating the backends\<close>

definition is_ipv4 :: "u8 list \<Rightarrow> bool" where
  "is_ipv4 ip \<longleftrightarrow> To4 (Some ip) \<noteq> None"

lemma To4_length: "To4 (Some ip) = Some b \<Longrightarrow> length b = 4"
  by (auto simp: To4_def split: if_splits)

lemma NetIPv4ToUint32_ok: "(\<exists>v. NetIPv4ToUint32 bo (Some ip) = Inr v) \<longleftrightarrow> is_ipv4 ip"
proof (cases "To4 (Some ip)")
  case None
  then show ?thesis by (simp add: NetIPv4ToUint32_def Uint32_def is_ipv4_def)
next
  case (Some b)
  then obtain b0 b1 b2 b3 where "b = [b0, b1, b2, b3]"
    using To4_length by (force simp: numeral_eq_Suc length_Suc_conv)
  then show ?thesis using Some by (simp add: NetIPv4ToUint32_def Uint32_def is_ipv4_def)
qed

definition translatable :: "backend \<Rightarrow> bool" where
  "translatable b \<longleftrightarrow> is_ipv4 (spec_IP (be_Spec b)) \<and> 6 \<le> length (spec_MacAddr (be_Spec b))"

lemma transformBackend_ok: "(\<exists>s. transformBackend bo b = Inr s) \<longleftrightarrow> translatable b"
  using NetIPv4ToUint32_ok[of bo "spec_IP (be_Spec b)"]
  by (auto simp: transformBackend_def translatable_def split: sum.splits)

lemma transform_fold:
  assumes "\<And>b. b \<in> set bs \<Longrightarrow> transformBackend bo b = Inr (g b)"
  shows "foldM (\<lambda>b out. case transformBackend bo b of Inl p \<Rightarrow> Inl p | Inr s \<Rightarrow> Inr (out @ [s])) bs acc =
           Inr (acc @ map g bs)"
  using assms by (induction bs arbitrary: acc) auto

lemma transformBackendList_nth:
  assumes "transformBackendList bo bs = Inr out"
  shows "length out = length bs \<and> (\<forall>i < length bs. transformBackend bo (bs ! i) = Inr (out ! i))"
proof -
  have all: "\<exists>s. transformBackend bo b = Inr s" if "b \<in> set bs" for b
  proof (rule ccontr)
    assume "\<nexists>s. transformBackend bo b = Inr s"
    then have "\<exists>p. transformBackend bo b = Inl p" by (metis old.sum.exhaust)
    then have "\<exists>p. foldM (\<lambda>b out. case transformBackend bo b of Inl p \<Rightarrow> Inl p | Inr s \<Rightarrow> Inr (out @ [s])) bs acc = Inl p" for acc
      using that by (induction bs arbitrary: acc) (auto split: sum.splits)
    then show False using assms by (metis Inl_Inr_False transformBackendList_def)
  qed
  define g where "g = (\<lambda>b. projr (transformBackend bo b))"
  have g: "transformBackend bo b = Inr (g b)" if "b \<in> set bs" for b
    using all[OF that] by (auto simp: g_def)
  have "out = map g bs"
    using transform_fold[OF g, where acc = "[]"] assms by (simp add: transformBackendList_def)
  then show ?thesis using g by simp
qed

lemma transform_panics:
  assumes "b \<in> set bs" and "\<not> translatable b"
  shows "\<exists>p. transformBackendList bo bs = Inl p"
proof -
  have "\<exists>p. transformBackend bo b = Inl p"
    using transformBackend_ok[of bo b] assms(2) by (metis old.sum.exhaust)
  then have "\<exists>p. foldM (\<lambda>b out. case transformBackend bo b of Inl p \<Rightarrow> Inl p | Inr s \<Rightarrow> Inr (out @ [s])) bs acc = Inl p" for acc
    using assms(1) by (induction bs arbitrary: acc) (auto split: sum.splits)
  then show ?thesis by (simp add: transformBackendList_def)
qed

text \<open>
  The list handed to the kernel has the backends in their order: entry \<open>i\<close> carries the
  identifier of backend \<open>i\<close>, the bytes of its IPv4 address, its port modulo \<open>2 ^ 16\<close> and the
  first six bytes of its hardware address. The translation panics exactly when some backend has
  an address that is not IPv4 or a hardware address of fewer than six bytes.
\<close>

theorem transformBackendList_faithful:
  "if \<forall>b \<in> set bs. translatable b
   then \<exists>out. transformBackendList bo bs = Inr out \<and> length out = length bs \<and>
          (\<forall>i < length bs.
             bs_Id (out ! i) = be_Id (bs ! i) \<and>
             NetIPv4ToUint32 bo (Some (spec_IP (be_Spec (bs ! i)))) = Inr (bs_Ip (out ! i)) \<and>
             uint (bs_Port (out ! i)) = spec_Port (be_Spec (bs ! i)) mod 65536 \<and>
             bs_Mac (out ! i) = take 6 (spec_MacAddr (be_Spec (bs ! i))))
   else \<exists>p. transformBackendList bo bs = Inl p"
proof (cases "\<forall>b \<in> set bs. translatable b")
  case True
  define g where "g = (\<lambda>b. projr (transformBackend bo b))"
  have g: "transformBackend bo b = Inr (g b)" if "b \<in> set bs" for b
    using True that transformBackend_ok[of bo b] by (auto simp: g_def)
  have fields: "bs_Id (g b) = be_Id b \<and>
      NetIPv4ToUint32 bo (Some (spec_IP (be_Spec b))) = Inr (bs_Ip (g b)) \<and>
      uint (bs_Port (g b)) = spec_Port (be_Spec b) mod 65536 \<and>
      bs_Mac (g b) = take 6 (spec_MacAddr (be_Spec b))" if "b \<in> set bs" for b
  proof -
    note gb = g[OF that]
    obtain ip where ip: "NetIPv4ToUint32 bo (Some (spec_IP (be_Spec b))) = Inr ip"
      and spec: "g b = \<lparr>bs_Id = be_Id b, bs_Ip = ip, bs_Port = word_of_int (spec_Port (be_Spec b)),
                    bs_Mac = take 6 (spec_MacAddr (be_Spec b))\<rparr>"
      using gb by (auto simp: transformBackend_def split: sum.splits if_splits)
    show ?thesis by (simp add: spec ip uint_word_of_int)
  qed
  have "transformBackendList bo bs = Inr (map g bs)"
    using transform_fold[OF g, where acc = "[]"] by (simp add: transformBackendList_def)
  then show ?thesis using True fields by simp
next
  case False
  then show ?thesis using transform_panics by auto
qed

theorem transformBackendList_faithful_witness:
  "\<exists>p. transformBackendList LittleEndian
     [\<lparr>be_Id = 1, be_Spec = \<lparr>spec_IP = replicate 16 1, spec_Port = 9000, spec_MacAddr = [1, 2, 3, 4, 5, 6],
        spec_State = StateAvailable\<rparr>, be_Status = StateAvailable, coordinates = [0, 0, 0, 0]\<rparr>] = Inl p"
  using transformBackendList_faithful[of "[\<lparr>be_Id = 1, be_Spec = \<lparr>spec_IP = replicate 16 1,
      spec_Port = 9000, spec_MacAddr = [1, 2, 3, 4, 5, 6], spec_State = StateAvailable\<rparr>,
      be_Status = StateAvailable, coordinates = [0, 0, 0, 0]\<rparr>]" LittleEndian]
  by (simp add: translatable_def is_ipv4_def To4_def)

section \<open>Setting the objects\<close>

text \<open>
  What \<open>setObjects\<close> relies on. The three structures share one pointer to the active side of
  every pair of buffers (\<open>newObjects\<close> passes \<open>ActivePointer\<close> to each). A deferred set leaves the
  pointer and the active side alone, also when it fails; when it succeeds it has written its own
  structure on the other side, and the switchover it returns moves only the pointer: either to
  the side that was written, or to the side that is not active when it runs.
\<close>

definition deferred_set :: "('k \<Rightarrow> bool) \<Rightarrow> (bool \<Rightarrow> 'k \<Rightarrow> event_objects) \<Rightarrow> (bool \<Rightarrow> bool \<Rightarrow> bool) \<Rightarrow>
      ('v \<Rightarrow> event_objects \<Rightarrow> event_objects) \<Rightarrow> ('v \<Rightarrow> 'k \<Rightarrow> (go_error + 'k switchover) \<times> 'k) \<Rightarrow> bool" where
  "deferred_set ptr side flip put wr \<longleftrightarrow>
     (\<forall>v k r k'. wr v k = (r, k') \<longrightarrow>
        ptr k' = ptr k \<and> side (ptr k) k' = side (ptr k) k \<and>
        (\<forall>sw. r = Inr sw \<longrightarrow>
           side (\<not> ptr k) k' = put v (side (\<not> ptr k) k) \<and>
           (\<forall>m. ptr (sw m) = flip (ptr k) (ptr m) \<and> (\<forall>b. side b (sw m) = side b m))))"

definition double_buffered :: "('k \<Rightarrow> bool) \<Rightarrow> (bool \<Rightarrow> 'k \<Rightarrow> event_objects) \<Rightarrow> 'k bpf_objects \<Rightarrow> bool" where
  "double_buffered ptr side objs \<longleftrightarrow>
     (\<exists>flip \<in> {\<lambda>at_set now. \<not> at_set, \<lambda>at_set now. \<not> now}.
        deferred_set ptr side flip (\<lambda>v x. x\<lparr>eo_BackendList := v\<rparr>) (obj_BackendList_Set objs) \<and>
        deferred_set ptr side flip (\<lambda>v x. x\<lparr>eo_LookupTable := v\<rparr>) (obj_LookupTable_Set objs) \<and>
        deferred_set ptr side flip (\<lambda>v x. x\<lparr>eo_SessionMap := v\<rparr>) (obj_SessionMap_Set objs))"

text \<open>What the XDP program reads.\<close>

abbreviation active :: "('k \<Rightarrow> bool) \<Rightarrow> (bool \<Rightarrow> 'k \<Rightarrow> event_objects) \<Rightarrow> 'k \<Rightarrow> event_objects" where
  "active ptr side k \<equiv> side (ptr k) k"

lemma deferred_setD:
  assumes "deferred_set ptr side flip put wr" and "wr v k = (r, k')"
  shows "ptr k' = ptr k" and "side (ptr k) k' = side (ptr k) k"
    and "r = Inr sw \<Longrightarrow> side (\<not> ptr k) k' = put v (side (\<not> ptr k) k)"
    and "r = Inr sw \<Longrightarrow> ptr (sw m) = flip (ptr k) (ptr m)"
    and "r = Inr sw \<Longrightarrow> side b (sw m) = side b m"
  using assms unfolding deferred_set_def by blast+

lemma setObjects_atomic:
  assumes buf: "double_buffered ptr side objs" and set: "setObjects objs x k = (e, k')"
  shows "active ptr side k' = (if e = None then x else active ptr side k)"
proof -
  obtain r1 k1 where b: "obj_BackendList_Set objs (eo_BackendList x) k = (r1, k1)" by fastforce
  obtain r2 k2 where l: "obj_LookupTable_Set objs (eo_LookupTable x) k1 = (r2, k2)" by fastforce
  obtain r3 k3 where s: "obj_SessionMap_Set objs (eo_SessionMap x) k2 = (r3, k3)" by fastforce
  obtain flip where flip: "flip = (\<lambda>at_set now. \<not> at_set) \<or> flip = (\<lambda>at_set now. \<not> now)"
    and B: "deferred_set ptr side flip (\<lambda>v x. x\<lparr>eo_BackendList := v\<rparr>) (obj_BackendList_Set objs)"
    and L: "deferred_set ptr side flip (\<lambda>v x. x\<lparr>eo_LookupTable := v\<rparr>) (obj_LookupTable_Set objs)"
    and S: "deferred_set ptr side flip (\<lambda>v x. x\<lparr>eo_SessionMap := v\<rparr>) (obj_SessionMap_Set objs)"
    using buf unfolding double_buffered_def by blast
  note bp = deferred_setD[OF B b] and lp = deferred_setD[OF L l] 
    and sp = deferred_setD[where wr = "obj_SessionMap_Set objs" and v = "eo_SessionMap x", OF S s]
  have ptrs: "ptr k1 = ptr k" "ptr k2 = ptr k" "ptr k3 = ptr k"
    using bp(1) lp(1) sp(1) by simp_all
  show ?thesis
  proof (cases "\<exists>sw1 sw2 sw3. r1 = Inr sw1 \<and> r2 = Inr sw2 \<and> r3 = Inr sw3")
    case True
    then obtain sw1 sw2 sw3 where r: "r1 = Inr sw1" "r2 = Inr sw2" "r3 = Inr sw3" by blast
    then have e: "e = None" and k': "k' = sw3 (sw2 (sw1 k3))"
      using set b l s by (simp_all add: setObjects_def)
    have "side (\<not> ptr k) k3 = x"
      using bp(3)[OF r(1)] lp(3)[OF r(2)] sp(3)[OF r(3)] ptrs by simp
    moreover have "ptr k' = (\<not> ptr k)"
      using flip k' bp(4)[OF r(1)] lp(4)[OF r(2)] sp(4)[OF r(3)] ptrs by auto
    moreover have "side c k' = side c k3" for c
      using k' bp(5)[OF r(1)] lp(5)[OF r(2)] sp(5)[OF r(3)] by simp
    ultimately show ?thesis using e by simp
  next
    case False
    then have "e \<noteq> None" "k' \<in> {k1, k2, k3}"
      using set b l s by (auto simp: setObjects_def split: sum.splits)
    moreover have "active ptr side k1 = active ptr side k" "active ptr side k2 = active ptr side k"
      "active ptr side k3 = active ptr side k"
      using bp(2) lp(2) sp(2) ptrs by simp_all
    ultimately show ?thesis by auto
  qed
qed

lemma SetObjects_event:
  assumes "lc_running (mgr_lc mgr)" and "\<not> lc_terminate (mgr_lc mgr)" and "\<not> mgr_eventClosed mgr"
    and "transformBackendList bo bs = Inr specs"
    and "setObjects objs \<lparr>eo_BackendList = specs, eo_LookupTable = lt, eo_SessionMap = sm\<rparr> (mgr_kernel mgr) = (e, k')"
  shows "SetObjects bo objs (Some bs) (Some lt) (Some sm) mgr = Some (Inr
      ((if e = None then None else errors_join [e, Some ErrSettingObjectsDSManager]), mgr\<lparr>mgr_kernel := k'\<rparr>))"
  using assms
  by (cases e) (simp_all add: SetObjects_def AnyPtrIsNil_def any_of_def newEvent_def mgr_submit_def
      handleEvent_def Let_def)

lemma SetObjects_running:
  assumes "lc_running (mgr_lc mgr)" and "\<not> lc_terminate (mgr_lc mgr)" and "\<not> mgr_eventClosed mgr"
    and "transformBackendList bo bs = Inr specs"
  shows "\<exists>e k'. SetObjects bo objs (Some bs) (Some lt) (Some sm) mgr = Some (Inr (e, mgr\<lparr>mgr_kernel := k'\<rparr>))"
  using SetObjects_event[OF assms, of objs lt sm]
  by (cases "setObjects objs \<lparr>eo_BackendList = specs, eo_LookupTable = lt, eo_SessionMap = sm\<rparr> (mgr_kernel mgr)") blast

lemma SetObjects_all_or_nothing:
  assumes "double_buffered ptr side objs"
    and "lc_running (mgr_lc mgr)" and "\<not> lc_terminate (mgr_lc mgr)" and "\<not> mgr_eventClosed mgr"
    and "transformBackendList bo bs = Inr specs"
  shows "\<exists>e k'. SetObjects bo objs (Some bs) (Some lt) (Some sm) mgr =
             Some (Inr (e, mgr\<lparr>mgr_kernel := k'\<rparr>)) \<and>
           active ptr side k' = (if e = None
              then \<lparr>eo_BackendList = specs, eo_LookupTable = lt, eo_SessionMap = sm\<rparr>
              else active ptr side (mgr_kernel mgr))"
proof -
  let ?x = "\<lparr>eo_BackendList = specs, eo_LookupTable = lt, eo_SessionMap = sm\<rparr>"
  obtain e k' where s: "setObjects objs ?x (mgr_kernel mgr) = (e, k')" by fastforce
  have "errors_join [e, Some ErrSettingObjectsDSManager] \<noteq> None"
    by (simp add: errors_join_None_iff)
  then show ?thesis
    using SetObjects_event[OF assms(2-5) s] setObjects_atomic[OF assms(1) s] by auto
qed

text \<open>
  C11. \<open>SetObjects\<close> on a running manager is all or nothing, for data structures that buffer
  twice: when it returns nil, the kernel reads exactly the translated backends, the lookup table
  and the session map it was given; when it returns an error, the kernel reads what it read
  before.
\<close>

theorem SetObjects_atomic:
  assumes "double_buffered ptr side objs"
    and "lc_running (mgr_lc mgr)" and "\<not> lc_terminate (mgr_lc mgr)" and "\<not> mgr_eventClosed mgr"
    and "transformBackendList bo bs = Inr specs"
  shows "\<exists>e k'. SetObjects bo objs (Some bs) (Some lt) (Some sm) mgr =
             Some (Inr (e, mgr\<lparr>mgr_kernel := k'\<rparr>)) \<and>
           active ptr side k' = (if e = None
              then \<lparr>eo_BackendList = specs, eo_LookupTable = lt, eo_SessionMap = sm\<rparr>
              else active ptr side (mgr_kernel mgr))"
  using SetObjects_all_or_nothing[OF assms] .

text \<open>A kernel with one pointer and two sides, in which no set fails.\<close>

type_synonym two_sides = "bool \<times> (bool \<Rightarrow> event_objects)"

definition put_passive :: "(event_objects \<Rightarrow> event_objects) \<Rightarrow> two_sides \<Rightarrow>
      (go_error + two_sides switchover) \<times> two_sides" where
  "put_passive f k = (case k of (p, s) \<Rightarrow> (Inr (\<lambda>(_, t). (\<not> p, t)), (p, s(\<not> p := f (s (\<not> p))))))"

definition two_copies :: "two_sides bpf_objects" where
  "two_copies =
     \<lparr>obj_BackendList_Set = (\<lambda>v. put_passive (\<lambda>x. x\<lparr>eo_BackendList := v\<rparr>)),
      obj_LookupTable_Set = (\<lambda>v. put_passive (\<lambda>x. x\<lparr>eo_LookupTable := v\<rparr>)),
      obj_SessionMap_Set = (\<lambda>v. put_passive (\<lambda>x. x\<lparr>eo_SessionMap := v\<rparr>)),
      obj_SessionMap_BatchUpdate = (\<lambda>m (p, s).
          (None, (p, s(p := (s p)\<lparr>eo_SessionMap := eo_SessionMap (s p) ++ m\<rparr>)))),
      obj_SessionMap_BatchDelete = (\<lambda>ks (p, s).
          (None, (p, s(p := (s p)\<lparr>eo_SessionMap := eo_SessionMap (s p) |` (- set ks)\<rparr>)))),
      obj_AssignmentFIFO_Subscribe = (\<lambda>k. (None, k))\<rparr>"

abbreviation side_of :: "bool \<Rightarrow> two_sides \<Rightarrow> event_objects" where
  "side_of b k \<equiv> snd k b"

lemma put_passive_deferred:
  "deferred_set fst side_of (\<lambda>at_set now. \<not> at_set) (\<lambda>v. f v) (\<lambda>v. put_passive (f v))"
  by (auto simp: deferred_set_def put_passive_def split: prod.splits)

lemma two_copies_buffered: "double_buffered fst side_of two_copies"
  unfolding double_buffered_def two_copies_def
  by (rule bexI[of _ "\<lambda>at_set now. \<not> at_set"]) (simp_all add: put_passive_deferred)

lemma two_copies_accepts: "\<exists>k'. setObjects two_copies x k = (None, k')"
  by (simp add: setObjects_def two_copies_def put_passive_def split: prod.splits)

abbreviation empty_kernel :: two_sides where
  "empty_kernel \<equiv> (False, \<lambda>_. no_objects)"

abbreviation running_manager :: "two_sides ds_manager" where
  "running_manager \<equiv>
     (NewDataStructureManager empty_kernel (NewWatcherMux 10))\<lparr>mgr_lc := lc_new\<lparr>lc_running := True\<rparr>\<rparr>"

theorem SetObjects_atomic_witness:
  "\<exists>e k'. SetObjects LittleEndian two_copies (Some []) (Some [0, 1]) (Some [5 \<mapsto> 1]) running_manager =
       Some (Inr (e, running_manager\<lparr>mgr_kernel := k'\<rparr>)) \<and>
     active fst side_of k' = (if e = None
        then \<lparr>eo_BackendList = [], eo_LookupTable = [0, 1], eo_SessionMap = [5 \<mapsto> 1]\<rparr>
        else no_objects)"
proof -
  have "lc_running (mgr_lc running_manager)" "\<not> lc_terminate (mgr_lc running_manager)"
    "\<not> mgr_eventClosed running_manager" "transformBackendList LittleEndian [] = Inr []"
    and "active fst side_of (mgr_kernel running_manager) = no_objects"
    by (simp_all add: NewDataStructureManager_def lc_new_def transformBackendList_def)
  then show ?thesis
    using SetObjects_atomic[OF two_copies_buffered, of running_manager LittleEndian "[]" "[]" "[0, 1]" "[5 \<mapsto> 1]"]
    by metis
qed

text \<open>
  The nil check of \<open>SetObjects\<close> never fires: a call with three nil arguments goes through
  to the kernel like a call with empty ones.
\<close>

theorem SetObjects_accepts_nil:
  "SetObjects bo objs None None None mgr = SetObjects bo objs (Some []) (Some []) (Some Map.empty) mgr"
  by (simp add: SetObjects_def AnyPtrIsNil_def any_of_def transformBackendList_def)

section \<open>The life cycle of the manager\<close>

text \<open>
  A second \<open>Run\<close> of a running manager returns \<open>ErrAlreadyRunning\<close> without unlocking
  the mutex: from then on every call of \<open>Run\<close> and of \<open>Close\<close> waits forever.
\<close>

theorem mgr_Run_twice_deadlocks:
  assumes "\<not> mgr_locked mgr" and "lc_running (mgr_lc mgr)"
  shows "\<exists>mgr'. mgr_Run objs mgr = Some (Inr (Some ErrAlreadyRunning, mgr')) \<and>
           mgr_Run objs mgr' = None \<and> mgr_Close ord graceful mgr' = None"
  using assms by (simp add: mgr_Run_def mgr_Close_def)

theorem mgr_Run_twice_deadlocks_witness:
  "\<exists>mgr'. mgr_Run two_copies running_manager = Some (Inr (Some ErrAlreadyRunning, mgr')) \<and>
     mgr_Run two_copies mgr' = None \<and> mgr_Close rev True mgr' = None"
  using mgr_Run_twice_deadlocks[of running_manager two_copies rev True]
  by (simp add: NewDataStructureManager_def)

text \<open>The manager in its normal life: open channels until it is closed.\<close>

definition mgr_wf :: "'k ds_manager \<Rightarrow> bool" where
  "mgr_wf mgr \<longleftrightarrow>
     \<not> mgr_locked mgr \<and> lc_wf (mgr_lc mgr) \<and> (mgr_eventClosed mgr \<longleftrightarrow> lc_closed (mgr_lc mgr)) \<and>
     (\<not> lc_closed (mgr_lc mgr) \<longrightarrow>
        wm_open (mgr_mux mgr) \<and> \<not> wm_doneClosed (mgr_mux mgr) \<and> \<not> lc_done (mgr_lc mgr))"

lemma mgr_Close_running:
  assumes "is_map_order ord" and "mgr_wf mgr" and "lc_running (mgr_lc mgr)"
  shows "\<exists>mgr'. mgr_Close ord graceful mgr = Some (Inr (None, mgr')) \<and> mgr_wf mgr' \<and>
           lc_closed (mgr_lc mgr') \<and> \<not> lc_running (mgr_lc mgr')"
proof -
  have lc: "\<not> lc_closed (mgr_lc mgr)" "\<not> lc_terminate (mgr_lc mgr)" "\<not> lc_done (mgr_lc mgr)"
    and mux: "wm_open (mgr_mux mgr)" "\<not> wm_doneClosed (mgr_mux mgr)"
    and st: "\<not> mgr_locked mgr" "\<not> mgr_eventClosed mgr"
    using assms(2,3) by (auto simp: mgr_wf_def lc_wf_def)
  obtain wm where "wm_Close ord (mgr_mux mgr) = Inr wm"
    using wm_Close_open[OF assms(1) mux] by blast
  then show ?thesis
    using assms(3) lc st by (auto simp: mgr_Close_def mgr_terminate_def mgr_wf_def lc_wf_def Let_def)
qed

text \<open>
  After a running manager has been closed, \<open>SetObjects\<close> with backends that can be
  translated panics with a send on a closed channel instead of returning an error.
\<close>

theorem SetObjects_after_close_panics:
  assumes "is_map_order ord" and "mgr_wf mgr" and "lc_running (mgr_lc mgr)" and "\<forall>b \<in> set bs. translatable b"
  shows "\<exists>mgr'. mgr_Close ord graceful mgr = Some (Inr (None, mgr')) \<and>
           SetObjects bo objs (Some bs) (Some lt) (Some sm) mgr' = Some (Inl SendOnClosedChannel)"
proof -
  obtain mgr' where mgr': "mgr_Close ord graceful mgr = Some (Inr (None, mgr'))" "mgr_eventClosed mgr'"
    using mgr_Close_running[OF assms(1-3)] by (auto simp: mgr_wf_def)
  have "\<exists>specs. transformBackendList bo bs = Inr specs"
  proof -
    have "transformBackend bo b = Inr (projr (transformBackend bo b))" if "b \<in> set bs" for b
      using assms(4) that transformBackend_ok[of bo b] by auto
    from transform_fold[OF this, where acc = "[]"] show ?thesis by (simp add: transformBackendList_def)
  qed
  then show ?thesis
    using mgr' by (auto simp: SetObjects_def AnyPtrIsNil_def any_of_def newEvent_def mgr_submit_def Let_def)
qed

lemma running_manager_wf: "mgr_wf running_manager"
  using NewWatcherMux_open[where ?'a = assignment, of 10]
  by (simp add: mgr_wf_def lc_wf_def lc_new_def NewDataStructureManager_def NewWatcherMux_def)

theorem SetObjects_after_close_panics_witness:
  "\<exists>mgr'. mgr_Close rev True running_manager = Some (Inr (None, mgr')) \<and>
     SetObjects BigEndian two_copies (Some []) (Some []) (Some Map.empty) mgr' = Some (Inl SendOnClosedChannel)"
  using SetObjects_after_close_panics[OF map_order_rev running_manager_wf, of "[]"]
  by (simp add: NewDataStructureManager_def)

end
