(* ===== verification/Monitor.thy ===== *)
theory Monitor
  imports Lifecycle Net_Util Watcher_Mux
begin

text \<open>
  \<open>internal/adapter/monitor\<close>: the health monitor that probes every backend at each tick
  (\<open>backend_state.go\<close>), the listener for assignments of other nodes
  (\<open>remote_assignment.go\<close>) and the one-shot source of the configured backends
  (\<open>backend_spec_map.go\<close>). The sockets are arguments: what a probe meets, what a read returns.
  \<open>uuid.NewSHA1\<close> is an argument too.
\<close>

section \<open>Probing the backends\<close>

record backend_monitor =
  bm_backends :: "(uuid \<times> backend_spec) list"
  bm_watcherMux :: "backend_status_entry watcher_mux"
  bm_lc :: lifecycle

definition NewBackendState :: "(uuid \<times> backend_spec) list \<Rightarrow> backend_status_entry watcher_mux \<Rightarrow>
      backend_monitor" where
  "NewBackendState backends mux = \<lparr>bm_backends = backends, bm_watcherMux = mux, bm_lc = lc_new\<rparr>"

definition probePayload :: "u8 list" where
  "probePayload =
     [0x44, 0x49, 0x55, 0x55,
      0x00, 0x00, 0x00, 0x00, 0x00, 0x00, 0x00, 0x00,
      0x00, 0x00, 0x00, 0x00, 0x00, 0x00, 0x00, 0x00]"

text \<open>What the network does with a probe of a backend: the errors of the four calls.\<close>

record probe_env =
  env_dial :: err
  env_deadline :: err
  env_write :: "u8 list \<Rightarrow> err"
  env_read :: "u8 list \<Rightarrow> err"

definition probe :: "(backend_spec \<Rightarrow> probe_env) \<Rightarrow> backend_spec \<Rightarrow> State" where
  "probe net spec =
     (if env_dial (net spec) \<noteq> None then StateUnavailable
      else if env_deadline (net spec) \<noteq> None then StateUnavailable
      else if env_write (net spec) probePayload \<noteq> None then StateUnavailable
      else if env_read (net spec) probePayload \<noteq> None then StateUnavailable
      else StateAvailable)"

definition bm_Run :: "backend_monitor \<Rightarrow> (err \<times> backend_monitor) comp" where
  "bm_Run b = Some (Inr
     (if lc_running (bm_lc b) then (Some ErrAlreadyRunning, b)
      else if lc_closed (bm_lc b) then (Some ErrCannotRunClosedRunnable, b)
      else (None, b\<lparr>bm_lc := (bm_lc b)\<lparr>lc_running := True\<rparr>\<rparr>)))"

text \<open>One tick of \<open>healthCheckLoop\<close>: the map of the backends is visited in the order \<open>ord\<close>.\<close>

definition bm_tick :: "(uuid \<times> backend_spec) map_order \<Rightarrow> (backend_spec \<Rightarrow> probe_env) \<Rightarrow>
      (backend_status_entry \<Rightarrow> backend_status_entry watcher_mux \<Rightarrow> (backend_status_entry watcher_mux) go) \<Rightarrow>
      backend_monitor \<Rightarrow> backend_monitor go" where
  "bm_tick ord net dispatch b =
     (case foldM (\<lambda>(i, spec). dispatch \<lparr>entry_BackendId = i, entry_State = probe net spec\<rparr>)
             (ord (bm_backends b)) (bm_watcherMux b) of
        Inl p \<Rightarrow> Inl p
      | Inr mux \<Rightarrow> Inr (b\<lparr>bm_watcherMux := mux\<rparr>))"

definition bm_Watch :: "backend_monitor \<Rightarrow> (nat \<times> nat) \<times> backend_monitor" where
  "bm_Watch b = (let (h, wm) = Watch None (bm_watcherMux b) in (h, b\<lparr>bm_watcherMux := wm\<rparr>))"

definition bm_terminate :: "nat map_order \<Rightarrow> backend_monitor \<Rightarrow> backend_monitor go" where
  "bm_terminate ord b =
     (case wm_Close ord (bm_watcherMux b) of
        Inl p \<Rightarrow> Inl p
      | Inr wm \<Rightarrow>
          if lc_done (bm_lc b) then Inl CloseOfClosedChannel
          else Inr (b\<lparr>bm_watcherMux := wm, bm_lc := (bm_lc b)\<lparr>lc_done := True\<rparr>\<rparr>))"

definition bm_Close :: "nat map_order \<Rightarrow> bool \<Rightarrow> backend_monitor \<Rightarrow> (err \<times> backend_monitor) comp" where
  "bm_Close ord graceful b = Some
     (if \<not> lc_running (bm_lc b) then Inr (Some ErrRunnableMustBeRunningToBeClosed, b)
      else if lc_closed (bm_lc b) then Inr (Some ErrAlreadyClosed, b)
      else if lc_terminate (bm_lc b) then Inl CloseOfClosedChannel
      else
        let b = b\<lparr>bm_lc := (bm_lc b)\<lparr>lc_terminate := True\<rparr>\<rparr>
        in (case (if graceful then bm_terminate ord b else Inr b) of
              Inl p \<Rightarrow> Inl p
            | Inr b' \<Rightarrow>
                Inr (None, b'\<lparr>bm_lc := (bm_lc b')\<lparr>lc_running := False, lc_closed := True\<rparr>\<rparr>)))"

section \<open>Assignments of other nodes\<close>

record remote_assignment =
  ra_watcherMux :: "assignment watcher_mux"
  ra_conn :: bool
  ra_lc :: lifecycle

definition NewRemoteAssignment :: "assignment watcher_mux \<Rightarrow> remote_assignment" where
  "NewRemoteAssignment mux = \<lparr>ra_watcherMux = mux, ra_conn = False, ra_lc = lc_new\<rparr>"

definition ra_Run :: "err \<Rightarrow> remote_assignment \<Rightarrow> (err \<times> remote_assignment) comp" where
  "ra_Run listenErr r = Some (Inr
     (if lc_running (ra_lc r) then (Some ErrAlreadyRunning, r)
      else if lc_closed (ra_lc r) then (Some ErrCannotRunClosedRunnable, r)
      else (case listenErr of
              Some e \<Rightarrow> (Some e, r)
            | None \<Rightarrow> (None, r\<lparr>ra_conn := True, ra_lc := (ra_lc r)\<lparr>lc_running := True\<rparr>\<rparr>))))"

text \<open>What a read of the socket returns, and one turn of \<open>recvLoop\<close> on it.\<close>

datatype read_result = ReadTimeout | ReadError | ReadBytes "u8 list"

definition ra_receive :: "(u8 list \<Rightarrow> go_error + assignment) \<Rightarrow>
      (assignment \<Rightarrow> assignment watcher_mux \<Rightarrow> (assignment watcher_mux) go) \<Rightarrow> read_result \<Rightarrow>
      remote_assignment \<Rightarrow> remote_assignment go" where
  "ra_receive unmarshal dispatch res r =
     (case res of
        ReadTimeout \<Rightarrow> Inr r
      | ReadError \<Rightarrow> Inr r
      | ReadBytes bytes \<Rightarrow>
          if bytes = [] then Inr r
          else (case unmarshal bytes of
                  Inl _ \<Rightarrow> Inr r
                | Inr a \<Rightarrow> (case dispatch a (ra_watcherMux r) of
                             Inl p \<Rightarrow> Inl p
                           | Inr wm \<Rightarrow> Inr (r\<lparr>ra_watcherMux := wm\<rparr>))))"

definition ra_Watch :: "remote_assignment \<Rightarrow> (nat \<times> nat) \<times> remote_assignment" where
  "ra_Watch r = (let (h, wm) = Watch None (ra_watcherMux r) in (h, r\<lparr>ra_watcherMux := wm\<rparr>))"

definition ra_terminate :: "nat map_order \<Rightarrow> remote_assignment \<Rightarrow> remote_assignment go" where
  "ra_terminate ord r =
     (case wm_Close ord (ra_watcherMux r) of
        Inl p \<Rightarrow> Inl p
      | Inr wm \<Rightarrow>
          if lc_done (ra_lc r) then Inl CloseOfClosedChannel
          else Inr (r\<lparr>ra_watcherMux := wm, ra_lc := (ra_lc r)\<lparr>lc_done := True\<rparr>\<rparr>))"

definition ra_Close :: "nat map_order \<Rightarrow> bool \<Rightarrow> remote_assignment \<Rightarrow> (err \<times> remote_assignment) comp" where
  "ra_Close ord graceful r = Some
     (if \<not> lc_running (ra_lc r) then Inr (Some ErrRunnableMustBeRunningToBeClosed, r)
      else if lc_closed (ra_lc r) then Inr (Some ErrAlreadyClosed, r)
      else if lc_terminate (ra_lc r) then Inl CloseOfClosedChannel
      else
        let r = r\<lparr>ra_conn := False, ra_lc := (ra_lc r)\<lparr>lc_terminate := True\<rparr>\<rparr>
        in (case (if graceful then ra_terminate ord r else Inr r) of
              Inl p \<Rightarrow> Inl p
            | Inr r' \<Rightarrow>
                Inr (None, r'\<lparr>ra_lc := (ra_lc r')\<lparr>lc_running := False, lc_closed := True\<rparr>\<rparr>)))"

section \<open>The configured backends\<close>

record backend_spec_list =
  bsl_specMap :: "uuid \<rightharpoonup> backend_spec"
  bsl_watcherMux :: "(uuid \<rightharpoonup> backend_spec) watcher_mux"
  bsl_dispatched :: bool
  bsl_terminate :: bool
  bsl_done :: bool

text \<open>The name \<open>IP:port\<close> from which a backend's identifier is derived.\<close>

fun show_nat :: "nat \<Rightarrow> string" where
  "show_nat n = (if n < 10 then [digit_char n] else show_nat (n div 10) @ [digit_char (n mod 10)])"

definition show_int :: "int \<Rightarrow> string" where
  "show_int i = (if i < 0 then ''-'' @ show_nat (nat (- i)) else show_nat (nat i))"

definition backend_name :: "backend_config \<Rightarrow> string" where
  "backend_name bc = cfg_IP bc @ '':'' @ show_int (cfg_Port bc)"

definition parse_backend_spec :: "backend_config \<Rightarrow> backend_spec option" where
  "parse_backend_spec bc =
     (case ParseIP (cfg_IP bc) of
        None \<Rightarrow> None
      | Some ip \<Rightarrow>
          (case ParseMAC (cfg_MAC bc) of
             None \<Rightarrow> None
           | Some mac \<Rightarrow>
               Some \<lparr>spec_IP = ip, spec_Port = cfg_Port bc, spec_MacAddr = mac, spec_State = StateAvailable\<rparr>))"

definition NewBackendSpecList :: "(uuid_namespace \<Rightarrow> string \<Rightarrow> uuid) \<Rightarrow> config \<Rightarrow> (uuid \<rightharpoonup> backend_spec) watcher_mux \<Rightarrow>
      backend_spec_list" where
  "NewBackendSpecList newSHA1 config mux =
     \<lparr>bsl_specMap = fold (\<lambda>bc m.
          if \<not> cfg_Enabled bc then m
          else (case parse_backend_spec bc of
                  None \<Rightarrow> m
                | Some spec \<Rightarrow> m(newSHA1 NameSpaceDNS (backend_name bc) \<mapsto> spec))) (conf_Backends config) Map.empty,
      bsl_watcherMux = mux, bsl_dispatched = False, bsl_terminate = False, bsl_done = False\<rparr>"

text \<open>The first \<open>Watch\<close> dispatches the map, in a goroutine that the model runs at once.\<close>

definition bsl_Watch :: "((uuid \<rightharpoonup> backend_spec) \<Rightarrow> (uuid \<rightharpoonup> backend_spec) watcher_mux \<Rightarrow>
      ((uuid \<rightharpoonup> backend_spec) watcher_mux) go) \<Rightarrow> backend_spec_list \<Rightarrow> ((nat \<times> nat) \<times> backend_spec_list) go" where
  "bsl_Watch dispatch b =
     (let (h, wm) = Watch None (bsl_watcherMux b);
          b = b\<lparr>bsl_watcherMux := wm\<rparr>
      in if bsl_dispatched b then Inr (h, b)
         else (case dispatch (bsl_specMap b) (bsl_watcherMux b) of
                 Inl p \<Rightarrow> Inl p
               | Inr wm' \<Rightarrow> Inr (h, b\<lparr>bsl_watcherMux := wm', bsl_dispatched := True\<rparr>)))"

definition bsl_Close :: "nat map_order \<Rightarrow> backend_spec_list \<Rightarrow> (err \<times> backend_spec_list) go" where
  "bsl_Close ord b =
     (if bsl_terminate b then Inl CloseOfClosedChannel
      else (case wm_Close ord (bsl_watcherMux b) of
              Inl p \<Rightarrow> Inl p
            | Inr wm \<Rightarrow>
                if bsl_done b then Inl CloseOfClosedChannel
                else Inr (None, b\<lparr>bsl_watcherMux := wm, bsl_terminate := True, bsl_done := True\<rparr>)))"

section \<open>Life cycles\<close>

definition bm_wf :: "backend_monitor \<Rightarrow> bool" where
  "bm_wf b \<longleftrightarrow>
     lc_wf (bm_lc b) \<and>
     (\<not> lc_closed (bm_lc b) \<longrightarrow>
        wm_open (bm_watcherMux b) \<and> \<not> wm_doneClosed (bm_watcherMux b) \<and> \<not> lc_done (bm_lc b))"

lemma bm_Close_running:
  assumes "is_map_order ord" and "bm_wf b" and "lc_running (bm_lc b)"
  shows "\<exists>b'. bm_Close ord graceful b = Some (Inr (None, b')) \<and> bm_wf b' \<and> lc_closed (bm_lc b')"
proof -
  have lc: "\<not> lc_closed (bm_lc b)" "\<not> lc_terminate (bm_lc b)" "\<not> lc_done (bm_lc b)"
    and mux: "wm_open (bm_watcherMux b)" "\<not> wm_doneClosed (bm_watcherMux b)"
    using assms(2,3) by (auto simp: bm_wf_def lc_wf_def)
  obtain wm where "wm_Close ord (bm_watcherMux b) = Inr wm"
    using wm_Close_open[OF assms(1) mux] by blast
  then show ?thesis
    using assms(3) lc by (auto simp: bm_Close_def bm_terminate_def bm_wf_def lc_wf_def Let_def)
qed

interpretation bm_life: runnable bm_Run "bm_Close ord graceful"
  "\<lambda>b. lc_running (bm_lc b)" "\<lambda>b. lc_closed (bm_lc b)" "\<lambda>b. is_map_order ord \<and> bm_wf b"
  for ord graceful
proof
  fix b
  assume wf: "is_map_order ord \<and> bm_wf b"
  show "\<not> (lc_running (bm_lc b) \<and> lc_closed (bm_lc b))"
    using wf by (simp add: bm_wf_def lc_wf_def)
  show "lc_running (bm_lc b) \<Longrightarrow> bm_Run b = Some (Inr (Some ErrAlreadyRunning, b))"
    by (simp add: bm_Run_def)
  show "lc_closed (bm_lc b) \<Longrightarrow> bm_Run b = Some (Inr (Some ErrCannotRunClosedRunnable, b))"
    using wf by (auto simp: bm_Run_def bm_wf_def lc_wf_def)
  show "\<not> lc_running (bm_lc b) \<Longrightarrow> \<not> lc_closed (bm_lc b) \<Longrightarrow>
      (\<exists>s'. bm_Run b = Some (Inr (None, s')) \<and> (is_map_order ord \<and> bm_wf s') \<and> lc_running (bm_lc s')) \<or>
      (\<exists>e. bm_Run b = Some (Inr (Some e, b)))"
    using wf by (auto simp: bm_Run_def bm_wf_def lc_wf_def)
  show "lc_running (bm_lc b) \<Longrightarrow>
      \<exists>s'. bm_Close ord graceful b = Some (Inr (None, s')) \<and> (is_map_order ord \<and> bm_wf s') \<and>
           lc_closed (bm_lc s')"
    using bm_Close_running wf by blast
  show "\<not> lc_running (bm_lc b) \<Longrightarrow> \<exists>e. bm_Close ord graceful b = Some (Inr (Some e, b))"
    by (simp add: bm_Close_def)
qed

definition ra_wf :: "remote_assignment \<Rightarrow> bool" where
  "ra_wf r \<longleftrightarrow>
     lc_wf (ra_lc r) \<and>
     (\<not> lc_closed (ra_lc r) \<longrightarrow>
        wm_open (ra_watcherMux r) \<and> \<not> wm_doneClosed (ra_watcherMux r) \<and> \<not> lc_done (ra_lc r))"

lemma ra_Close_running:
  assumes "is_map_order ord" and "ra_wf r" and "lc_running (ra_lc r)"
  shows "\<exists>r'. ra_Close ord graceful r = Some (Inr (None, r')) \<and> ra_wf r' \<and> lc_closed (ra_lc r')"
proof -
  have lc: "\<not> lc_closed (ra_lc r)" "\<not> lc_terminate (ra_lc r)" "\<not> lc_done (ra_lc r)"
    and mux: "wm_open (ra_watcherMux r)" "\<not> wm_doneClosed (ra_watcherMux r)"
    using assms(2,3) by (auto simp: ra_wf_def lc_wf_def)
  obtain wm where "wm_Close ord (ra_watcherMux r) = Inr wm"
    using wm_Close_open[OF assms(1) mux] by blast
  then show ?thesis
    using assms(3) lc by (auto simp: ra_Close_def ra_terminate_def ra_wf_def lc_wf_def Let_def)
qed

interpretation ra_life: runnable "ra_Run listenErr" "ra_Close ord graceful"
  "\<lambda>r. lc_running (ra_lc r)" "\<lambda>r. lc_closed (ra_lc r)" "\<lambda>r. is_map_order ord \<and> ra_wf r"
  for listenErr ord graceful
proof
  fix r
  assume wf: "is_map_order ord \<and> ra_wf r"
  show "\<not> (lc_running (ra_lc r) \<and> lc_closed (ra_lc r))"
    using wf by (simp add: ra_wf_def lc_wf_def)
  show "lc_running (ra_lc r) \<Longrightarrow> ra_Run listenErr r = Some (Inr (Some ErrAlreadyRunning, r))"
    by (simp add: ra_Run_def)
  show "lc_closed (ra_lc r) \<Longrightarrow> ra_Run listenErr r = Some (Inr (Some ErrCannotRunClosedRunnable, r))"
    using wf by (auto simp: ra_Run_def ra_wf_def lc_wf_def)
  show "\<not> lc_running (ra_lc r) \<Longrightarrow> \<not> lc_closed (ra_lc r) \<Longrightarrow>
      (\<exists>s'. ra_Run listenErr r = Some (Inr (None, s')) \<and> (is_map_order ord \<and> ra_wf s') \<and> lc_running (ra_lc s')) \<or>
      (\<exists>e. ra_Run listenErr r = Some (Inr (Some e, r)))"
    using wf by (cases listenErr) (auto simp: ra_Run_def ra_wf_def lc_wf_def)
  show "lc_running (ra_lc r) \<Longrightarrow>
      \<exists>s'. ra_Close ord graceful r = Some (Inr (None, s')) \<and> (is_map_order ord \<and> ra_wf s') \<and>
           lc_closed (ra_lc s')"
    using ra_Close_running wf by blast
  show "\<not> lc_running (ra_lc r) \<Longrightarrow> \<exists>e. ra_Close ord graceful r = Some (Inr (Some e, r))"
    by (simp add: ra_Close_def)
qed

section \<open>What the watchers see\<close>

lemma foldM_dispatch_map:
  "foldM (\<lambda>x. dispatch (f x)) xs s = foldM dispatch (map f xs) s"
  by (induction xs arbitrary: s) (auto split: sum.splits)

text \<open>
  A tick of the health monitor offers its watchers one entry for every backend, no more and no
  less, with the state the probe found; whatever the order in which the map is visited, a watcher
  with room for them and no filter receives a permutation of these entries.
\<close>

theorem bm_tick_reports_all:
  assumes "is_map_order ord" and "is_map_order ord'" and "wm_open (bm_watcherMux b)"
    and "(i, a) \<in> set (wm_watchers (bm_watcherMux b))"
    and "w_ch (wm_objs (bm_watcherMux b) ! a) = []" and "w_filter (wm_objs (bm_watcherMux b) ! a) = None"
    and "length (bm_backends b) \<le> w_cap (wm_objs (bm_watcherMux b) ! a)"
  shows "\<exists>b'. bm_tick ord net (NonBlockingDispatchFunc ord' pick) b = Inr b' \<and>
           mset (w_ch (wm_objs (bm_watcherMux b') ! a)) =
             mset (map (\<lambda>(i, spec). \<lparr>entry_BackendId = i, entry_State = probe net spec\<rparr>) (bm_backends b))"
proof -
  let ?f = "\<lambda>(i, spec). \<lparr>entry_BackendId = i, entry_State = probe net spec\<rparr>"
  let ?es = "map ?f (ord (bm_backends b))"
  have m: "mset (ord (bm_backends b)) = mset (bm_backends b)"
    using assms(1) by (simp add: is_map_order_def)
  then have len: "length ?es = length (bm_backends b)" by (metis length_map size_mset)
  obtain objs where objs: "foldM (NonBlockingDispatchFunc ord' pick) ?es (bm_watcherMux b) =
      Inr ((bm_watcherMux b)\<lparr>wm_objs := objs\<rparr>)" "length objs = length (wm_objs (bm_watcherMux b))"
    "\<forall>i < length objs. objs ! i = (if i \<in> snd ` set (wm_watchers (bm_watcherMux b))
       then fold offer ?es (wm_objs (bm_watcherMux b) ! i) else wm_objs (bm_watcherMux b) ! i)"
    using dispatch_all_open[OF assms(2,3)] by blast
  have a: "a \<in> snd ` set (wm_watchers (bm_watcherMux b))" using assms(4) by force
  then have "a < length objs" using registered_open(1)[OF assms(3) a] objs(2) by simp
  then have "w_ch (objs ! a) = ?es"
    using objs(3) a offers[of "wm_objs (bm_watcherMux b) ! a" ?es] assms(5-7) len
    by (simp add: accepts_def)
  moreover have "bm_tick ord net (NonBlockingDispatchFunc ord' pick) b =
      Inr (b\<lparr>bm_watcherMux := (bm_watcherMux b)\<lparr>wm_objs := objs\<rparr>\<rparr>)"
    using objs(1) foldM_dispatch_map[of "NonBlockingDispatchFunc ord' pick" ?f "ord (bm_backends b)"]
    by (simp add: bm_tick_def case_prod_unfold)
  ultimately show ?thesis using m by (simp add: mset_map)
qed

text \<open>A monitor of two backends, of which the second does not answer, with one watcher.\<close>

definition answering :: probe_env where
  "answering = \<lparr>env_dial = None, env_deadline = None, env_write = (\<lambda>_. None), env_read = (\<lambda>_. None)\<rparr>"

definition one_down :: "backend_spec \<Rightarrow> probe_env" where
  "one_down spec =
     (if spec_Port spec = 9000 then answering
      else answering\<lparr>env_read := (\<lambda>_. Some (External ''timeout''))\<rparr>)"

abbreviation spec_on :: "int \<Rightarrow> backend_spec" where
  "spec_on port \<equiv> \<lparr>spec_IP = [10, 0, 0, 1], spec_Port = port, spec_MacAddr = [1, 2, 3, 4, 5, 6],
      spec_State = StateAvailable\<rparr>"

abbreviation watched_monitor :: backend_monitor where
  "watched_monitor \<equiv> snd (bm_Watch (NewBackendState [(1, spec_on 9000), (2, spec_on 9001)] (NewWatcherMux 100)))"

theorem bm_tick_reports_all_witness:
  "\<exists>b'. bm_tick rev one_down (NonBlockingDispatchFunc rev (\<lambda>_. True)) watched_monitor = Inr b' \<and>
     mset (w_ch (wm_objs (bm_watcherMux b') ! 0)) =
       {#\<lparr>entry_BackendId = 1, entry_State = StateAvailable\<rparr>, \<lparr>entry_BackendId = 2, entry_State = StateUnavailable\<rparr>#}"
proof -
  have mux: "bm_watcherMux watched_monitor = snd (Watch None (NewWatcherMux 100))"
    by (simp add: bm_Watch_def NewBackendState_def split: prod.splits)
  have bs: "bm_backends watched_monitor = [(1, spec_on 9000), (2, spec_on 9001)]"
    by (simp add: bm_Watch_def NewBackendState_def split: prod.splits)
  have "wm_open (bm_watcherMux watched_monitor)"
    unfolding mux by (rule Watch_open[OF NewWatcherMux_open])
  moreover have "(0, 0) \<in> set (wm_watchers (bm_watcherMux watched_monitor))"
    "w_ch (wm_objs (bm_watcherMux watched_monitor) ! 0) = []"
    "w_filter (wm_objs (bm_watcherMux watched_monitor) ! 0) = None"
    "length (bm_backends watched_monitor) \<le> w_cap (wm_objs (bm_watcherMux watched_monitor) ! 0)"
    unfolding mux bs by (simp_all add: Watch_def NewWatcherMux_def Let_def)
  ultimately have "\<exists>b'. bm_tick rev one_down (NonBlockingDispatchFunc rev (\<lambda>_. True)) watched_monitor = Inr b' \<and>
     mset (w_ch (wm_objs (bm_watcherMux b') ! 0)) =
       mset (map (\<lambda>(i, spec). \<lparr>entry_BackendId = i, entry_State = probe one_down spec\<rparr>) (bm_backends watched_monitor))"
    by (rule bm_tick_reports_all[OF map_order_rev map_order_rev])
  then show ?thesis unfolding bs by (simp add: probe_def one_down_def answering_def)
qed

end
