(* ===== verification/Controller.thy ===== *)
theory Controller
  imports Lookup_Table Bpf_Manager Monitor
begin

text \<open>
  \<open>internal/controller/controller.go\<close>: the controller that keeps the kernel's objects in
  step with the health of the backends. Its two loops are steps under its mutex: one for an
  assignment reported by the kernel, one for an entry of the health monitor. The kernel's data
  structures, the XDP link, \<open>net.InterfaceByName\<close> and \<open>uuid.NewSHA1\<close> are arguments.
\<close>

section \<open>Helpers\<close>

definition lookupTablePrimes :: "nat list" where
  "lookupTablePrimes = [7, 13, 23, 47, 97, 197, 397, 797]"

definition computeLookupTableSize :: "nat \<Rightarrow> nat" where
  "computeLookupTableSize n =
     (let target = u32_of (2 * n)
      in (case find (\<lambda>p. p \<ge> target) lookupTablePrimes of
            Some p \<Rightarrow> p
          | None \<Rightarrow> lookupTablePrimes ! (length lookupTablePrimes - 1)))"

definition available :: "backend \<Rightarrow> bool" where
  "available b \<longleftrightarrow> spec_State (be_Spec b) = StateAvailable \<and> be_Status b = StateAvailable"

definition filterAvailable :: "backend list \<Rightarrow> backend list" where
  "filterAvailable backends = filter available backends"

text \<open>\<open>buildBackends\<close>: \<open>Inl\<close> is the error of the first enabled entry that does not parse.\<close>

definition build_backend :: "byte_order \<Rightarrow> (uuid_namespace \<Rightarrow> string \<Rightarrow> uuid) \<Rightarrow> backend_config \<Rightarrow>
      go_error + backend" where
  "build_backend bo newSHA1 bc =
     (case ParseIP (cfg_IP bc) of
        None \<Rightarrow> Inl ErrInvalidConfig
      | Some ip \<Rightarrow>
          (case ParseMAC (cfg_MAC bc) of
             None \<Rightarrow> Inl (Joined [ErrInvalidConfig, External ''net.ParseMAC''])
           | Some mac \<Rightarrow>
               Inr (NewBackend bo (newSHA1 NameSpaceURL (backend_name bc))
                      \<lparr>spec_IP = ip, spec_Port = cfg_Port bc, spec_MacAddr = mac, spec_State = StateAvailable\<rparr>
                      StateAvailable)))"

definition buildBackends :: "byte_order \<Rightarrow> (uuid_namespace \<Rightarrow> string \<Rightarrow> uuid) \<Rightarrow> config \<Rightarrow>
      go_error + backend list" where
  "buildBackends bo newSHA1 config =
     foldM (\<lambda>bc out. if \<not> cfg_Enabled bc then Inr out
                     else (case build_backend bo newSHA1 bc of
                             Inl e \<Rightarrow> Inl e
                           | Inr b \<Rightarrow> Inr (out @ [b]))) (conf_Backends config) []"

section \<open>The controller\<close>

record 'k controller =
  ct_backends :: "backend list"
  ct_lookupTableSize :: nat
  ct_bpfProg :: bpf_program
  ct_bpfMgr :: "'k ds_manager"
  ct_sessionMap :: session_map
  ct_healthMonitor :: backend_monitor
  ct_healthCancel :: "nat \<times> nat"

text \<open>
  \<open>New\<close>: \<open>iface\<close> is the result of the lookup of the network interface, its hardware address;
  \<open>removeMemlock\<close> and \<open>load\<close> are the arguments of \<open>bpf_New\<close>.
\<close>

definition ct_New :: "byte_order \<Rightarrow> (uuid_namespace \<Rightarrow> string \<Rightarrow> uuid) \<Rightarrow> (string \<Rightarrow> go_error + u8 list) \<Rightarrow> err \<Rightarrow>
      (udplb_config \<Rightarrow> go_error + 'k) \<Rightarrow> config \<Rightarrow> (go_error + 'k controller) go" where
  "ct_New bo newSHA1 iface removeMemlock load config =
     (case iface (conf_Ifname config) of
        Inl e \<Rightarrow> Inr (Inl (Joined [ErrCreatingController, e]))
      | Inr hardwareAddr \<Rightarrow>
          (case ParseIP (conf_IP config) of
             None \<Rightarrow> Inr (Inl (Joined [ErrCreatingController, ErrInvalidConfig]))
           | Some ip \<Rightarrow>
               (case buildBackends bo newSHA1 config of
                  Inl e \<Rightarrow> Inr (Inl (Joined [ErrCreatingController, e]))
                | Inr backends \<Rightarrow>
                    let lookupTableSize = computeLookupTableSize (length backends);
                        backendSpecs = fold (\<lambda>b. map_put (be_Id b) (be_Spec b)) backends [];
                        (healthCancel, healthMonitor) =
                          bm_Watch (NewBackendState backendSpecs (NewWatcherMux 100))
                    in (case bpf_New bo removeMemlock load hardwareAddr ip (conf_Port config)
                               lookupTableSize (NewWatcherMux 100) of
                          Inl p \<Rightarrow> Inl p
                        | Inr (Inl e) \<Rightarrow> Inr (Inl (Joined [ErrCreatingController, e]))
                        | Inr (Inr (bpfProg, bpfMgr)) \<Rightarrow>
                            Inr (Inr \<lparr>ct_backends = backends, ct_lookupTableSize = lookupTableSize,
                                 ct_bpfProg = bpfProg, ct_bpfMgr = bpfMgr,
                                 ct_sessionMap = Map.empty, ct_healthMonitor = healthMonitor,
                                 ct_healthCancel = healthCancel\<rparr>)))))"

definition newIndexByID :: "backend list \<Rightarrow> uuid \<rightharpoonup> nat" where
  "newIndexByID avail = fold (\<lambda>(i, b) m. m(be_Id b \<mapsto> u32_of i)) (enumerate 0 avail) Map.empty"

definition remapSessions :: "backend list \<Rightarrow> backend list \<Rightarrow> session_map \<Rightarrow> session_map" where
  "remapSessions backends avail sessionMap s =
     (case sessionMap s of
        None \<Rightarrow> None
      | Some oldIdx \<Rightarrow>
          if oldIdx \<ge> u32_of (length backends) then None
          else newIndexByID avail (be_Id (backends ! oldIdx)))"

definition recomputeAndApply :: "byte_order \<Rightarrow> 'k bpf_objects \<Rightarrow> nat map_order \<Rightarrow> 'k controller \<Rightarrow>
      (err \<times> 'k controller) comp" where
  "recomputeAndApply bo objs ord c =
     (let avail = filterAvailable (ct_backends c)
      in if avail = [] then Some (Inr (None, c))
         else (case ReverseCoordinatesLookupTable ord avail (ct_lookupTableSize c) of
                 Inl p \<Rightarrow> Some (Inl p)
               | Inr lookupTable \<Rightarrow>
                   let remapped = remapSessions (ct_backends c) avail (ct_sessionMap c);
                       c = c\<lparr>ct_sessionMap := remapped\<rparr>
                   in (case SetObjects bo objs (Some avail) (Some lookupTable) (Some remapped) (ct_bpfMgr c) of
                         None \<Rightarrow> None
                       | Some (Inl p) \<Rightarrow> Some (Inl p)
                       | Some (Inr (e, mgr)) \<Rightarrow> Some (Inr (e, c\<lparr>ct_bpfMgr := mgr\<rparr>)))))"

text \<open>The body of \<open>assignmentLoop\<close>: the first backend with the identifier gets the session.\<close>

definition ct_on_assignment :: "assignment \<Rightarrow> 'k controller \<Rightarrow> 'k controller" where
  "ct_on_assignment a c =
     (case find (\<lambda>i. be_Id (ct_backends c ! i) = BackendId a) [0..<length (ct_backends c)] of
        None \<Rightarrow> c
      | Some i \<Rightarrow> c\<lparr>ct_sessionMap := (ct_sessionMap c)(SessionId a \<mapsto> u32_of i)\<rparr>)"

text \<open>The body of \<open>healthLoop\<close>; an error of the update is only logged.\<close>

definition ct_on_health :: "byte_order \<Rightarrow> 'k bpf_objects \<Rightarrow> nat map_order \<Rightarrow> backend_status_entry \<Rightarrow>
      'k controller \<Rightarrow> ('k controller) comp" where
  "ct_on_health bo objs ord entry c =
     (case find (\<lambda>i. be_Id (ct_backends c ! i) = entry_BackendId entry) [0..<length (ct_backends c)] of
        None \<Rightarrow> Some (Inr c)
      | Some i \<Rightarrow>
          if be_Status (ct_backends c ! i) = entry_State entry then Some (Inr c)
          else
            let c = c\<lparr>ct_backends := (ct_backends c)[i := (ct_backends c ! i)\<lparr>be_Status := entry_State entry\<rparr>]\<rparr>
            in (case recomputeAndApply bo objs ord c of
                  None \<Rightarrow> None
                | Some (Inl p) \<Rightarrow> Some (Inl p)
                | Some (Inr (_, c')) \<Rightarrow> Some (Inr c')))"

definition ct_Run :: "byte_order \<Rightarrow> 'k bpf_objects \<Rightarrow> nat map_order \<Rightarrow> err \<Rightarrow> 'k controller \<Rightarrow>
      (err \<times> 'k controller) comp" where
  "ct_Run bo objs ord attach c =
     (case prog_Run attach (ct_bpfProg c) of
        (Some e, prog) \<Rightarrow> Some (Inr (Some e, c\<lparr>ct_bpfProg := prog\<rparr>))
      | (None, prog) \<Rightarrow>
          let c = c\<lparr>ct_bpfProg := prog\<rparr>
          in (case mgr_Run objs (ct_bpfMgr c) of
                None \<Rightarrow> None
              | Some (Inl p) \<Rightarrow> Some (Inl p)
              | Some (Inr (Some e, mgr)) \<Rightarrow> Some (Inr (Some e, c\<lparr>ct_bpfMgr := mgr\<rparr>))
              | Some (Inr (None, mgr)) \<Rightarrow>
                  let (_, mgr) = WatchAssignment mgr;
                      c = c\<lparr>ct_bpfMgr := mgr\<rparr>
                  in (case bm_Run (ct_healthMonitor c) of
                        None \<Rightarrow> None
                      | Some (Inl p) \<Rightarrow> Some (Inl p)
                      | Some (Inr (Some e, m)) \<Rightarrow> Some (Inr (Some e, c\<lparr>ct_healthMonitor := m\<rparr>))
                      | Some (Inr (None, m)) \<Rightarrow>
                          recomputeAndApply bo objs ord (c\<lparr>ct_healthMonitor := m\<rparr>))))"

definition ct_Close :: "nat map_order \<Rightarrow> bool \<Rightarrow> err \<Rightarrow> err \<Rightarrow> 'k controller \<Rightarrow> (err \<times> 'k controller) comp" where
  "ct_Close ord graceful linkClose objsClose c =
     (case cancel (ct_healthCancel c) (bm_watcherMux (ct_healthMonitor c)) of
        Inl p \<Rightarrow> Some (Inl p)
      | Inr wm \<Rightarrow>
          let m = (ct_healthMonitor c)\<lparr>bm_watcherMux := wm\<rparr>
          in (case bm_Close ord graceful m of
                None \<Rightarrow> None
              | Some (Inl p) \<Rightarrow> Some (Inl p)
              | Some (Inr (e1, m)) \<Rightarrow>
                  (case mgr_Close ord graceful (ct_bpfMgr c) of
                     None \<Rightarrow> None
                   | Some (Inl p) \<Rightarrow> Some (Inl p)
                   | Some (Inr (e2, mgr)) \<Rightarrow>
                       (case prog_Close ord graceful linkClose objsClose (ct_bpfProg c, mgr) of
                          None \<Rightarrow> None
                        | Some (Inl p) \<Rightarrow> Some (Inl p)
                        | Some (Inr (e3, prog, mgr)) \<Rightarrow>
                            Some (Inr (join_err (join_err (join_err None e1) e2) e3,
                               c\<lparr>ct_healthMonitor := m, ct_bpfProg := prog, ct_bpfMgr := mgr\<rparr>))))))"

section \<open>The size of the lookup table\<close>

text \<open>
  The lookup table has one of the eight listed primes as its size. For up to 398 backends it is
  the smallest of them with at least two slots per backend; for more, up to \<open>2 ^ 31\<close>, it is 797
  and has fewer than two slots per backend.
\<close>

theorem computeLookupTableSize_spec:
  assumes "n < 2 ^ 31"
  shows "computeLookupTableSize n \<in> set lookupTablePrimes \<and>
         (n \<le> 398 \<longrightarrow> 2 * n \<le> computeLookupTableSize n \<and>
            (\<forall>p \<in> set lookupTablePrimes. 2 * n \<le> p \<longrightarrow> computeLookupTableSize n \<le> p)) \<and>
         (398 < n \<longrightarrow> computeLookupTableSize n = 797 \<and> computeLookupTableSize n < 2 * n)"
proof -
  have target: "u32_of (2 * n) = 2 * n" using assms by (simp add: u32_of_def)
  have eq: "computeLookupTableSize n =
      (if 2 * n \<le> 7 then 7 else if 2 * n \<le> 13 then 13 else if 2 * n \<le> 23 then 23
       else if 2 * n \<le> 47 then 47 else if 2 * n \<le> 97 then 97 else if 2 * n \<le> 197 then 197
       else if 2 * n \<le> 397 then 397 else 797)"
    by (simp add: computeLookupTableSize_def target lookupTablePrimes_def Let_def)
  show ?thesis unfolding eq lookupTablePrimes_def by auto
qed

theorem computeLookupTableSize_spec_witness:
  "computeLookupTableSize 12 \<in> set lookupTablePrimes \<and> 2 * 12 \<le> computeLookupTableSize 12"
  using computeLookupTableSize_spec[of 12] by simp

section \<open>The session map\<close>

lemma index_fold_other:
  assumes "x \<notin> be_Id ` set bs"
  shows "fold (\<lambda>(i, b) m. m(be_Id b \<mapsto> u32_of i)) (enumerate n bs) m x = m x"
  using assms by (induction bs arbitrary: n m) auto

lemma index_fold:
  assumes "distinct (map be_Id bs)" and "n + length bs < u32_max" and "j < length bs"
  shows "fold (\<lambda>(i, b) m. m(be_Id b \<mapsto> u32_of i)) (enumerate n bs) m (be_Id (bs ! j)) = Some (n + j)"
  using assms
proof (induction bs arbitrary: n j m)
  case Nil
  then show ?case by simp
next
  case (Cons b bs)
  show ?case
  proof (cases j)
    case 0
    have "be_Id b \<notin> be_Id ` set bs" using Cons.prems(1) by auto
    then show ?thesis
      using index_fold_other[of "be_Id b" bs "Suc n" "m(be_Id b \<mapsto> u32_of n)"] 0 Cons.prems(2)
      by (simp add: u32_of_def del: fun_upd_apply) simp
  next
    case (Suc i)
    then show ?thesis using Cons.IH[of "Suc n" i] Cons.prems by simp
  qed
qed

lemma newIndexByID_Some:
  assumes "distinct (map be_Id avail)" and "length avail < u32_max" and "j < length avail"
  shows "newIndexByID avail (be_Id (avail ! j)) = Some j"
  using index_fold[OF assms(1) _ assms(3), of 0 Map.empty] assms(2) by (simp add: newIndexByID_def)

lemma newIndexByID_None: "x \<notin> be_Id ` set avail \<Longrightarrow> newIndexByID avail x = None"
  by (simp add: newIndexByID_def index_fold_other)

lemma newIndexByID_range:
  assumes "distinct (map be_Id avail)" and "length avail < u32_max" and "newIndexByID avail x = Some j"
  shows "j < length avail \<and> be_Id (avail ! j) = x"
proof -
  have "x \<in> be_Id ` set avail" using newIndexByID_None[of x avail] assms(3) by force
  then obtain i where "i < length avail" "be_Id (avail ! i) = x" by (auto simp: in_set_conv_nth)
  then show ?thesis using newIndexByID_Some[OF assms(1,2)] assms(3) by fastforce
qed

text \<open>
  A controller in use: the manager is running, the backends have distinct identifiers and can be
  translated for the kernel.
\<close>

definition ct_ready :: "'k controller \<Rightarrow> bool" where
  "ct_ready c \<longleftrightarrow>
     distinct (map be_Id (ct_backends c)) \<and> length (ct_backends c) < u32_max \<and>
     (\<forall>b \<in> set (ct_backends c). translatable b) \<and>
     lc_running (mgr_lc (ct_bpfMgr c)) \<and> \<not> lc_terminate (mgr_lc (ct_bpfMgr c)) \<and>
     \<not> mgr_eventClosed (ct_bpfMgr c)"

lemma translate_ok:
  assumes "\<forall>b \<in> set bs. translatable b"
  shows "\<exists>specs. transformBackendList bo bs = Inr specs \<and> map bs_Id specs = map be_Id bs"
proof -
  define g where "g = (\<lambda>b. projr (transformBackend bo b))"
  have g: "transformBackend bo b = Inr (g b)" if "b \<in> set bs" for b
    using assms that transformBackend_ok[of bo b] by (auto simp: g_def)
  have "bs_Id (g b) = be_Id b" if "b \<in> set bs" for b
    using g[OF that] by (auto simp: transformBackend_def split: sum.splits if_splits)
      (metis backend_spec_t.select_convs(1))
  then show ?thesis
    using transform_fold[OF g, where acc = "[]"] by (auto simp: transformBackendList_def)
qed

lemma filterAvailable_ready:
  assumes "ct_ready c"
  shows "distinct (map be_Id (filterAvailable (ct_backends c)))"
    and "length (filterAvailable (ct_backends c)) < u32_max"
    and "\<forall>b \<in> set (filterAvailable (ct_backends c)). translatable b"
  using assms le_less_trans[OF length_filter_le]
  by (auto simp: ct_ready_def filterAvailable_def distinct_map_filter)

lemma recompute_runs:
  assumes ready: "ct_ready c" and ord: "is_map_order ord" and ne: "filterAvailable (ct_backends c) \<noteq> []"
  shows "\<exists>e mgr' lt specs. recomputeAndApply bo objs ord c =
             Some (Inr (e, c\<lparr>ct_sessionMap := remapSessions (ct_backends c)
                (filterAvailable (ct_backends c)) (ct_sessionMap c), ct_bpfMgr := mgr'\<rparr>)) \<and>
           SetObjects bo objs (Some (filterAvailable (ct_backends c))) (Some lt)
             (Some (remapSessions (ct_backends c) (filterAvailable (ct_backends c)) (ct_sessionMap c)))
             (ct_bpfMgr c) = Some (Inr (e, mgr')) \<and>
           (\<exists>k. mgr' = (ct_bpfMgr c)\<lparr>mgr_kernel := k\<rparr>) \<and>
           transformBackendList bo (filterAvailable (ct_backends c)) = Inr specs \<and>
           map bs_Id specs = map be_Id (filterAvailable (ct_backends c)) \<and>
           length lt = ct_lookupTableSize c \<and> (\<forall>x \<in> set lt. x < length (filterAvailable (ct_backends c)))"
proof -
  let ?av = "filterAvailable (ct_backends c)"
  let ?re = "remapSessions (ct_backends c) ?av (ct_sessionMap c)"
  obtain lt where lt: "ReverseCoordinatesLookupTable ord ?av (ct_lookupTableSize c) = Inr lt"
    "length lt = ct_lookupTableSize c" "\<forall>x \<in> set lt. x < length ?av"
    using rct_total[of ?av ord "ct_lookupTableSize c"] filterAvailable_ready[OF ready] ord ne by auto
  obtain specs where specs: "transformBackendList bo ?av = Inr specs" "map bs_Id specs = map be_Id ?av"
    using translate_ok filterAvailable_ready(3)[OF ready] by blast
  obtain e k' where "SetObjects bo objs (Some ?av) (Some lt) (Some ?re) (ct_bpfMgr c) =
      Some (Inr (e, (ct_bpfMgr c)\<lparr>mgr_kernel := k'\<rparr>))"
    using SetObjects_running[of "ct_bpfMgr c" bo ?av specs] specs(1) ready by (metis ct_ready_def)
  then show ?thesis
    using lt specs ne by (auto simp: recomputeAndApply_def Let_def)
qed

lemma remapSessions_eq:
  assumes ready: "ct_ready c" and s: "ct_sessionMap c s = Some i"
  shows "if i < length (ct_backends c) \<and> available (ct_backends c ! i)
         then \<exists>j < length (filterAvailable (ct_backends c)).
                remapSessions (ct_backends c) (filterAvailable (ct_backends c)) (ct_sessionMap c) s = Some j \<and>
                filterAvailable (ct_backends c) ! j = ct_backends c ! i
         else remapSessions (ct_backends c) (filterAvailable (ct_backends c)) (ct_sessionMap c) s = None"
proof -
  let ?bs = "ct_backends c" and ?av = "filterAvailable (ct_backends c)"
  have u: "u32_of (length ?bs) = length ?bs" using ready by (simp add: ct_ready_def u32_of_def)
  have inj: "inj_on be_Id (set ?bs)" using ready by (simp add: ct_ready_def distinct_map)
  show ?thesis
  proof (cases "i < length ?bs \<and> available (?bs ! i)")
    case True
    then have "?bs ! i \<in> set ?av" by (simp add: filterAvailable_def)
    then obtain j where j: "j < length ?av" "?av ! j = ?bs ! i" by (auto simp: in_set_conv_nth)
    then have "newIndexByID ?av (be_Id (?bs ! i)) = Some j"
      using newIndexByID_Some[OF filterAvailable_ready(1,2)[OF ready]] by metis
    then show ?thesis using True j u s by (auto simp: remapSessions_def)
  next
    case False
    have "newIndexByID ?av (be_Id (?bs ! i)) = None" if i: "i < length ?bs"
    proof (rule newIndexByID_None)
      show "be_Id (?bs ! i) \<notin> be_Id ` set ?av"
        using False i inj_onD[OF inj, of "?bs ! i"] by (auto simp: filterAvailable_def)
    qed
    then show ?thesis using False u s by (auto simp: remapSessions_def not_le)
  qed
qed


lemma recompute_kernel:
  assumes "double_buffered ptr side objs" and "ct_ready c" and "is_map_order ord"
    and "filterAvailable (ct_backends c) \<noteq> []" and "recomputeAndApply bo objs ord c = Some (Inr (None, c'))"
  shows "let K = active ptr side (mgr_kernel (ct_bpfMgr c'))
         in map bs_Id (eo_BackendList K) = map be_Id (filterAvailable (ct_backends c)) \<and>
            transformBackendList bo (filterAvailable (ct_backends c)) = Inr (eo_BackendList K) \<and>
            length (eo_LookupTable K) = ct_lookupTableSize c \<and>
            (\<forall>x \<in> set (eo_LookupTable K). x < length (eo_BackendList K)) \<and>
            (\<forall>s j. eo_SessionMap K s = Some j \<longrightarrow> j < length (eo_BackendList K)) \<and>
            eo_SessionMap K = ct_sessionMap c' \<and>
            ct_sessionMap c' = remapSessions (ct_backends c) (filterAvailable (ct_backends c)) (ct_sessionMap c)"
proof -
  let ?av = "filterAvailable (ct_backends c)"
  let ?re = "remapSessions (ct_backends c) ?av (ct_sessionMap c)"
  obtain mgr' lt specs where
    set: "SetObjects bo objs (Some ?av) (Some lt) (Some ?re) (ct_bpfMgr c) = Some (Inr (None, mgr'))"
    and c': "c' = c\<lparr>ct_sessionMap := ?re, ct_bpfMgr := mgr'\<rparr>"
    and specs: "transformBackendList bo ?av = Inr specs" "map bs_Id specs = map be_Id ?av"
    and lt: "length lt = ct_lookupTableSize c" "\<forall>x \<in> set lt. x < length ?av"
    using recompute_runs[OF assms(2-4), of bo objs] assms(5) by auto
  have mgr: "lc_running (mgr_lc (ct_bpfMgr c))" "\<not> lc_terminate (mgr_lc (ct_bpfMgr c))"
    "\<not> mgr_eventClosed (ct_bpfMgr c)"
    using assms(2) by (simp_all add: ct_ready_def)
  have K: "active ptr side (mgr_kernel mgr') = \<lparr>eo_BackendList = specs, eo_LookupTable = lt, eo_SessionMap = ?re\<rparr>"
    using SetObjects_all_or_nothing[OF assms(1) mgr specs(1), of lt ?re] set by auto
  have len: "length specs = length ?av" using specs(2) by (metis length_map)
  have "j < length ?av" if "?re s = Some j" for s j
    using that newIndexByID_range[OF filterAvailable_ready(1,2)[OF assms(2)]]
    by (auto simp: remapSessions_def split: option.splits if_splits)
  then show ?thesis using K c' specs lt len by (simp add: Let_def)
qed


section \<open>Health events\<close>

lemma find_backend:
  assumes "distinct (map be_Id bs)" and "i < length bs"
  shows "find (\<lambda>j. be_Id (bs ! j) = be_Id (bs ! i)) [0..<length bs] = Some i"
  using assms nth_eq_iff_index_eq[of "map be_Id bs"]
  by (auto simp: find_Some_iff intro!: exI[of _ i])

lemma ct_ready_status:
  assumes "ct_ready c" and "i < length (ct_backends c)"
  shows "ct_ready (c\<lparr>ct_backends := (ct_backends c)[i := (ct_backends c ! i)\<lparr>be_Status := st\<rparr>]\<rparr>)"
proof -
  have ids: "map be_Id ((ct_backends c)[i := (ct_backends c ! i)\<lparr>be_Status := st\<rparr>]) = map be_Id (ct_backends c)"
    using assms(2) by (simp add: map_update list_update_same_conv)
  have "translatable ((ct_backends c ! i)\<lparr>be_Status := st\<rparr>)"
    using assms nth_mem[OF assms(2)] by (auto simp: ct_ready_def translatable_def)
  then have "\<forall>b \<in> set ((ct_backends c)[i := (ct_backends c ! i)\<lparr>be_Status := st\<rparr>]). translatable b"
    using assms(1) set_update_subset_insert[of "ct_backends c" i "(ct_backends c ! i)\<lparr>be_Status := st\<rparr>"]
    by (auto simp: ct_ready_def)
  then show ?thesis using assms(1) ids by (simp add: ct_ready_def)
qed

text \<open>A health entry that changes the state of backend \<open>i\<close> while some backend is available.\<close>

lemma on_health_change:
  assumes ready: "ct_ready c" and ord: "is_map_order ord" and i: "i < length (ct_backends c)"
    and change: "be_Status (ct_backends c ! i) \<noteq> st"
    and bs: "bs = (ct_backends c)[i := (ct_backends c ! i)\<lparr>be_Status := st\<rparr>]"
    and ne: "filterAvailable bs \<noteq> []"
  shows "\<exists>c'. ct_on_health bo objs ord \<lparr>entry_BackendId = be_Id (ct_backends c ! i), entry_State = st\<rparr> c =
             Some (Inr c') \<and> ct_backends c' = bs \<and> ct_ready c' \<and>
           ct_sessionMap c' = remapSessions bs (filterAvailable bs) (ct_sessionMap c)"
proof -
  let ?c = "c\<lparr>ct_backends := bs\<rparr>"
  have ready': "ct_ready ?c" using ct_ready_status[OF ready i] bs by simp
  have "filterAvailable (ct_backends ?c) \<noteq> []" using ne by simp
  from recompute_runs[OF ready' ord this, of bo objs]
  obtain e mgr' k where "recomputeAndApply bo objs ord ?c = Some (Inr (e, ?c\<lparr>ct_sessionMap :=
      remapSessions (ct_backends ?c) (filterAvailable (ct_backends ?c)) (ct_sessionMap ?c), ct_bpfMgr := mgr'\<rparr>))"
    and k: "mgr' = (ct_bpfMgr ?c)\<lparr>mgr_kernel := k\<rparr>"
    by blast
  then have r: "recomputeAndApply bo objs ord ?c = Some (Inr (e, ?c\<lparr>ct_sessionMap :=
      remapSessions bs (filterAvailable bs) (ct_sessionMap c), ct_bpfMgr := mgr'\<rparr>))"
    by simp
  have "distinct (map be_Id (ct_backends c))" using ready by (simp add: ct_ready_def)
  from find_backend[OF this i]
  have "ct_on_health bo objs ord \<lparr>entry_BackendId = be_Id (ct_backends c ! i), entry_State = st\<rparr> c =
      Some (Inr (?c\<lparr>ct_sessionMap := remapSessions bs (filterAvailable bs) (ct_sessionMap c), ct_bpfMgr := mgr'\<rparr>))"
    using change r by (simp add: ct_on_health_def Let_def bs[symmetric])
  moreover have "ct_ready (?c\<lparr>ct_sessionMap := remapSessions bs (filterAvailable bs) (ct_sessionMap c), ct_bpfMgr := mgr'\<rparr>)"
    using ready' k by (simp add: ct_ready_def)
  ultimately show ?thesis by auto
qed

text \<open>
  C39. The session map is read with the wrong indices after a recomputation. Three available
  backends \<open>a\<close>, \<open>b\<close>, \<open>d\<close> and a session assigned to \<open>d\<close>: when \<open>b\<close> goes down and comes
  back, the session ends up on \<open>b\<close>, although \<open>d\<close> was available all the time. The first
  recomputation stores the position of \<open>d\<close> among the available backends, the second reads it
  as a position among all of them.
\<close>

theorem session_moves_to_other_backend:
  assumes ready: "ct_ready c" and ord: "is_map_order ord" and bs: "ct_backends c = [a, b, d]"
    and av: "available a" "available b" "available d"
  shows "\<exists>c1 c2. ct_on_health bo objs ord \<lparr>entry_BackendId = be_Id b, entry_State = StateUnavailable\<rparr>
               (ct_on_assignment \<lparr>BackendId = be_Id d, SessionId = s\<rparr> c) = Some (Inr c1) \<and>
           ct_on_health bo objs ord \<lparr>entry_BackendId = be_Id b, entry_State = StateAvailable\<rparr> c1 = Some (Inr c2) \<and>
           ct_backends c2 = [a, b, d] \<and> ct_sessionMap c2 s = Some 1"
proof -
  let ?b = "b\<lparr>be_Status := StateUnavailable\<rparr>"
  let ?c = "c\<lparr>ct_sessionMap := (ct_sessionMap c)(s \<mapsto> 2)\<rparr>"
  have ids: "be_Id a \<noteq> be_Id b" "be_Id a \<noteq> be_Id d" "be_Id b \<noteq> be_Id d"
    using ready by (auto simp: ct_ready_def bs)
  have assign: "ct_on_assignment \<lparr>BackendId = be_Id d, SessionId = s\<rparr> c = ?c"
    using ids by (simp add: ct_on_assignment_def bs upt_rec u32_of_def numeral_2_eq_2)
  have ready1: "ct_ready ?c" using ready by (simp add: ct_ready_def)
  have "available b" "\<not> available ?b" using av(2) by (simp_all add: available_def)
  then have down: "filterAvailable [a, ?b, d] = [a, d]" using av by (simp add: filterAvailable_def)
  obtain c1 where c1: "ct_on_health bo objs ord \<lparr>entry_BackendId = be_Id b, entry_State = StateUnavailable\<rparr> ?c = Some (Inr c1)"
    "ct_backends c1 = [a, ?b, d]" "ct_ready c1"
    "ct_sessionMap c1 = remapSessions [a, ?b, d] [a, d] (ct_sessionMap ?c)"
    using on_health_change[OF ready1 ord, of 1 StateUnavailable "[a, ?b, d]" bo objs] bs av(2) down
    by (auto simp: available_def)
  have s1: "ct_sessionMap c1 s = Some 1"
    using ids by (simp add: c1(4) remapSessions_def newIndexByID_def u32_of_def)
  have b: "?b\<lparr>be_Status := StateAvailable\<rparr> = b" using av(2) by (simp add: available_def)
  have "filterAvailable [a, b, d] = [a, b, d]" using av by (simp add: filterAvailable_def)
  then obtain c2 where c2: "ct_on_health bo objs ord \<lparr>entry_BackendId = be_Id b, entry_State = StateAvailable\<rparr> c1 = Some (Inr c2)"
    "ct_backends c2 = [a, b, d]"
    "ct_sessionMap c2 = remapSessions [a, b, d] [a, b, d] (ct_sessionMap c1)"
    using on_health_change[OF c1(3) ord, of 1 StateAvailable "[a, b, d]" bo objs] c1(2) b by auto
  have "ct_sessionMap c2 s = Some 1"
    using ids s1 by (simp add: c2(3) remapSessions_def newIndexByID_def u32_of_def)
  then show ?thesis using assign c1(1) c2 by auto
qed

text \<open>
  A backend that becomes unschedulable loses its sessions at once: when the health monitor
  reports the state while another backend is available, every session of the backend is dropped
  from the session map.
\<close>

theorem unschedulable_backend_loses_sessions:
  assumes "ct_ready c" and "is_map_order ord" and "i < length (ct_backends c)" and "k < length (ct_backends c)"
    and "k \<noteq> i" and "available (ct_backends c ! k)" and "be_Status (ct_backends c ! i) \<noteq> StateUnschedulable"
    and "ct_sessionMap c s = Some i"
  shows "\<exists>c'. ct_on_health bo objs ord
             \<lparr>entry_BackendId = be_Id (ct_backends c ! i), entry_State = StateUnschedulable\<rparr> c = Some (Inr c') \<and>
           ct_sessionMap c' s = None"
proof -
  let ?bs = "(ct_backends c)[i := (ct_backends c ! i)\<lparr>be_Status := StateUnschedulable\<rparr>]"
  have "?bs ! k = ct_backends c ! k" using assms(5) by simp
  then have "ct_backends c ! k \<in> set (filterAvailable ?bs)"
    using assms(4,6) nth_mem[of k ?bs] by (simp add: filterAvailable_def)
  then have ne: "filterAvailable ?bs \<noteq> []" by auto
  obtain c' where c': "ct_on_health bo objs ord
      \<lparr>entry_BackendId = be_Id (ct_backends c ! i), entry_State = StateUnschedulable\<rparr> c = Some (Inr c')"
    "ct_sessionMap c' = remapSessions ?bs (filterAvailable ?bs) (ct_sessionMap c)"
    using on_health_change[OF assms(1,2,3,7) refl ne, of bo objs] by blast
  have "\<not> available (?bs ! i)" using assms(3) by (simp add: available_def)
  then have "remapSessions ?bs (filterAvailable ?bs) (ct_sessionMap c) s = None"
    using remapSessions_eq[OF ct_ready_status[OF assms(1,3), of StateUnschedulable], of s i] assms(8) by simp
  then show ?thesis using c' by auto
qed

text \<open>
  When the last available backend goes down, nothing is written to the kernel: it keeps the
  backend list, the lookup table and the session map it had, so packets still go to the backend
  that is down.
\<close>

theorem last_backend_down_keeps_kernel:
  assumes "distinct (map be_Id (ct_backends c))" and "i < length (ct_backends c)"
    and "be_Status (ct_backends c ! i) \<noteq> StateUnavailable"
    and "\<forall>j < length (ct_backends c). j \<noteq> i \<longrightarrow> \<not> available (ct_backends c ! j)"
  shows "\<exists>c'. ct_on_health bo objs ord
             \<lparr>entry_BackendId = be_Id (ct_backends c ! i), entry_State = StateUnavailable\<rparr> c = Some (Inr c') \<and>
           ct_bpfMgr c' = ct_bpfMgr c \<and> ct_sessionMap c' = ct_sessionMap c"
proof -
  let ?bs = "(ct_backends c)[i := (ct_backends c ! i)\<lparr>be_Status := StateUnavailable\<rparr>]"
  have "\<not> available (?bs ! j)" if "j < length ?bs" for j
    using that assms(2,4) by (cases "j = i") (simp_all add: available_def)
  then have "filterAvailable ?bs = []"
    unfolding filterAvailable_def filter_empty_conv by (metis in_set_conv_nth)
  then show ?thesis
    using find_backend[OF assms(1,2)] assms(3) by (simp add: ct_on_health_def recomputeAndApply_def Let_def)
qed

section \<open>Configurations\<close>

lemma buildBackends_member:
  assumes "buildBackends bo sha config = Inr bs" and "bc \<in> set (conf_Backends config)" and "cfg_Enabled bc"
  shows "\<exists>b \<in> set bs. build_backend bo sha bc = Inr b"
proof -
  have "\<exists>b \<in> set bs. build_backend bo sha bc = Inr b" if "bc \<in> set bcs" and
    "foldM (\<lambda>bc out. if \<not> cfg_Enabled bc then Inr out
        else (case build_backend bo sha bc of Inl e \<Rightarrow> Inl e | Inr b \<Rightarrow> Inr (out @ [b]))) bcs acc = Inr bs" for bcs acc
  proof -
    have keep: "set acc \<subseteq> set bs" if "foldM (\<lambda>bc out. if \<not> cfg_Enabled bc then Inr out
        else (case build_backend bo sha bc of Inl e \<Rightarrow> Inl e | Inr b \<Rightarrow> Inr (out @ [b]))) bcs acc = Inr bs" for bcs acc
      using that by (induction bcs arbitrary: acc) (fastforce split: if_splits sum.splits)+
    show ?thesis using that assms(3)
    proof (induction bcs arbitrary: acc)
      case Nil
      then show ?case by simp
    next
      case (Cons x bcs)
      then show ?case
        using keep by (fastforce split: if_splits sum.splits)
    qed
  qed
  then show ?thesis using assms(1,2) by (simp add: buildBackends_def)
qed

text \<open>
  A configuration with an enabled backend whose address is IPv6 is accepted by
  \<open>buildBackends\<close>, and then every recomputation of a controller with these backends panics
  while it translates them for the kernel.
\<close>

theorem ipv6_backend_panics:
  assumes "buildBackends bo sha config = Inr (ct_backends c)" and "bc \<in> set (conf_Backends config)"
    and "cfg_Enabled bc" and "ParseIP (cfg_IP bc) = Some ip" and "\<not> is_ipv4 ip"
    and "is_map_order ord" and "length (ct_backends c) < u32_max"
  shows "\<exists>p. recomputeAndApply bo objs ord c = Some (Inl p)"
proof -
  obtain b where b: "b \<in> set (ct_backends c)" "build_backend bo sha bc = Inr b"
    using buildBackends_member[OF assms(1-3)] by blast
  then have "available b" "\<not> translatable b"
    using assms(4,5)
    by (auto simp: build_backend_def NewBackend_def available_def translatable_def split: option.splits)
  then have in_av: "b \<in> set (filterAvailable (ct_backends c))" using b(1) by (simp add: filterAvailable_def)
  have len: "length (filterAvailable (ct_backends c)) < u32_max"
    using le_less_trans[OF length_filter_le assms(7)] by (simp add: filterAvailable_def)
  have pos: "0 < length (filterAvailable (ct_backends c))" using in_av by (cases "filterAvailable (ct_backends c)") auto
  obtain lt where "ReverseCoordinatesLookupTable ord (filterAvailable (ct_backends c)) (ct_lookupTableSize c) = Inr lt"
    using rct_total[OF pos len assms(6)] by blast
  moreover obtain p where "transformBackendList bo (filterAvailable (ct_backends c)) = Inl p"
    using transform_panics[OF in_av \<open>\<not> translatable b\<close>] by blast
  ultimately show ?thesis
    using pos by (auto simp: recomputeAndApply_def SetObjects_def AnyPtrIsNil_def any_of_def Let_def)
qed

section \<open>Starting up\<close>

text \<open>A configured backend that the kernel can be given: an IPv4 address and a hardware address.\<close>

definition usable_config :: "backend_config \<Rightarrow> bool" where
  "usable_config bc \<longleftrightarrow>
     (\<exists>ip mac. ParseIP (cfg_IP bc) = Some ip \<and> is_ipv4 ip \<and> ParseMAC (cfg_MAC bc) = Some mac \<and> 6 \<le> length mac)"

lemma build_backend_usable:
  assumes "usable_config bc"
  shows "\<exists>b. build_backend bo sha bc = Inr b \<and> be_Id b = sha NameSpaceURL (backend_name bc) \<and>
           available b \<and> translatable b"
  using assms
  by (auto simp: usable_config_def build_backend_def NewBackend_def available_def translatable_def)

lemma buildBackends_usable:
  assumes "\<forall>bc \<in> set (conf_Backends config). cfg_Enabled bc \<longrightarrow> usable_config bc"
  shows "\<exists>bs. buildBackends bo sha config = Inr bs \<and>
           map be_Id bs = map (\<lambda>bc. sha NameSpaceURL (backend_name bc)) (filter cfg_Enabled (conf_Backends config)) \<and>
           (\<forall>b \<in> set bs. available b \<and> translatable b)"
proof -
  define g where "g = (\<lambda>bc. projr (build_backend bo sha bc))"
  have g: "build_backend bo sha bc = Inr (g bc)" "be_Id (g bc) = sha NameSpaceURL (backend_name bc)"
    "available (g bc)" "translatable (g bc)"
    if "bc \<in> set (conf_Backends config)" "cfg_Enabled bc" for bc
    using build_backend_usable[of bc bo sha] assms that by (auto simp: g_def)
  have "foldM (\<lambda>bc out. if \<not> cfg_Enabled bc then Inr out
          else (case build_backend bo sha bc of Inl e \<Rightarrow> Inl e | Inr b \<Rightarrow> Inr (out @ [b]))) bcs acc
        = Inr (acc @ map g (filter cfg_Enabled bcs))" if "set bcs \<subseteq> set (conf_Backends config)" for bcs acc
    using that by (induction bcs arbitrary: acc) (auto simp: g(1))
  then have "buildBackends bo sha config = Inr (map g (filter cfg_Enabled (conf_Backends config)))"
    by (simp add: buildBackends_def)
  then show ?thesis using g(2-4) by auto
qed

text \<open>A controller whose parts run and whose watcher of the health monitor is registered.\<close>

definition ct_alive :: "'k controller \<Rightarrow> bool" where
  "ct_alive c \<longleftrightarrow>
     mgr_wf (ct_bpfMgr c) \<and> lc_running (mgr_lc (ct_bpfMgr c)) \<and>
     bm_wf (ct_healthMonitor c) \<and> lc_running (bm_lc (ct_healthMonitor c)) \<and>
     ct_healthCancel c \<in> set (wm_watchers (bm_watcherMux (ct_healthMonitor c))) \<and>
     prog_running (ct_bpfProg c) \<and> \<not> prog_doneClosed (ct_bpfProg c)"

lemma ct_alive_kernel [simp]:
  "ct_alive (c\<lparr>ct_sessionMap := sm, ct_bpfMgr := (ct_bpfMgr c)\<lparr>mgr_kernel := k\<rparr>\<rparr>) = ct_alive c"
  "ct_alive (c\<lparr>ct_sessionMap := sm\<rparr>) = ct_alive c" "ct_alive (c\<lparr>ct_backends := bs\<rparr>) = ct_alive c"
  by (simp_all add: ct_alive_def mgr_wf_def)

lemma new_mux_Watch:
  assumes "Watch filt (NewWatcherMux n) = (h, wm)"
  shows "wm_open wm" "h \<in> set (wm_watchers wm)" "\<not> wm_doneClosed wm"
  using assms Watch_open[OF NewWatcherMux_open, of filt n]
  by (auto simp: Watch_def NewWatcherMux_def Let_def)

lemma start_controller:
  assumes "double_buffered ptr side objs" and "is_map_order ord"
    and "iface (conf_Ifname config) = Inr mac" and "6 \<le> length mac"
    and "ParseIP (conf_IP config) = Some ip" and "is_ipv4 ip"
    and "\<forall>bc \<in> set (conf_Backends config). cfg_Enabled bc \<longrightarrow> usable_config bc"
    and "enabled = filter cfg_Enabled (conf_Backends config)" and "enabled \<noteq> []" and "length enabled < u32_max"
    and "ids = map (\<lambda>bc. sha NameSpaceURL (backend_name bc)) enabled" and "distinct ids"
    and "\<forall>cfg. load cfg = Inr k" and "obj_AssignmentFIFO_Subscribe objs k = (None, k1)"
  shows "\<exists>c e c'. ct_New bo sha iface None load config = Inr (Inr c) \<and>
           ct_Run bo objs ord None c = Some (Inr (e, c')) \<and> ct_ready c' \<and> ct_alive c' \<and>
           (e = None \<longrightarrow>
              (let K = active ptr side (mgr_kernel (ct_bpfMgr c'))
               in map bs_Id (eo_BackendList K) = ids \<and>
                  length (eo_LookupTable K) = computeLookupTableSize (length enabled) \<and>
                  (\<forall>x \<in> set (eo_LookupTable K). x < length enabled) \<and> eo_SessionMap K = Map.empty))"
proof -
  obtain bs where bs: "buildBackends bo sha config = Inr bs" "map be_Id bs = ids"
    "\<forall>b \<in> set bs. available b \<and> translatable b"
    using buildBackends_usable[OF assms(7)] assms(8,11) by blast
  have len: "length bs = length enabled" using bs(2) assms(11) by (metis length_map)
  obtain addr where addr: "NetIPv4ToUint32 bo (Some ip) = Inr addr"
    using NetIPv4ToUint32_ok[of bo ip] assms(6) by blast
  let ?size = "computeLookupTableSize (length bs)"
  obtain h m where m: "bm_Watch (NewBackendState (fold (\<lambda>b. map_put (be_Id b) (be_Spec b)) bs [])
      (NewWatcherMux 100)) = (h, m)" by fastforce
  define c where "c = \<lparr>ct_backends = bs, ct_lookupTableSize = ?size, ct_bpfProg = prog_New,
      ct_bpfMgr = NewDataStructureManager k (NewWatcherMux 100), ct_sessionMap = Map.empty,
      ct_healthMonitor = m, ct_healthCancel = h\<rparr>"
  have new: "ct_New bo sha iface None load config = Inr (Inr c)"
    using assms(3-5,13) bs(1) addr m by (simp add: ct_New_def bpf_New_def c_def Let_def)
  have bm: "bm_lc m = lc_new"
    using m by (auto simp: bm_Watch_def NewBackendState_def split: prod.splits)
  define mgr where "mgr = snd (WatchAssignment ((NewDataStructureManager k (NewWatcherMux 100))
      \<lparr>mgr_kernel := k1, mgr_lc := lc_new\<lparr>lc_running := True\<rparr>\<rparr>))"
  define c1 where "c1 = c\<lparr>ct_bpfProg := prog_New\<lparr>prog_running := True\<rparr>, ct_bpfMgr := mgr,
      ct_healthMonitor := m\<lparr>bm_lc := lc_new\<lparr>lc_running := True\<rparr>\<rparr>\<rparr>"
  have mgr: "mgr_lc mgr = lc_new\<lparr>lc_running := True\<rparr>" "\<not> mgr_eventClosed mgr"
    by (simp_all add: mgr_def WatchAssignment_def NewDataStructureManager_def split: prod.splits)
  have run: "ct_Run bo objs ord None c = recomputeAndApply bo objs ord c1"
    using assms(14) bm
    by (simp add: ct_Run_def c_def c1_def prog_Run_def prog_New_def mgr_Run_def NewDataStructureManager_def
        lc_new_def bm_Run_def mgr_def Let_def split: prod.splits)
  have ready: "ct_ready c1"
    using bs len assms(10,12) mgr by (simp add: ct_ready_def c1_def c_def lc_new_def)
  have av: "filterAvailable (ct_backends c1) = bs"
    using bs(3) by (simp add: c1_def c_def filterAvailable_def filter_id_conv)
  then have ne: "filterAvailable (ct_backends c1) \<noteq> []" using len assms(9) by auto
  obtain e c' where r: "recomputeAndApply bo objs ord c1 = Some (Inr (e, c'))"
    and c': "\<exists>sm k'. c' = c1\<lparr>ct_sessionMap := sm, ct_bpfMgr := (ct_bpfMgr c1)\<lparr>mgr_kernel := k'\<rparr>\<rparr>"
    using recompute_runs[OF ready assms(2) ne, of bo objs] by blast
  have ready': "ct_ready c'" using ready c' by (auto simp: ct_ready_def)
  have "mgr_wf mgr"
    by (auto simp: mgr_wf_def mgr_def WatchAssignment_def NewDataStructureManager_def lc_wf_def lc_new_def
        new_mux_Watch split: prod.splits)
  moreover have "bm_wf m" "h \<in> set (wm_watchers (bm_watcherMux m))"
    using m by (auto simp: bm_wf_def bm_Watch_def NewBackendState_def new_mux_Watch lc_new_def lc_wf_def split: prod.splits)
  ultimately have "ct_alive c1"
    using mgr bm by (simp add: ct_alive_def c1_def c_def prog_New_def lc_new_def bm_wf_def lc_wf_def)
  then have alive: "ct_alive c'" using c' by auto
  have "let K = active ptr side (mgr_kernel (ct_bpfMgr c'))
      in map bs_Id (eo_BackendList K) = ids \<and>
         length (eo_LookupTable K) = computeLookupTableSize (length enabled) \<and>
         (\<forall>x \<in> set (eo_LookupTable K). x < length enabled) \<and> eo_SessionMap K = Map.empty" if "e = None"
  proof -
    note K = recompute_kernel[OF assms(1) ready assms(2) ne r[unfolded that], unfolded av Let_def]
    have "length (eo_BackendList (active ptr side (mgr_kernel (ct_bpfMgr c')))) = length bs"
      using K by (metis length_map)
    moreover have "remapSessions (ct_backends c1) bs (ct_sessionMap c1) = Map.empty"
      by (rule ext) (simp add: remapSessions_def c1_def c_def)
    moreover have "ct_lookupTableSize c1 = computeLookupTableSize (length enabled)"
      by (simp add: c1_def c_def len)
    ultimately show ?thesis using K bs(2) len by (simp add: Let_def)
  qed
  then show ?thesis using new run r ready' alive by auto
qed

text \<open>
  C4. A usable configuration starts. When every enabled backend has an IPv4 address and a hardware
  address, their identifiers differ, and the interface, the loader and the kernel do their part,
  \<open>New\<close> returns a controller and \<open>Run\<close> returns with a controller that is ready for events. If
  the kernel accepts the objects, it reads one entry per enabled backend, in the order of the
  configuration, and a lookup table of the computed size with every slot pointing at one of them.
\<close>

theorem controller_starts:
  assumes "double_buffered ptr side objs" and "is_map_order ord"
    and "iface (conf_Ifname config) = Inr mac" and "6 \<le> length mac"
    and "ParseIP (conf_IP config) = Some ip" and "is_ipv4 ip"
    and "\<forall>bc \<in> set (conf_Backends config). cfg_Enabled bc \<longrightarrow> usable_config bc"
    and "enabled = filter cfg_Enabled (conf_Backends config)" and "enabled \<noteq> []" and "length enabled < u32_max"
    and "ids = map (\<lambda>bc. sha NameSpaceURL (backend_name bc)) enabled" and "distinct ids"
    and "\<And>cfg. load cfg = Inr k" and "obj_AssignmentFIFO_Subscribe objs k = (None, k1)"
  shows "\<exists>c e c'. ct_New bo sha iface None load config = Inr (Inr c) \<and>
           ct_Run bo objs ord None c = Some (Inr (e, c')) \<and> ct_ready c' \<and>
           (e = None \<longrightarrow>
              (let K = active ptr side (mgr_kernel (ct_bpfMgr c'))
               in map bs_Id (eo_BackendList K) = ids \<and>
                  length (eo_LookupTable K) = computeLookupTableSize (length enabled) \<and>
                  (\<forall>x \<in> set (eo_LookupTable K). x < length enabled) \<and> eo_SessionMap K = Map.empty))"
proof -
  have "\<forall>cfg. load cfg = Inr k" using assms(13) by simp
  note start = start_controller[where iface = iface and config = config and sha = sha and bo = bo,
      OF assms(1-12) this assms(14)]
  then show ?thesis by blast
qed

section \<open>Shutting down\<close>

lemma close_controller:
  assumes ord: "is_map_order ord" and alive: "ct_alive c"
  shows "\<exists>e c'. ct_Close ord graceful None None c = Some (Inr (Some e, c'))"
proof -
  note parts = alive[unfolded ct_alive_def]
  let ?m = "ct_healthMonitor c" and ?h = "ct_healthCancel c"
  have open_mux: "wm_open (bm_watcherMux ?m)" "\<not> wm_doneClosed (bm_watcherMux ?m)"
    using parts by (auto simp: bm_wf_def lc_wf_def)
  obtain wm where wm: "cancel ?h (bm_watcherMux ?m) = Inr wm" "wm_open wm" "wm_doneClosed wm = wm_doneClosed (bm_watcherMux ?m)"
    using cancel_open[OF open_mux(1), of "fst ?h" "snd ?h"] parts by auto
  have "bm_wf (?m\<lparr>bm_watcherMux := wm\<rparr>)"
    using parts wm(2,3) open_mux(2) by (simp add: bm_wf_def)
  then obtain m' where m': "bm_Close ord graceful (?m\<lparr>bm_watcherMux := wm\<rparr>) = Some (Inr (None, m'))"
    using bm_Close_running[OF ord, of "?m\<lparr>bm_watcherMux := wm\<rparr>" graceful] parts by auto
  obtain mgr' where mgr': "mgr_Close ord graceful (ct_bpfMgr c) = Some (Inr (None, mgr'))"
    "mgr_wf mgr'" "\<not> lc_running (mgr_lc mgr')"
    using mgr_Close_running[OF ord, of "ct_bpfMgr c"] parts by blast
  then have "mgr_Close ord graceful mgr' = Some (Inr (Some ErrRunnableMustBeRunningToBeClosed, mgr'))"
    by (simp add: mgr_Close_def mgr_wf_def)
  then show ?thesis
    using wm(1) m' mgr'(1) parts
    by (simp add: ct_Close_def prog_Close_def join_err_def errors_join_def Let_def)
qed

text \<open>
  C40. \<open>Close\<close> of a running controller always returns an error, even when every part stops in
  time and nothing fails: the program closes the manager a second time.
\<close>

theorem controller_close_always_fails:
  assumes "is_map_order ord" and "mgr_wf (ct_bpfMgr c)" and "lc_running (mgr_lc (ct_bpfMgr c))"
    and "bm_wf (ct_healthMonitor c)" and "lc_running (bm_lc (ct_healthMonitor c))"
    and "ct_healthCancel c \<in> set (wm_watchers (bm_watcherMux (ct_healthMonitor c)))"
    and "prog_running (ct_bpfProg c)" and "\<not> prog_doneClosed (ct_bpfProg c)"
  shows "\<exists>e c'. ct_Close ord graceful None None c = Some (Inr (Some e, c'))"
  by (rule close_controller[OF assms(1)]) (use assms(2-8) in \<open>simp add: ct_alive_def\<close>)

section \<open>Serving\<close>

text \<open>A controller in use stays in use, whatever the kernel and the monitor report.\<close>

lemma on_assignment_serves:
  assumes "ct_ready c" and "ct_alive c"
  shows "ct_ready (ct_on_assignment a c) \<and> ct_alive (ct_on_assignment a c) \<and>
         ct_backends (ct_on_assignment a c) = ct_backends c"
  using assms by (auto simp: ct_on_assignment_def ct_ready_def split: option.splits)

lemma recompute_serves:
  assumes "ct_ready c" and "ct_alive c" and "is_map_order ord"
  shows "\<exists>e c'. recomputeAndApply bo objs ord c = Some (Inr (e, c')) \<and> ct_ready c' \<and> ct_alive c' \<and>
           ct_backends c' = ct_backends c"
proof (cases "filterAvailable (ct_backends c) = []")
  case True
  then show ?thesis using assms by (simp add: recomputeAndApply_def)
next
  case False
  then obtain e sm k where "recomputeAndApply bo objs ord c =
      Some (Inr (e, c\<lparr>ct_sessionMap := sm, ct_bpfMgr := (ct_bpfMgr c)\<lparr>mgr_kernel := k\<rparr>\<rparr>))"
    using recompute_runs[OF assms(1,3), of bo objs] by auto
  moreover have "ct_ready (c\<lparr>ct_sessionMap := sm, ct_bpfMgr := (ct_bpfMgr c)\<lparr>mgr_kernel := k\<rparr>\<rparr>)"
    using assms(1) by (simp add: ct_ready_def)
  ultimately show ?thesis using assms(2) by simp
qed

lemma on_health_serves:
  assumes "ct_ready c" and "ct_alive c" and "is_map_order ord"
  shows "\<exists>c'. ct_on_health bo objs ord entry c = Some (Inr c') \<and> ct_ready c' \<and> ct_alive c' \<and>
           map be_Id (ct_backends c') = map be_Id (ct_backends c)"
proof (cases "find (\<lambda>i. be_Id (ct_backends c ! i) = entry_BackendId entry) [0..<length (ct_backends c)]")
  case None
  then show ?thesis using assms by (simp add: ct_on_health_def)
next
  case (Some i)
  then have i: "i < length (ct_backends c)" using find_SomeD by fastforce
  let ?c = "c\<lparr>ct_backends := (ct_backends c)[i := (ct_backends c ! i)\<lparr>be_Status := entry_State entry\<rparr>]\<rparr>"
  have "map be_Id (ct_backends ?c) = map be_Id (ct_backends c)"
    using i by (simp add: map_update list_update_same_conv)
  moreover obtain e c' where "recomputeAndApply bo objs ord ?c = Some (Inr (e, c'))" "ct_ready c'" "ct_alive c'"
    "ct_backends c' = ct_backends ?c"
    using recompute_serves[OF ct_ready_status[OF assms(1) i] _ assms(3)] assms(2) by fastforce
  ultimately show ?thesis using Some assms by (simp add: ct_on_health_def Let_def)
qed

section \<open>Witnesses\<close>

text \<open>A running controller with three backends on the kernel of two copies.\<close>

abbreviation backend_3 :: backend where
  "backend_3 \<equiv> example_backend 0x00000003000000030000000300000003 [3, 3, 3, 3]"

definition example_controller :: "two_sides controller" where
  "example_controller =
     \<lparr>ct_backends = [backend_1, backend_2, backend_3], ct_lookupTableSize = 7,
      ct_bpfProg = \<lparr>prog_running = True, prog_doneClosed = False\<rparr>, ct_bpfMgr = running_manager,
      ct_sessionMap = [42 \<mapsto> 2],
      ct_healthMonitor = (snd (bm_Watch (NewBackendState [] (NewWatcherMux 100))))
         \<lparr>bm_lc := lc_new\<lparr>lc_running := True\<rparr>\<rparr>,
      ct_healthCancel = (0, 0)\<rparr>"

lemma example_available [simp]: "available backend_1" "available backend_2" "available backend_3"
  by (simp_all add: available_def example_backend_def example_spec_def)

lemma example_ready [simp]: "ct_ready example_controller"
proof -
  have "translatable (example_backend u cs)" for u cs
    by (simp add: translatable_def is_ipv4_def To4_def example_backend_def example_spec_def)
  then show ?thesis
    by (simp add: ct_ready_def example_controller_def NewDataStructureManager_def lc_new_def)
      (simp add: example_backend_def)
qed

lemma example_filter [simp]:
  "filterAvailable (ct_backends example_controller) = [backend_1, backend_2, backend_3]"
  by (simp add: example_controller_def filterAvailable_def)


text \<open>The kernel of two copies accepts every set.\<close>

lemma recompute_two_copies:
  assumes "ct_ready c" and "is_map_order ord" and "filterAvailable (ct_backends c) \<noteq> []"
  shows "\<exists>c'. recomputeAndApply bo two_copies ord c = Some (Inr (None, c'))"
proof -
  let ?av = "filterAvailable (ct_backends c)"
  let ?re = "remapSessions (ct_backends c) ?av (ct_sessionMap c)"
  obtain e mgr' lt specs where r: "recomputeAndApply bo two_copies ord c =
      Some (Inr (e, c\<lparr>ct_sessionMap := ?re, ct_bpfMgr := mgr'\<rparr>))"
    and set: "SetObjects bo two_copies (Some ?av) (Some lt) (Some ?re) (ct_bpfMgr c) = Some (Inr (e, mgr'))"
    and specs: "transformBackendList bo ?av = Inr specs"
    using recompute_runs[OF assms, of bo two_copies] by force
  have mgr: "lc_running (mgr_lc (ct_bpfMgr c))" "\<not> lc_terminate (mgr_lc (ct_bpfMgr c))"
    "\<not> mgr_eventClosed (ct_bpfMgr c)"
    using assms(1) unfolding ct_ready_def by blast+
  obtain k' where k': "setObjects two_copies \<lparr>eo_BackendList = specs, eo_LookupTable = lt, eo_SessionMap = ?re\<rparr>
      (mgr_kernel (ct_bpfMgr c)) = (None, k')"
    using two_copies_accepts by blast
  show ?thesis using SetObjects_event[OF mgr specs k'] set r by simp
qed


theorem session_moves_to_other_backend_witness:
  "\<exists>c1 c2. ct_on_health LittleEndian two_copies rev \<lparr>entry_BackendId = be_Id backend_2, entry_State = StateUnavailable\<rparr>
        (ct_on_assignment \<lparr>BackendId = be_Id backend_3, SessionId = 77\<rparr> example_controller) = Some (Inr c1) \<and>
     ct_on_health LittleEndian two_copies rev \<lparr>entry_BackendId = be_Id backend_2, entry_State = StateAvailable\<rparr> c1 = Some (Inr c2) \<and>
     ct_backends c2 = [backend_1, backend_2, backend_3] \<and> ct_sessionMap c2 77 = Some 1"
  by (rule session_moves_to_other_backend) (simp_all, simp add: example_controller_def)

theorem unschedulable_backend_loses_sessions_witness:
  "\<exists>c'. ct_on_health LittleEndian two_copies rev \<lparr>entry_BackendId = be_Id (ct_backends example_controller ! 2),
        entry_State = StateUnschedulable\<rparr> example_controller = Some (Inr c') \<and> ct_sessionMap c' 42 = None"
  by (rule unschedulable_backend_loses_sessions[where k = 0])
    (simp_all, simp_all add: example_controller_def, simp add: example_backend_def)

theorem last_backend_down_keeps_kernel_witness:
  "\<exists>c'. ct_on_health LittleEndian two_copies rev \<lparr>entry_BackendId = be_Id backend_1, entry_State = StateUnavailable\<rparr>
        (example_controller\<lparr>ct_backends := [backend_1]\<rparr>) = Some (Inr c') \<and>
     ct_bpfMgr c' = ct_bpfMgr example_controller \<and> ct_sessionMap c' = [42 \<mapsto> 2]"
  using last_backend_down_keeps_kernel[of "example_controller\<lparr>ct_backends := [backend_1]\<rparr>" 0 LittleEndian two_copies rev]
  by (simp add: example_controller_def example_backend_def)

abbreviation ipv6_config :: config where
  "ipv6_config \<equiv> \<lparr>conf_Ifname = ''eth0'', conf_IP = ''10.0.0.1'', conf_Port = 8080,
     conf_Backends = [\<lparr>cfg_Enabled = True, cfg_IP = ''fe80::1'', cfg_MAC = ''aa:bb:cc:dd:ee:01'', cfg_Port = 9000\<rparr>]\<rparr>"

theorem ipv6_backend_panics_witness:
  "\<exists>bs p. buildBackends LittleEndian (\<lambda>_ _. 1) ipv6_config = Inr bs \<and>
     recomputeAndApply LittleEndian two_copies rev (example_controller\<lparr>ct_backends := bs\<rparr>) = Some (Inl p)"
proof -
  let ?ip = "[0xfe, 0x80, 0, 0, 0, 0, 0, 0, 0, 0, 0, 0, 0, 0, 0, 1] :: u8 list"
  have ip: "ParseIP ''fe80::1'' = Some ?ip" and mac: "ParseMAC ''aa:bb:cc:dd:ee:01'' = Some [0xaa, 0xbb, 0xcc, 0xdd, 0xee, 1]"
    by code_simp+
  have v6: "\<not> is_ipv4 ?ip" by (simp add: is_ipv4_def To4_def)
  obtain b where b: "buildBackends LittleEndian (\<lambda>_ _. 1) ipv6_config = Inr [b]"
    by (simp add: buildBackends_def build_backend_def ip mac)
  then show ?thesis
    using ipv6_backend_panics[of LittleEndian "\<lambda>_ _. 1" ipv6_config "example_controller\<lparr>ct_backends := [b]\<rparr>"
        "hd (conf_Backends ipv6_config)" ?ip rev two_copies] ip v6
    by auto
qed

abbreviation two_backend_config :: config where
  "two_backend_config \<equiv> \<lparr>conf_Ifname = ''eth0'', conf_IP = ''10.0.0.1'', conf_Port = 8080,
     conf_Backends = [\<lparr>cfg_Enabled = True, cfg_IP = ''10.0.0.2'', cfg_MAC = ''aa:bb:cc:dd:ee:01'', cfg_Port = 9000\<rparr>,
                      \<lparr>cfg_Enabled = False, cfg_IP = ''nowhere'', cfg_MAC = ''none'', cfg_Port = 0\<rparr>]\<rparr>"

lemma two_backend_config_usable:
  "ParseIP (conf_IP two_backend_config) = Some (replicate 10 0 @ [0xff, 0xff, 10, 0, 0, 1])"
  "is_ipv4 (replicate 10 0 @ [0xff, 0xff, 10, 0, 0, x])"
  "\<forall>bc \<in> set (conf_Backends two_backend_config). cfg_Enabled bc \<longrightarrow> usable_config bc"
  "obj_AssignmentFIFO_Subscribe two_copies empty_kernel = (None, empty_kernel)"
proof -
  have ips: "ParseIP ''10.0.0.1'' = Some (replicate 10 0 @ [0xff, 0xff, 10, 0, 0, 1])"
    "ParseIP ''10.0.0.2'' = Some (replicate 10 0 @ [0xff, 0xff, 10, 0, 0, 2])"
    and mac: "ParseMAC ''aa:bb:cc:dd:ee:01'' = Some [0xaa, 0xbb, 0xcc, 0xdd, 0xee, 1]"
    by code_simp+
  have v4: "is_ipv4 (replicate 10 0 @ [0xff, 0xff, 10, 0, 0, x])" for x
    by (simp add: is_ipv4_def To4_def numeral_eq_Suc)
  then show "is_ipv4 (replicate 10 0 @ [0xff, 0xff, 10, 0, 0, x])" .
  show "\<forall>bc \<in> set (conf_Backends two_backend_config). cfg_Enabled bc \<longrightarrow> usable_config bc"
    using ips(2) mac v4[of 2] by (simp add: usable_config_def)
  show "ParseIP (conf_IP two_backend_config) = Some (replicate 10 0 @ [0xff, 0xff, 10, 0, 0, 1])"
    using ips(1) by simp
  show "obj_AssignmentFIFO_Subscribe two_copies empty_kernel = (None, empty_kernel)"
    by (simp add: two_copies_def)
qed

theorem controller_starts_witness:
  "\<exists>c e c'. ct_New LittleEndian (\<lambda>_ _. 9) (\<lambda>_. Inr [1, 2, 3, 4, 5, 6]) None (\<lambda>_. Inr empty_kernel)
         two_backend_config = Inr (Inr c) \<and>
     ct_Run LittleEndian two_copies rev None c = Some (Inr (e, c')) \<and> ct_ready c'"
  using controller_starts[OF two_copies_buffered map_order_rev _ _ two_backend_config_usable(1-3) refl _ _ refl _ _
      two_backend_config_usable(4), of "\<lambda>_. Inr [1, 2, 3, 4, 5, 6]" "[1, 2, 3, 4, 5, 6]" "\<lambda>_ _. 9"
      "\<lambda>_. Inr empty_kernel" LittleEndian]
  by force

lemma example_alive [simp]: "ct_alive example_controller"
proof -
  have mux: "bm_watcherMux (ct_healthMonitor example_controller) = snd (Watch None (NewWatcherMux 100))"
    by (simp add: example_controller_def bm_Watch_def NewBackendState_def split: prod.splits)
  have "bm_wf (ct_healthMonitor example_controller)"
    unfolding bm_wf_def mux using Watch_open[OF NewWatcherMux_open, of None]
    by (simp add: example_controller_def lc_wf_def lc_new_def) (simp add: Watch_def NewWatcherMux_def Let_def)
  moreover have "ct_healthCancel example_controller \<in> set (wm_watchers (bm_watcherMux (ct_healthMonitor example_controller)))"
    unfolding mux by (simp add: example_controller_def Watch_def NewWatcherMux_def Let_def)
  ultimately show ?thesis
    using running_manager_wf by (simp add: ct_alive_def example_controller_def NewDataStructureManager_def lc_new_def)
qed

theorem controller_close_always_fails_witness:
  "\<exists>e c'. ct_Close rev True None None example_controller = Some (Inr (Some e, c'))"
  by (rule controller_close_always_fails) (use example_alive in \<open>simp_all add: ct_alive_def del: example_alive\<close>)

end
