(* ===== verification/Entry_Point.thy ===== *)
theory Entry_Point
  imports Controller
begin

text \<open>
  \<open>cmd/udplb/main.go\<close> and \<open>GetConfig\<close> of \<open>internal/types/types.go\<close>: the program reads its
  configuration, creates and runs the controller, serves until it gets a signal, and closes the
  controller. The files, the standard input and the YAML decoder are arguments; what the kernel and
  the health monitor report before the signal is a list of events, handled by the two loops of the
  controller under its mutex.
\<close>

section \<open>The program\<close>

definition GetConfig :: "(string \<Rightarrow> go_error + u8 list) \<Rightarrow> go_error + u8 list \<Rightarrow> (u8 list \<Rightarrow> go_error + config) \<Rightarrow>
      string \<Rightarrow> go_error + config" where
  "GetConfig readFile stdin unmarshal filepath =
     (case (if filepath = ''-'' then stdin else readFile filepath) of
        Inl e \<Rightarrow> Inl e
      | Inr b \<Rightarrow> (case unmarshal b of Inl e \<Rightarrow> Inl e | Inr out \<Rightarrow> Inr out))"

datatype ct_event = Assigned assignment | HealthEntry backend_status_entry

definition ct_on_event :: "byte_order \<Rightarrow> 'k bpf_objects \<Rightarrow> nat map_order \<Rightarrow> ct_event \<Rightarrow> 'k controller \<Rightarrow>
      ('k controller) comp" where
  "ct_on_event bo objs ord ev c =
     (case ev of
        Assigned a \<Rightarrow> Some (Inr (ct_on_assignment a c))
      | HealthEntry entry \<Rightarrow> ct_on_health bo objs ord entry c)"

text \<open>
  How \<open>main\<close> ends: with an exit status, or by returning, with the error of the shutdown that it
  has logged.
\<close>

datatype main_result = Exited nat | Stopped err

definition udplb_main :: "byte_order \<Rightarrow> (uuid_namespace \<Rightarrow> string \<Rightarrow> uuid) \<Rightarrow> (string \<Rightarrow> go_error + u8 list) \<Rightarrow>
      (udplb_config \<Rightarrow> go_error + 'k) \<Rightarrow> 'k bpf_objects \<Rightarrow> nat map_order \<Rightarrow> bool \<Rightarrow>
      (string \<Rightarrow> go_error + config) \<Rightarrow> ct_event list \<Rightarrow> string list \<Rightarrow> main_result comp" where
  "udplb_main bo newSHA1 iface load objs ord graceful getConfig events args =
     (if length args \<noteq> 2 then (if args = [] then Some (Inl IndexOutOfRange) else Some (Inr (Exited 1)))
      else (case getConfig (args ! 1) of
              Inl _ \<Rightarrow> Some (Inr (Exited 1))
            | Inr config \<Rightarrow>
                (case ct_New bo newSHA1 iface None load config of
                   Inl p \<Rightarrow> Some (Inl p)
                 | Inr (Inl _) \<Rightarrow> Some (Inr (Exited 1))
                 | Inr (Inr c) \<Rightarrow>
                     (case ct_Run bo objs ord None c of
                        None \<Rightarrow> None
                      | Some (Inl p) \<Rightarrow> Some (Inl p)
                      | Some (Inr (Some _, _)) \<Rightarrow> Some (Inr (Exited 1))
                      | Some (Inr (None, c)) \<Rightarrow>
                          (case foldD (ct_on_event bo objs ord) events c of
                             None \<Rightarrow> None
                           | Some (Inl p) \<Rightarrow> Some (Inl p)
                           | Some (Inr c) \<Rightarrow>
                               (case ct_Close ord graceful None None c of
                                  None \<Rightarrow> None
                                | Some (Inl p) \<Rightarrow> Some (Inl p)
                                | Some (Inr (e, _)) \<Rightarrow> Some (Inr (Stopped e))))))))"

section \<open>From start to shutdown\<close>

lemma on_event_serves:
  assumes "ct_ready c" and "ct_alive c" and "is_map_order ord"
  shows "\<exists>c'. ct_on_event bo objs ord ev c = Some (Inr c') \<and> ct_ready c' \<and> ct_alive c' \<and>
           map be_Id (ct_backends c') = map be_Id (ct_backends c)"
  using on_assignment_serves[OF assms(1,2)] on_health_serves[OF assms]
  by (cases ev) (auto simp: ct_on_event_def)

lemma events_serve:
  assumes "ct_ready c" and "ct_alive c" and "is_map_order ord"
  shows "\<exists>c'. foldD (ct_on_event bo objs ord) events c = Some (Inr c') \<and> ct_ready c' \<and> ct_alive c' \<and>
           map be_Id (ct_backends c') = map be_Id (ct_backends c)"
proof (rule foldD_invariant[where P = "\<lambda>x. ct_ready x \<and> ct_alive x \<and> map be_Id (ct_backends x) = map be_Id (ct_backends c)"])
  show "\<exists>s'. ct_on_event bo objs ord ev s = Some (Inr s') \<and> ct_ready s' \<and> ct_alive s' \<and>
      map be_Id (ct_backends s') = map be_Id (ct_backends c)"
    if "ct_ready s \<and> ct_alive s \<and> map be_Id (ct_backends s) = map be_Id (ct_backends c)" for ev s
    using on_event_serves[of s ord bo objs ev] that assms(3) by auto
qed (use assms in simp)

text \<open>
  C20. The invariant of a controller in use (distinct backends that the kernel can be given, a running
  manager, monitor and program, a registered watcher) is kept by every event, and no event panics
  or blocks: from a controller in use any sequence of assignments and health entries, also of
  backends it does not know, leads to a controller in use with the same backends.
\<close>

theorem controller_keeps_invariant:
  assumes "ct_ready c" and "ct_alive c" and "is_map_order ord"
  shows "\<exists>c'. foldD (ct_on_event bo objs ord) events c = Some (Inr c') \<and> ct_ready c' \<and> ct_alive c' \<and>
           map be_Id (ct_backends c') = map be_Id (ct_backends c)"
  using events_serve[OF assms] .

theorem controller_keeps_invariant_witness:
  "\<exists>c'. foldD (ct_on_event LittleEndian two_copies rev)
       [Assigned \<lparr>BackendId = be_Id backend_2, SessionId = 77\<rparr>,
        HealthEntry \<lparr>entry_BackendId = be_Id backend_2, entry_State = StateUnavailable\<rparr>,
        HealthEntry \<lparr>entry_BackendId = 0, entry_State = StateUnavailable\<rparr>] example_controller = Some (Inr c') \<and> ct_ready c'"
  using controller_keeps_invariant[OF example_ready example_alive map_order_rev] by blast



end
