(* ===== verification/Worker_Pool.thy ===== *)
theory Worker_Pool
  imports Prelude
begin

text \<open>
  \<open>internal/util/workerpool.go\<close>: workers that take jobs from a queue. The pool is a step
  relation: each worker is in its main loop, draining the queue after the termination signal, or
  has returned; the goroutine that waits for all of them closes \<open>doneCh\<close>. Jobs run when they
  are taken, the list \<open>wp_ran\<close> records them.
\<close>

section \<open>The model\<close>

datatype worker = Looping | Draining | Returned

record 'j pool =
  wp_q :: "'j list"
  wp_qClosed :: bool
  wp_terminate :: bool
  wp_workers :: "worker list"
  wp_done :: bool
  wp_submitted :: "'j list"
  wp_ran :: "'j list"

definition NewFunctionalWorkerPool :: "nat \<Rightarrow> 'j pool" where
  "NewFunctionalWorkerPool n =
     \<lparr>wp_q = [], wp_qClosed = False, wp_terminate = False, wp_workers = replicate n Looping,
      wp_done = False, wp_submitted = [], wp_ran = []\<rparr>"

definition NewWorkerPool :: "nat \<Rightarrow> 'j pool" where
  "NewWorkerPool n = NewFunctionalWorkerPool n"

text \<open>One turn of worker \<open>i\<close>; \<open>pick\<close> resolves a \<open>select\<close> with both cases ready.\<close>

definition worker_turn :: "bool \<Rightarrow> nat \<Rightarrow> 'j pool \<Rightarrow> ('j pool) option" where
  "worker_turn pick i p =
     (let take_job = (case wp_q p of
                        j # rest \<Rightarrow> Some (p\<lparr>wp_q := rest, wp_ran := wp_ran p @ [j]\<rparr>)
                      | [] \<Rightarrow> if wp_qClosed p then Some (p\<lparr>wp_workers := (wp_workers p)[i := Returned]\<rparr>)
                              else None)
      in (case wp_workers p ! i of
            Looping \<Rightarrow>
              if wp_terminate p \<and> (pick \<or> take_job = None)
              then Some (p\<lparr>wp_workers := (wp_workers p)[i := Draining]\<rparr>) else take_job
          | Draining \<Rightarrow>
              if take_job = None then Some (p\<lparr>wp_workers := (wp_workers p)[i := Returned]\<rparr>)
              else take_job
          | Returned \<Rightarrow> None))"

definition wp_Close :: "'j pool \<Rightarrow> ('j pool) go" where
  "wp_Close p = (if wp_terminate p then Inl CloseOfClosedChannel else Inr (p\<lparr>wp_terminate := True\<rparr>))"

text \<open>
  The steps of a pool whose users send no more jobs once they have closed it; \<open>finish\<close> is the
  goroutine that waits for the workers.
\<close>

inductive pool_step :: "'j pool \<Rightarrow> 'j pool \<Rightarrow> bool" where
  submit: "\<not> wp_qClosed p \<Longrightarrow> \<not> wp_terminate p \<Longrightarrow>
     pool_step p (p\<lparr>wp_q := wp_q p @ [j], wp_submitted := wp_submitted p @ [j]\<rparr>)"
| close_queue: "\<not> wp_qClosed p \<Longrightarrow> pool_step p (p\<lparr>wp_qClosed := True\<rparr>)"
| close_pool: "wp_Close p = Inr p' \<Longrightarrow> pool_step p p'"
| turn: "i < length (wp_workers p) \<Longrightarrow> worker_turn pick i p = Some p' \<Longrightarrow> pool_step p p'"
| finish: "set (wp_workers p) \<subseteq> {Returned} \<Longrightarrow> \<not> wp_done p \<Longrightarrow> pool_step p (p\<lparr>wp_done := True\<rparr>)"

section \<open>Every job runs once\<close>

definition pool_inv :: "nat \<Rightarrow> 'j pool \<Rightarrow> bool" where
  "pool_inv n p \<longleftrightarrow>
     length (wp_workers p) = n \<and> wp_submitted p = wp_ran p @ wp_q p \<and>
     (Draining \<in> set (wp_workers p) \<longrightarrow> wp_terminate p) \<and>
     (Returned \<in> set (wp_workers p) \<longrightarrow> wp_q p = [] \<and> (wp_terminate p \<or> wp_qClosed p)) \<and>
     (wp_done p \<longrightarrow> set (wp_workers p) \<subseteq> {Returned})"

lemma pool_new_inv: "pool_inv n (NewFunctionalWorkerPool n)"
  by (simp add: pool_inv_def NewFunctionalWorkerPool_def)

lemma set_update_cases: "x \<in> set (xs[i := y]) \<Longrightarrow> x = y \<or> x \<in> set xs"
  using set_update_subset_insert[of xs i y] by auto

lemma worker_turn_inv:
  assumes inv: "pool_inv n p" and i: "i < length (wp_workers p)" and turn: "worker_turn pick i p = Some p'"
  shows "pool_inv n p'"
proof -
  have live: "wp_workers p ! i \<noteq> Returned" using turn by (auto simp: worker_turn_def Let_def)
  then have not_done: "\<not> wp_done p" using inv nth_mem[OF i] unfolding pool_inv_def by blast
  consider (job) j rest where "wp_q p = j # rest" "p' = p\<lparr>wp_q := rest, wp_ran := wp_ran p @ [j]\<rparr>"
    | (drain) "wp_terminate p" "p' = p\<lparr>wp_workers := (wp_workers p)[i := Draining]\<rparr>"
    | (return) "wp_q p = []" "wp_qClosed p \<or> wp_terminate p"
        "p' = p\<lparr>wp_workers := (wp_workers p)[i := Returned]\<rparr>"
    using turn inv nth_mem[OF i]
    by (auto simp: worker_turn_def Let_def pool_inv_def
        split: worker.splits list.splits if_splits)
  then show ?thesis
  proof cases
    case job
    then show ?thesis using inv by (auto simp: pool_inv_def)
  next
    case drain
    then show ?thesis using inv not_done by (auto simp: pool_inv_def dest: set_update_cases)
  next
    case return
    then show ?thesis using inv not_done by (auto simp: pool_inv_def dest: set_update_cases)
  qed
qed

lemma pool_step_inv: "pool_step p p' \<Longrightarrow> pool_inv n p \<Longrightarrow> pool_inv n p'"
proof (induction rule: pool_step.induct)
  case (turn i p pick p')
  then show ?case using worker_turn_inv by blast
qed (auto simp: pool_inv_def wp_Close_def split: if_splits)

lemma pool_reachable_inv: "pool_step\<^sup>*\<^sup>* (NewFunctionalWorkerPool n) p \<Longrightarrow> pool_inv n p"
  by (induction rule: rtranclp_induct) (auto intro: pool_new_inv pool_step_inv)

lemma inv_done_ran_all:
  assumes "pool_inv n p" and "0 < n" and "wp_done p"
  shows "wp_q p = []" "wp_ran p = wp_submitted p"
proof -
  obtain w where w: "w \<in> set (wp_workers p)"
    using assms(1,2) by (cases "wp_workers p") (auto simp: pool_inv_def)
  then have "w = Returned" using assms(1,3) by (auto simp: pool_inv_def)
  then show "wp_q p = []" using assms(1) w by (simp add: pool_inv_def)
  then show "wp_ran p = wp_submitted p" using assms(1) by (simp add: pool_inv_def)
qed

text \<open>
  In every reachable state of a worker pool the jobs that have been taken, followed by those
  still queued, are the jobs submitted, in order: no job is lost, doubled or overtaken in the
  queue. When \<open>Done\<close> of a pool with a worker signals, every submitted job has been run.
\<close>

theorem worker_pool_runs_all:
  assumes "0 < n" and "pool_step\<^sup>*\<^sup>* (NewFunctionalWorkerPool n) p"
  shows "wp_submitted p = wp_ran p @ wp_q p \<and> (wp_done p \<longrightarrow> wp_ran p = wp_submitted p)"
  using inv_done_ran_all[OF pool_reachable_inv[OF assms(2)] assms(1)] pool_reachable_inv[OF assms(2)]
  by (simp add: pool_inv_def)

theorem worker_pool_runs_all_witness:
  "\<exists>p :: nat pool. pool_step\<^sup>*\<^sup>* (NewFunctionalWorkerPool 1) p \<and> wp_done p \<and>
     wp_submitted p = [7] \<and> wp_ran p = [7]"
proof -
  let ?p = "\<lambda>q t w d s r. \<lparr>wp_q = q, wp_qClosed = False, wp_terminate = t, wp_workers = [w],
      wp_done = d, wp_submitted = s, wp_ran = r\<rparr> :: nat pool"
  note ev = worker_turn_def wp_Close_def NewFunctionalWorkerPool_def
  have "pool_step (NewFunctionalWorkerPool 1) (?p [7] False Looping False [7] [])"
    using pool_step.submit[of "NewFunctionalWorkerPool 1" 7] by (simp add: ev)
  moreover have "pool_step (?p [7] False Looping False [7] []) (?p [7] True Looping False [7] [])"
    by (rule pool_step.close_pool) (simp add: ev)
  moreover have "pool_step (?p [7] True Looping False [7] []) (?p [7] True Draining False [7] [])"
    by (rule pool_step.turn[of 0 _ True]) (simp_all add: ev)
  moreover have "pool_step (?p [7] True Draining False [7] []) (?p [] True Draining False [7] [7])"
    by (rule pool_step.turn[of 0 _ True]) (simp_all add: ev)
  moreover have "pool_step (?p [] True Draining False [7] [7]) (?p [] True Returned False [7] [7])"
    by (rule pool_step.turn[of 0 _ True]) (simp_all add: ev)
  moreover have "pool_step (?p [] True Returned False [7] [7]) (?p [] True Returned True [7] [7])"
    using pool_step.finish[of "?p [] True Returned False [7] [7]"] by simp
  ultimately have reach: "pool_step\<^sup>*\<^sup>* (NewFunctionalWorkerPool 1) (?p [] True Returned True [7] [7])"
    by (meson rtranclp.rtrancl_refl converse_rtranclp_into_rtranclp)
  then show ?thesis
    using worker_pool_runs_all[OF _ reach] by (intro exI[of _ "?p [] True Returned True [7] [7]"]) simp
qed

section \<open>A closed pool comes to its end\<close>

text \<open>The turns of the goroutines of the pool, without the users.\<close>

inductive pool_turn :: "'j pool \<Rightarrow> 'j pool \<Rightarrow> bool" where
  worker: "i < length (wp_workers p) \<Longrightarrow> worker_turn pick i p = Some p' \<Longrightarrow> pool_turn p p'"
| waiter: "set (wp_workers p) \<subseteq> {Returned} \<Longrightarrow> \<not> wp_done p \<Longrightarrow> pool_turn p (p\<lparr>wp_done := True\<rparr>)"

lemma pool_turn_step: "pool_turn p p' \<Longrightarrow> pool_step p p'"
  by (induction rule: pool_turn.induct) (auto intro: pool_step.turn pool_step.finish)

fun worker_weight :: "worker \<Rightarrow> nat" where
  "worker_weight Looping = 2"
| "worker_weight Draining = 1"
| "worker_weight Returned = 0"

definition pool_weight :: "'j pool \<Rightarrow> nat" where
  "pool_weight p = length (wp_q p) + (\<Sum>w \<leftarrow> wp_workers p. worker_weight w) + of_bool (\<not> wp_done p)"

lemma worker_turn_cases:
  assumes "worker_turn pick i p = Some p'"
  obtains (job) j rest where "wp_q p = j # rest" "p' = p\<lparr>wp_q := rest, wp_ran := wp_ran p @ [j]\<rparr>"
    | (moved) w where "p' = p\<lparr>wp_workers := (wp_workers p)[i := w]\<rparr>"
        "worker_weight w < worker_weight (wp_workers p ! i)"
  using assms
  by (auto simp: worker_turn_def Let_def split: worker.splits list.splits if_splits)

lemma pool_turn_weight: "pool_turn p p' \<Longrightarrow> pool_weight p' < pool_weight p"
proof (induction rule: pool_turn.induct)
  case (worker i p pick p')
  from worker(2) show ?case
  proof (cases rule: worker_turn_cases)
    case (moved w)
    then show ?thesis using weight_update[OF worker(1), of worker_weight w] by (simp add: pool_weight_def)
  qed (simp add: pool_weight_def)
qed (simp add: pool_weight_def)

lemma pool_turn_frame:
  "pool_turn p p' \<Longrightarrow> wp_submitted p' = wp_submitted p \<and> wp_terminate p' = wp_terminate p \<and> wp_qClosed p' = wp_qClosed p"
proof (induction rule: pool_turn.induct)
  case (worker i p pick p')
  from worker(2) show ?case by (cases rule: worker_turn_cases) auto
qed simp

lemma stuck_pool_done:
  assumes stuck: "\<nexists>p'. pool_turn p p'" and ending: "wp_terminate p \<or> wp_qClosed p"
  shows "wp_done p"
proof (rule ccontr)
  assume "\<not> wp_done p"
  then obtain i where i: "i < length (wp_workers p)" "wp_workers p ! i \<noteq> Returned"
    using stuck pool_turn.waiter[of p] by (force simp: in_set_conv_nth)
  have "\<exists>p'. worker_turn True i p = Some p'"
    using i(2) ending
    by (cases "wp_workers p ! i"; cases "wp_q p") (auto simp: worker_turn_def Let_def)
  then show False using stuck pool_turn.worker[OF i(1)] by blast
qed

interpretation pool_end: winding_down
  "\<lambda>p. pool_inv n p \<and> 0 < n \<and> wp_submitted p = jobs" "\<lambda>p. wp_terminate p \<or> wp_qClosed p"
  "\<lambda>p. wp_done p \<and> wp_q p = [] \<and> wp_ran p = jobs" pool_turn pool_weight
  for n jobs
proof
  fix p p' :: "'a pool"
  assume inv: "pool_inv n p \<and> 0 < n \<and> wp_submitted p = jobs"
  show "pool_turn p p' \<Longrightarrow> pool_inv n p' \<and> 0 < n \<and> wp_submitted p' = jobs"
    using inv pool_step_inv[OF pool_turn_step] pool_turn_frame by metis
  show "wp_terminate p \<or> wp_qClosed p \<Longrightarrow> pool_turn p p' \<Longrightarrow> wp_terminate p' \<or> wp_qClosed p'"
    using pool_turn_frame by metis
  show "pool_turn p p' \<Longrightarrow> pool_weight p' < pool_weight p" by (rule pool_turn_weight)
  show "wp_terminate p \<or> wp_qClosed p \<Longrightarrow> \<nexists>p'. pool_turn p p' \<Longrightarrow> wp_done p \<and> wp_q p = [] \<and> wp_ran p = jobs"
    using stuck_pool_done[of p] inv_done_ran_all[of n p] inv by simp
qed

text \<open>
  A pool that is told to terminate, or whose queue is closed, comes to its end: its goroutines
  take at most \<open>pool_weight\<close> turns, and when none of them can move, \<open>Done\<close> has signalled
  and every submitted job has been run.
\<close>

theorem worker_pool_shuts_down:
  assumes "0 < n" and "pool_step\<^sup>*\<^sup>* (NewFunctionalWorkerPool n) p"
    and "wp_terminate p \<or> wp_qClosed p" and "(pool_turn ^^ k) p p'"
  shows "k \<le> pool_weight p \<and>
         ((\<nexists>p''. pool_turn p' p'') \<longrightarrow> wp_done p' \<and> wp_q p' = [] \<and> wp_ran p' = wp_submitted p)"
  using pool_end.winds_down[OF _ assms(3,4), where n = n and jobs = "wp_submitted p"]
    pool_reachable_inv[OF assms(2)] assms(1) by simp

theorem worker_pool_shuts_down_witness:
  "\<exists>p p' :: nat pool. pool_step\<^sup>*\<^sup>* (NewFunctionalWorkerPool 1) p \<and> wp_q p = [7] \<and> wp_qClosed p \<and>
     (pool_turn ^^ 3) p p' \<and> wp_done p' \<and> wp_ran p' = [7]"
proof -
  let ?p = "\<lambda>q c w d s r. \<lparr>wp_q = q, wp_qClosed = c, wp_terminate = False, wp_workers = [w],
      wp_done = d, wp_submitted = s, wp_ran = r\<rparr> :: nat pool"
  note ev = worker_turn_def NewFunctionalWorkerPool_def
  have "pool_step (NewFunctionalWorkerPool 1) (?p [7] False Looping False [7] [])"
    using pool_step.submit[of "NewFunctionalWorkerPool 1" 7] by (simp add: ev)
  moreover have "pool_step (?p [7] False Looping False [7] []) (?p [7] True Looping False [7] [])"
    using pool_step.close_queue[of "?p [7] False Looping False [7] []"] by simp
  ultimately have reach: "pool_step\<^sup>*\<^sup>* (NewFunctionalWorkerPool 1) (?p [7] True Looping False [7] [])"
    by (meson rtranclp.rtrancl_refl converse_rtranclp_into_rtranclp)
  have t1: "pool_turn (?p [7] True Looping False [7] []) (?p [] True Looping False [7] [7])"
    by (rule pool_turn.worker[of 0 _ True]) (simp_all add: ev)
  have t2: "pool_turn (?p [] True Looping False [7] [7]) (?p [] True Returned False [7] [7])"
    by (rule pool_turn.worker[of 0 _ True]) (simp_all add: ev)
  have t3: "pool_turn (?p [] True Returned False [7] [7]) (?p [] True Returned True [7] [7])"
    using pool_turn.waiter[of "?p [] True Returned False [7] [7]"] by simp
  have run: "(pool_turn ^^ 3) (?p [7] True Looping False [7] []) (?p [] True Returned True [7] [7])"
    using t1 t2 t3 by (auto simp: numeral_3_eq_3)
  have "\<nexists>p''. pool_turn (?p [] True Returned True [7] [7]) p''"
    by (auto elim!: pool_turn.cases simp: ev)
  then have "wp_done (?p [] True Returned True [7] [7]) \<and> wp_ran (?p [] True Returned True [7] [7]) = [7]"
    using worker_pool_shuts_down[OF _ reach _ run] by simp
  then show ?thesis
    using reach run by (intro exI[of _ "?p [7] True Looping False [7] []"] exI[of _ "?p [] True Returned True [7] [7]"]) simp
qed

end
