(* ===== verification/Event_Loop.thy ===== *)
theory Event_Loop
  imports Bpf_Manager Worker_Pool
begin

text \<open>
  The event loop of \<open>internal/adapter/bpf/manager.go\<close> with its goroutines: the loop itself, the
  worker of \<open>eventQ\<close>, the three workers of \<open>watchQ\<close>, the goroutines that wait for the workers,
  the callers of \<open>SetObjects\<close>, \<open>BatchUpdateSession\<close> and \<open>BatchDeleteSession\<close>, and \<open>Close\<close>, called
  by a user or by the loop. The workers take their turns as in the theory of the worker pool; a
  job of \<open>eventQ\<close> is the number of a call. A channel without a buffer hands a value over in one
  step. The second half has the turns case by case, and what the pools of the loop keep.
\<close>

section \<open>The goroutines\<close>

text \<open>A call offers its event on \<open>eventCh\<close>, awaits the result, and has returned or panicked.\<close>

datatype call_state = CallSending | CallAwaiting | CallReturned err | CallPanicked

text \<open>
  Where the loop is: before the first \<open>select\<close>, in the second, sending a job to one of the
  queues, after the label \<open>terminate\<close>, or returned.
\<close>

datatype loop_pc = LoopTop | LoopSelect | LoopEvent nat | LoopWatch assignment | LoopTerminate | LoopReturned

datatype select_case = CaseEvent nat | CaseAssignment | CaseTerminate

text \<open>
  \<open>el_reply\<close> is the worker's send on the \<open>errCh\<close> of a call that failed. \<open>el_fifo\<close> holds the
  assignments the kernel has reported and the loop has not received. \<open>el_triggered\<close> is the
  goroutine \<open>triggerCloseInternally\<close> before its call of \<open>Close\<close>, \<open>el_closing\<close> a \<open>Close\<close>
  that holds the mutex and waits. \<open>el_log\<close> and \<open>el_arrived\<close> record what the worker has done
  and what the kernel has reported.
\<close>

record 'k event_loop =
  el_kernel :: 'k
  el_mux :: "assignment watcher_mux"
  el_lc :: lifecycle
  el_eventClosed :: bool
  el_triggered :: bool
  el_closing :: bool
  el_pc :: loop_pc
  el_events :: "nat pool"
  el_watch :: "assignment pool"
  el_reply :: "(nat \<times> go_error) option"
  el_fifo :: "assignment list"
  el_fifoClosed :: bool
  el_callEvents :: "event list"
  el_calls :: "call_state list"
  el_log :: "(nat \<times> err) list"
  el_arrived :: "assignment list"

definition qSize :: nat where
  "qSize = 10"

definition watchWorkerPoolSize :: nat where
  "watchWorkerPoolSize = 3"

text \<open>The start of \<open>eventLoop\<close>, on a manager that \<open>Run\<close> has set running.\<close>

definition eventLoop :: "'k ds_manager \<Rightarrow> 'k event_loop" where
  "eventLoop mgr =
     \<lparr>el_kernel = mgr_kernel mgr, el_mux = mgr_mux mgr, el_lc = mgr_lc mgr,
      el_eventClosed = mgr_eventClosed mgr, el_triggered = False, el_closing = False, el_pc = LoopTop,
      el_events = NewFunctionalWorkerPool 1, el_watch = NewFunctionalWorkerPool watchWorkerPoolSize,
      el_reply = None, el_fifo = [], el_fifoClosed = False, el_callEvents = [], el_calls = [],
      el_log = [], el_arrived = []\<rparr>"

abbreviation el_terminate :: "'k event_loop \<Rightarrow> bool" where
  "el_terminate s \<equiv> lc_terminate (el_lc s)"

abbreviation el_done :: "'k event_loop \<Rightarrow> bool" where
  "el_done s \<equiv> lc_done (el_lc s)"

text \<open>A send on a queue that has room.\<close>

definition wp_send :: "'j \<Rightarrow> 'j pool \<Rightarrow> ('j pool) option" where
  "wp_send j p =
     (if length (wp_q p) < qSize
      then Some (p\<lparr>wp_q := wp_q p @ [j], wp_submitted := wp_submitted p @ [j]\<rparr>) else None)"

definition goto_terminate :: "'k event_loop \<Rightarrow> ('k event_loop go) option" where
  "goto_terminate s = Some (Inr (s\<lparr>el_pc := LoopTerminate\<rparr>))"

definition loop_select :: "select_case \<Rightarrow> 'k event_loop \<Rightarrow> ('k event_loop go) option" where
  "loop_select c s =
     (case c of
        CaseEvent i \<Rightarrow>
          if el_eventClosed s then goto_terminate (s\<lparr>el_triggered := True\<rparr>)
          else if i < length (el_calls s) \<and> el_calls s ! i = CallSending
          then Some (Inr (s\<lparr>el_calls := (el_calls s)[i := CallAwaiting], el_pc := LoopEvent i\<rparr>))
          else None
      | CaseAssignment \<Rightarrow>
          (case el_fifo s of
             a # rest \<Rightarrow> Some (Inr (s\<lparr>el_fifo := rest,
                          el_pc := LoopWatch \<lparr>BackendId = BackendId a, SessionId = SessionId a\<rparr>\<rparr>))
           | [] \<Rightarrow> if el_fifoClosed s then goto_terminate (s\<lparr>el_triggered := True\<rparr>) else None)
      | CaseTerminate \<Rightarrow> if el_terminate s then goto_terminate s else None)"

text \<open>
  After \<open>terminate\<close>: both pools are done, the multiplexer is closed, \<open>doneCh\<close> is closed, and
  the deferred calls close the queues.
\<close>

definition loop_finish :: "nat map_order \<Rightarrow> 'k event_loop \<Rightarrow> ('k event_loop go) option" where
  "loop_finish ord s =
     (if wp_done (el_events s) \<and> wp_done (el_watch s) then
        Some (case wm_Close ord (el_mux s) of
                Inl p \<Rightarrow> Inl p
              | Inr wm \<Rightarrow>
                  if el_done s then Inl CloseOfClosedChannel
                  else Inr (s\<lparr>el_mux := wm, el_lc := (el_lc s)\<lparr>lc_done := True\<rparr>,
                         el_events := (el_events s)\<lparr>wp_qClosed := True\<rparr>,
                         el_watch := (el_watch s)\<lparr>wp_qClosed := True\<rparr>, el_pc := LoopReturned\<rparr>))
      else None)"

text \<open>A turn of the loop, \<open>None\<close> when it blocks; \<open>c\<close> is the case the second \<open>select\<close> takes.\<close>

definition eventLoop_turn :: "nat map_order \<Rightarrow> select_case \<Rightarrow> 'k event_loop \<Rightarrow> ('k event_loop go) option" where
  "eventLoop_turn ord c s =
     (case el_pc s of
        LoopTop \<Rightarrow> if el_terminate s then goto_terminate s else Some (Inr (s\<lparr>el_pc := LoopSelect\<rparr>))
      | LoopSelect \<Rightarrow> loop_select c s
      | LoopEvent i \<Rightarrow> map_option (\<lambda>p. Inr (s\<lparr>el_events := p, el_pc := LoopTop\<rparr>)) (wp_send i (el_events s))
      | LoopWatch a \<Rightarrow> map_option (\<lambda>p. Inr (s\<lparr>el_watch := p, el_pc := LoopTop\<rparr>)) (wp_send a (el_watch s))
      | LoopTerminate \<Rightarrow> loop_finish ord s
      | LoopReturned \<Rightarrow> None)"

text \<open>
  The worker of \<open>eventQ\<close>: a job runs \<open>handleEvent\<close>, which closes \<open>errCh\<close> when the event
  succeeded and offers the error first when it failed.
\<close>

definition event_worker_turn :: "'k bpf_objects \<Rightarrow> bool \<Rightarrow> 'k event_loop \<Rightarrow> ('k event_loop) option" where
  "event_worker_turn objs pick s =
     (if el_reply s \<noteq> None then None
      else (case worker_turn pick 0 (el_events s) of
              None \<Rightarrow> None
            | Some p \<Rightarrow>
                if wp_ran p = wp_ran (el_events s) then Some (s\<lparr>el_events := p\<rparr>)
                else let i = last (wp_ran p);
                         (er, k) = handleEvent objs (el_callEvents s ! i) (el_kernel s)
                     in Some (s\<lparr>el_events := p, el_kernel := k, el_log := el_log s @ [(i, er)],
                                el_reply := map_option (Pair i) er\<rparr>)))"

text \<open>A worker of \<open>watchQ\<close>; \<open>dispatch\<close> is the dispatch function of the multiplexer.\<close>

definition watch_worker_turn :: "(assignment \<Rightarrow> assignment watcher_mux \<Rightarrow> (assignment watcher_mux) go) \<Rightarrow>
      bool \<Rightarrow> nat \<Rightarrow> 'k event_loop \<Rightarrow> ('k event_loop go) option" where
  "watch_worker_turn dispatch pick i s =
     (case worker_turn pick i (el_watch s) of
        None \<Rightarrow> None
      | Some p \<Rightarrow>
          if wp_ran p = wp_ran (el_watch s) then Some (Inr (s\<lparr>el_watch := p\<rparr>))
          else Some (case dispatch (last (wp_ran p)) (el_mux s) of
                       Inl e \<Rightarrow> Inl e
                     | Inr wm \<Rightarrow> Inr (s\<lparr>el_watch := p, el_mux := wm\<rparr>)))"

definition pool_waiter :: "'j pool \<Rightarrow> ('j pool) option" where
  "pool_waiter p =
     (if list_all (\<lambda>w. w = Returned) (wp_workers p) \<and> \<not> wp_done p then Some (p\<lparr>wp_done := True\<rparr>) else None)"

text \<open>What a receive from the \<open>errCh\<close> of call \<open>i\<close> gives, \<open>None\<close> while it blocks.\<close>

definition errCh_recv :: "'k event_loop \<Rightarrow> nat \<Rightarrow> err option" where
  "errCh_recv s i =
     (if i \<notin> set (map fst (el_log s)) then None
      else Some (case el_reply s of
                   Some (j, e) \<Rightarrow> if j = i then Some e else None
                 | None \<Rightarrow> None))"

definition aborted :: err where
  "aborted = Some (Joined [ErrOperationAborted, ErrDSManagerIsShuttingDown])"

text \<open>\<open>await\<close>; with both channels ready, \<open>pick\<close> prefers \<open>doneCh\<close>.\<close>

definition await :: "bool \<Rightarrow> nat \<Rightarrow> 'k event_loop \<Rightarrow> ('k event_loop) option" where
  "await pick i s =
     (if i < length (el_calls s) \<and> el_calls s ! i = CallAwaiting then
        if el_done s \<and> (pick \<or> errCh_recv s i = None)
        then Some (s\<lparr>el_calls := (el_calls s)[i := CallReturned aborted]\<rparr>)
        else (case errCh_recv s i of
                None \<Rightarrow> None
              | Some er \<Rightarrow> Some (s\<lparr>el_calls := (el_calls s)[i := CallReturned er],
                              el_reply := (if er = None then el_reply s else None)\<rparr>))
      else None)"

text \<open>A call that offers its event when \<open>eventCh\<close> is closed panics.\<close>

definition send_closed :: "nat \<Rightarrow> 'k event_loop \<Rightarrow> ('k event_loop) option" where
  "send_closed i s =
     (if el_eventClosed s \<and> i < length (el_calls s) \<and> el_calls s ! i = CallSending
      then Some (s\<lparr>el_calls := (el_calls s)[i := CallPanicked]\<rparr>) else None)"

text \<open>
  \<open>Close\<close> up to its \<open>select\<close> and after it. \<open>None\<close> waits for the mutex; the boolean says that the
  call goes on to the second half. The \<open>select\<close> ends when \<open>doneCh\<close> is closed or after five
  seconds, so the second half can follow at any time.
\<close>

definition Close_begin :: "'k event_loop \<Rightarrow> ((err \<times> 'k event_loop) go) option" where
  "Close_begin s =
     (if el_closing s then None
      else Some
        (if \<not> lc_running (el_lc s) then Inr (Some ErrRunnableMustBeRunningToBeClosed, s)
         else if lc_closed (el_lc s) then Inr (Some ErrAlreadyClosed, s)
         else if el_terminate s then Inl CloseOfClosedChannel
         else Inr (None, s\<lparr>el_closing := True, el_lc := (el_lc s)\<lparr>lc_terminate := True\<rparr>,
                       el_events := (el_events s)\<lparr>wp_terminate := True\<rparr>,
                       el_watch := (el_watch s)\<lparr>wp_terminate := True\<rparr>\<rparr>)))"

definition Close_end :: "'k event_loop \<Rightarrow> ('k event_loop go) option" where
  "Close_end s =
     (if \<not> el_closing s then None
      else Some
        (if el_eventClosed s then Inl CloseOfClosedChannel
         else Inr (s\<lparr>el_closing := False, el_eventClosed := True,
                     el_lc := (el_lc s)\<lparr>lc_running := False, lc_closed := True\<rparr>\<rparr>)))"

definition triggerCloseInternally :: "'k event_loop \<Rightarrow> ('k event_loop go) option" where
  "triggerCloseInternally s =
     (if \<not> el_triggered s then None
      else (case Close_begin s of
              None \<Rightarrow> None
            | Some (Inl p) \<Rightarrow> Some (Inl p)
            | Some (Inr (_, s')) \<Rightarrow> Some (Inr (s'\<lparr>el_triggered := False\<rparr>))))"

text \<open>
  A panic in one goroutine ends the process. The set \<open>dispatch\<close> has the dispatch function once for
  every way a dispatch can go, since its outcome depends on the receivers.
\<close>

definition crashed :: "'k event_loop \<Rightarrow> bool" where
  "crashed s \<longleftrightarrow> CallPanicked \<in> set (el_calls s)"

inductive el_turn :: "'k bpf_objects \<Rightarrow> (assignment \<Rightarrow> assignment watcher_mux \<Rightarrow> (assignment watcher_mux) go) set \<Rightarrow>
    nat map_order \<Rightarrow> 'k event_loop \<Rightarrow> 'k event_loop \<Rightarrow> bool" for objs dispatch ord where
  loop: "\<not> crashed s \<Longrightarrow> eventLoop_turn ord c s = Some (Inr s') \<Longrightarrow> el_turn objs dispatch ord s s'"
| event_worker: "\<not> crashed s \<Longrightarrow> event_worker_turn objs pick s = Some s' \<Longrightarrow> el_turn objs dispatch ord s s'"
| watch_worker: "\<not> crashed s \<Longrightarrow> i < length (wp_workers (el_watch s)) \<Longrightarrow> d \<in> dispatch \<Longrightarrow>
    watch_worker_turn d pick i s = Some (Inr s') \<Longrightarrow> el_turn objs dispatch ord s s'"
| event_waiter: "\<not> crashed s \<Longrightarrow> pool_waiter (el_events s) = Some p \<Longrightarrow>
    el_turn objs dispatch ord s (s\<lparr>el_events := p\<rparr>)"
| watch_waiter: "\<not> crashed s \<Longrightarrow> pool_waiter (el_watch s) = Some p \<Longrightarrow>
    el_turn objs dispatch ord s (s\<lparr>el_watch := p\<rparr>)"
| caller: "\<not> crashed s \<Longrightarrow> await pick i s = Some s' \<Longrightarrow> el_turn objs dispatch ord s s'"
| caller_panics: "\<not> crashed s \<Longrightarrow> send_closed i s = Some s' \<Longrightarrow> el_turn objs dispatch ord s s'"
| trigger: "\<not> crashed s \<Longrightarrow> triggerCloseInternally s = Some (Inr s') \<Longrightarrow> el_turn objs dispatch ord s s'"
| closer: "\<not> crashed s \<Longrightarrow> Close_end s = Some (Inr s') \<Longrightarrow> el_turn objs dispatch ord s s'"

text \<open>
  The steps of the users and of the kernel: a new call, \<open>Close\<close>, a new watcher or the end of
  one, an assignment, and the end of the subscription.
\<close>

inductive el_step :: "'k bpf_objects \<Rightarrow> (assignment \<Rightarrow> assignment watcher_mux \<Rightarrow> (assignment watcher_mux) go) set \<Rightarrow>
    nat map_order \<Rightarrow> 'k event_loop \<Rightarrow> 'k event_loop \<Rightarrow> bool" for objs dispatch ord where
  turn: "el_turn objs dispatch ord s s' \<Longrightarrow> el_step objs dispatch ord s s'"
| call: "\<not> crashed s \<Longrightarrow> el_step objs dispatch ord s
    (s\<lparr>el_callEvents := el_callEvents s @ [e], el_calls := el_calls s @ [CallSending]\<rparr>)"
| close: "\<not> crashed s \<Longrightarrow> Close_begin s = Some (Inr (er, s')) \<Longrightarrow> el_step objs dispatch ord s s'"
| watch: "\<not> crashed s \<Longrightarrow> el_step objs dispatch ord s (s\<lparr>el_mux := snd (Watch None (el_mux s))\<rparr>)"
| unwatch: "\<not> crashed s \<Longrightarrow> h \<in> set (wm_watchers (el_mux s)) \<Longrightarrow> cancel h (el_mux s) = Inr wm \<Longrightarrow>
    el_step objs dispatch ord s (s\<lparr>el_mux := wm\<rparr>)"
| arrive: "\<not> crashed s \<Longrightarrow> \<not> el_fifoClosed s \<Longrightarrow>
    el_step objs dispatch ord s (s\<lparr>el_fifo := el_fifo s @ [a], el_arrived := el_arrived s @ [a]\<rparr>)"
| fifo_close: "\<not> crashed s \<Longrightarrow> el_step objs dispatch ord s (s\<lparr>el_fifoClosed := True\<rparr>)"

lemmas el_turn_defs = eventLoop_turn_def loop_select_def loop_finish_def goto_terminate_def wp_send_def
  event_worker_turn_def watch_worker_turn_def pool_waiter_def await_def send_closed_def
  triggerCloseInternally_def Close_begin_def Close_end_def

section \<open>The turns, one by one\<close>

lemma worker_turn_moves:
  assumes "worker_turn pick i p = Some p'"
  obtains (job) j rest where "wp_workers p ! i \<noteq> Returned" "wp_q p = j # rest"
      "p' = p\<lparr>wp_q := rest, wp_ran := wp_ran p @ [j]\<rparr>"
    | (drain) "wp_workers p ! i = Looping" "wp_terminate p"
      "p' = p\<lparr>wp_workers := (wp_workers p)[i := Draining]\<rparr>"
    | (return) "wp_workers p ! i \<noteq> Returned" "wp_q p = []" "wp_qClosed p \<or> wp_workers p ! i = Draining"
      "p' = p\<lparr>wp_workers := (wp_workers p)[i := Returned]\<rparr>"
  using assms
  by (auto simp: worker_turn_def Let_def split: worker.splits list.splits if_splits)

lemma worker_can_move:
  assumes "wp_workers p ! i \<noteq> Returned" and "wp_q p \<noteq> [] \<or> wp_terminate p"
  shows "\<exists>p'. worker_turn True i p = Some p'"
  using assms by (cases "wp_workers p ! i"; cases "wp_q p") (auto simp: worker_turn_def Let_def)

text \<open>
  A pool of the loop. Unlike the users of \<open>pool_step\<close>, the loop may send one more job after the
  termination signal: \<open>busy\<close> says that it can still do so, and a pool whose workers have all
  returned has room for it.
\<close>

definition pool_ok :: "bool \<Rightarrow> nat \<Rightarrow> bool \<Rightarrow> 'j pool \<Rightarrow> bool" where
  "pool_ok t n busy p \<longleftrightarrow>
     length (wp_workers p) = n \<and> 0 < n \<and> wp_submitted p = wp_ran p @ wp_q p \<and> wp_terminate p = t \<and>
     (Draining \<in> set (wp_workers p) \<or> Returned \<in> set (wp_workers p) \<longrightarrow> t) \<and>
     (set (wp_workers p) \<subseteq> {Returned} \<longrightarrow> length (wp_q p) + of_bool busy \<le> 1) \<and>
     (wp_done p \<longrightarrow> set (wp_workers p) \<subseteq> {Returned}) \<and> (wp_qClosed p \<longrightarrow> wp_done p)"

lemma pool_ok_turn:
  assumes ok: "pool_ok t n busy p" and i: "i < length (wp_workers p)" and turn: "worker_turn pick i p = Some p'"
  shows "pool_ok t n busy p'"
  using turn
proof (cases rule: worker_turn_moves)
  case (job j rest)
  then show ?thesis using ok nth_mem[OF i] by (auto simp: pool_ok_def)
next
  case drain
  then show ?thesis using ok nth_mem[OF i] set_update_memI[OF i, of Draining]
    by (auto simp: pool_ok_def dest: set_update_cases)
next
  case return
  then show ?thesis using ok nth_mem[OF i] by (auto simp: pool_ok_def dest: set_update_cases)
qed

lemma pool_ok_send: "pool_ok t n True p \<Longrightarrow> wp_send j p = Some p' \<Longrightarrow> pool_ok t n False p'"
  by (auto simp: pool_ok_def wp_send_def split: if_splits)

lemma pool_ok_waiter: "pool_ok t n busy p \<Longrightarrow> pool_waiter p = Some p' \<Longrightarrow> pool_ok t n busy p'"
  by (auto simp: pool_ok_def pool_waiter_def list_all_iff split: if_splits)

lemma pool_ok_terminate: "pool_ok t n busy p \<Longrightarrow> pool_ok True n busy (p\<lparr>wp_terminate := True\<rparr>)"
  by (simp add: pool_ok_def)

lemma pool_ok_close: "pool_ok t n busy p \<Longrightarrow> wp_done p \<Longrightarrow> pool_ok t n busy (p\<lparr>wp_qClosed := True\<rparr>)"
  by (simp add: pool_ok_def)

lemma pool_ok_busy: "pool_ok t n busy p \<Longrightarrow> \<not> t \<or> (b \<longrightarrow> busy) \<Longrightarrow> pool_ok t n b p"
  by (cases "wp_workers p") (auto simp: pool_ok_def)

lemma pool_ok_moves:
  assumes "pool_ok t n busy p" and "\<not> set (wp_workers p) \<subseteq> {Returned}" and "wp_q p \<noteq> [] \<or> t"
  shows "\<exists>i p'. i < length (wp_workers p) \<and> worker_turn True i p = Some p'"
proof -
  obtain i where "i < length (wp_workers p)" "wp_workers p ! i \<noteq> Returned"
    using assms(2) by (metis in_set_conv_nth insertI1 subsetI)
  then show ?thesis using worker_can_move[of p i] assms(1,3) by (auto simp: pool_ok_def)
qed

definition event_busy :: "loop_pc \<Rightarrow> bool" where
  "event_busy pc \<longleftrightarrow> (case pc of LoopSelect \<Rightarrow> True | LoopEvent _ \<Rightarrow> True | _ \<Rightarrow> False)"

definition watch_busy :: "loop_pc \<Rightarrow> bool" where
  "watch_busy pc \<longleftrightarrow> (case pc of LoopSelect \<Rightarrow> True | LoopWatch _ \<Rightarrow> True | _ \<Rightarrow> False)"

lemma assignment_eta: "\<lparr>BackendId = BackendId a, SessionId = SessionId a\<rparr> = a"
  by (cases a) simp

lemma el_turn_cases:
  assumes "el_turn objs dispatch ord s s'"
  obtains (top) "el_pc s = LoopTop" "s' = s\<lparr>el_pc := if el_terminate s then LoopTerminate else LoopSelect\<rparr>"
    | (told) "el_pc s = LoopSelect" "el_terminate s" "s' = s\<lparr>el_pc := LoopTerminate\<rparr>"
    | (closed) "el_pc s = LoopSelect" "el_eventClosed s \<or> el_fifoClosed s"
        "s' = s\<lparr>el_triggered := True, el_pc := LoopTerminate\<rparr>"
    | (event) i where "el_pc s = LoopSelect" "i < length (el_calls s)" "el_calls s ! i = CallSending"
        "s' = s\<lparr>el_calls := (el_calls s)[i := CallAwaiting], el_pc := LoopEvent i\<rparr>"
    | (assigned) a rest where "el_pc s = LoopSelect" "el_fifo s = a # rest"
        "s' = s\<lparr>el_fifo := rest, el_pc := LoopWatch a\<rparr>"
    | (send_event) i p where "el_pc s = LoopEvent i" "wp_send i (el_events s) = Some p"
        "s' = s\<lparr>el_events := p, el_pc := LoopTop\<rparr>"
    | (send_watch) a p where "el_pc s = LoopWatch a" "wp_send a (el_watch s) = Some p"
        "s' = s\<lparr>el_watch := p, el_pc := LoopTop\<rparr>"
    | (finish) wm where "el_pc s = LoopTerminate" "wp_done (el_events s)" "wp_done (el_watch s)"
        "s' = s\<lparr>el_mux := wm, el_lc := (el_lc s)\<lparr>lc_done := True\<rparr>,
               el_events := (el_events s)\<lparr>wp_qClosed := True\<rparr>,
               el_watch := (el_watch s)\<lparr>wp_qClosed := True\<rparr>, el_pc := LoopReturned\<rparr>"
        "wm_Close ord (el_mux s) = Inr wm"
    | (handle) j rest er k where "el_reply s = None" "wp_workers (el_events s) ! 0 \<noteq> Returned"
        "wp_q (el_events s) = j # rest" "handleEvent objs (el_callEvents s ! j) (el_kernel s) = (er, k)"
        "s' = s\<lparr>el_events := (el_events s)\<lparr>wp_q := rest, wp_ran := wp_ran (el_events s) @ [j]\<rparr>,
               el_kernel := k, el_log := el_log s @ [(j, er)], el_reply := map_option (Pair j) er\<rparr>"
    | (event_move) pick p where "el_reply s = None" "worker_turn pick 0 (el_events s) = Some p"
        "wp_ran p = wp_ran (el_events s)" "s' = s\<lparr>el_events := p\<rparr>"
    | (watch_turn) pick i p wm where "i < length (wp_workers (el_watch s))"
        "worker_turn pick i (el_watch s) = Some p" "s' = s\<lparr>el_watch := p, el_mux := wm\<rparr>"
        "wm = el_mux s \<or> wp_workers (el_watch s) ! i \<noteq> Returned \<and> (\<exists>a. \<exists>d \<in> dispatch. d a (el_mux s) = Inr wm)"
    | (event_done) p where "pool_waiter (el_events s) = Some p" "s' = s\<lparr>el_events := p\<rparr>"
    | (watch_done) p where "pool_waiter (el_watch s) = Some p" "s' = s\<lparr>el_watch := p\<rparr>"
    | (abort) i where "i < length (el_calls s)" "el_calls s ! i = CallAwaiting" "el_done s"
        "s' = s\<lparr>el_calls := (el_calls s)[i := CallReturned aborted]\<rparr>"
    | (result) i er where "i < length (el_calls s)" "el_calls s ! i = CallAwaiting" "errCh_recv s i = Some er"
        "s' = s\<lparr>el_calls := (el_calls s)[i := CallReturned er], el_reply := if er = None then el_reply s else None\<rparr>"
    | (panic) i where "el_eventClosed s" "i < length (el_calls s)" "el_calls s ! i = CallSending"
        "s' = s\<lparr>el_calls := (el_calls s)[i := CallPanicked]\<rparr>"
    | (trigger) er s1 where "el_triggered s" "Close_begin s = Some (Inr (er, s1))"
        "s' = s1\<lparr>el_triggered := False\<rparr>"
    | (close_end) "el_closing s" "s' = s\<lparr>el_closing := False, el_eventClosed := True,
               el_lc := (el_lc s)\<lparr>lc_running := False, lc_closed := True\<rparr>\<rparr>"
  using assms
proof cases
  case (loop c)
  note turn = loop(2)
  show ?thesis
  proof (cases "el_pc s")
    case LoopTop
    then show ?thesis using turn that(1) by (auto simp: eventLoop_turn_def goto_terminate_def split: if_splits)
  next
    case LoopSelect
    show ?thesis
    proof (cases c)
      case (CaseEvent i)
      then show ?thesis using turn LoopSelect that(3,4)
        by (auto simp: eventLoop_turn_def loop_select_def goto_terminate_def split: if_splits)
    next
      case CaseAssignment
      show ?thesis
      proof (cases "el_fifo s")
        case Nil
        then show ?thesis using turn LoopSelect CaseAssignment that(3)
          by (auto simp: eventLoop_turn_def loop_select_def goto_terminate_def split: if_splits)
      next
        case (Cons a rest)
        then show ?thesis using turn LoopSelect CaseAssignment that(5)[of a rest]
          by (simp add: eventLoop_turn_def loop_select_def assignment_eta)
      qed
    next
      case CaseTerminate
      then show ?thesis using turn LoopSelect that(2)
        by (auto simp: eventLoop_turn_def loop_select_def goto_terminate_def split: if_splits)
    qed
  next
    case (LoopEvent i)
    then show ?thesis using turn that(6) by (auto simp: eventLoop_turn_def)
  next
    case (LoopWatch a)
    then show ?thesis using turn that(7) by (auto simp: eventLoop_turn_def)
  next
    case LoopTerminate
    then show ?thesis using turn that(8)
      by (auto simp: eventLoop_turn_def loop_finish_def split: if_splits sum.splits)
  qed (use turn in \<open>simp add: eventLoop_turn_def\<close>)
next
  case (event_worker pick)
  then obtain p where none: "el_reply s = None" and p: "worker_turn pick 0 (el_events s) = Some p"
    by (cases "el_reply s"; cases "worker_turn pick 0 (el_events s)") (simp_all add: event_worker_turn_def)
  show ?thesis
  proof (cases "wp_ran p = wp_ran (el_events s)")
    case True
    then show ?thesis using event_worker none p that(10) by (simp add: event_worker_turn_def)
  next
    case False
    from p show ?thesis
    proof (cases rule: worker_turn_moves)
      case (job j rest)
      then show ?thesis using event_worker none p that(9)[of j rest]
        by (auto simp: event_worker_turn_def split: prod.splits)
    qed (use False in auto)
  qed
next
  case (watch_worker i d pick)
  then obtain p where p: "worker_turn pick i (el_watch s) = Some p"
    by (auto simp: watch_worker_turn_def split: option.splits)
  then have live: "wp_workers (el_watch s) ! i \<noteq> Returned" by (cases rule: worker_turn_moves) auto
  show ?thesis
    using watch_worker p live that(11)[of i pick p "el_mux s"] that(11)[of i pick p]
    by (auto simp: watch_worker_turn_def split: if_splits sum.splits)
next
  case (caller pick i)
  then show ?thesis using that(14,15) by (auto simp: await_def split: if_splits option.splits)
next
  case (caller_panics i)
  then show ?thesis using that(16) by (auto simp: send_closed_def split: if_splits)
next
  case trigger
  then show ?thesis using that(17) by (auto simp: triggerCloseInternally_def split: if_splits option.splits sum.splits)
next
  case closer
  then show ?thesis using that(18) by (auto simp: Close_end_def split: if_splits)
next
  case (event_waiter p)
  then show ?thesis using that(12)[of p] by simp
next
  case (watch_waiter p)
  then show ?thesis using that(13)[of p] by simp
qed

lemma Close_begin_cases:
  assumes "Close_begin s = Some (Inr (er, s'))"
  obtains (refused) e where "er = Some e" "\<not> el_closing s" "\<not> lc_running (el_lc s) \<or> lc_closed (el_lc s)" "s' = s"
    | (begun) "er = None" "\<not> el_closing s" "lc_running (el_lc s)" "\<not> lc_closed (el_lc s)" "\<not> el_terminate s"
        "s' = s\<lparr>el_closing := True, el_lc := (el_lc s)\<lparr>lc_terminate := True\<rparr>,
               el_events := (el_events s)\<lparr>wp_terminate := True\<rparr>, el_watch := (el_watch s)\<lparr>wp_terminate := True\<rparr>\<rparr>"
  using assms by (auto simp: Close_begin_def split: if_splits)

end
