(* ===== verification/Event_Loop_Refinement.thy ===== *)
theory Event_Loop_Refinement
  imports Event_Loop "HOL-Library.Sublist"
begin

text \<open>
  The invariant of the goroutines of the manager's event loop, and what follows from it. Other
  theories treat a call of the manager as one step (\<open>mgr_submit\<close>): here it is shown that the
  interleaved calls have the results of such steps, one after the other. Schedules at the end
  compute reachable states.
\<close>

section \<open>The invariant\<close>

text \<open>What the dispatch function is relied on for: an open multiplexer stays open, without a panic.\<close>

definition dispatch_safe :: "(assignment \<Rightarrow> assignment watcher_mux \<Rightarrow> (assignment watcher_mux) go) set \<Rightarrow> bool" where
  "dispatch_safe dispatch \<longleftrightarrow>
     dispatch \<noteq> {} \<and>
     (\<forall>d \<in> dispatch. \<forall>a wm. wm_open wm \<and> \<not> wm_doneClosed wm \<longrightarrow>
        (\<exists>wm'. d a wm = Inr wm' \<and> wm_open wm' \<and> \<not> wm_doneClosed wm'))"

lemma dispatch_safeD:
  assumes "dispatch_safe dispatch" and "d \<in> dispatch" and "wm_open wm" and "\<not> wm_doneClosed wm"
  obtains wm' where "d a wm = Inr wm'" "wm_open wm'" "\<not> wm_doneClosed wm'"
  using assms unfolding dispatch_safe_def by blast

definition lc_inv :: "'k event_loop \<Rightarrow> bool" where
  "lc_inv s \<longleftrightarrow>
     (el_terminate s \<longleftrightarrow> el_closing s \<or> lc_closed (el_lc s)) \<and> \<not> (el_closing s \<and> lc_closed (el_lc s)) \<and>
     (lc_running (el_lc s) \<longleftrightarrow> \<not> lc_closed (el_lc s)) \<and> (el_eventClosed s \<longleftrightarrow> lc_closed (el_lc s)) \<and>
     (el_done s \<longleftrightarrow> el_pc s = LoopReturned) \<and>
     (el_pc s \<in> {LoopTerminate, LoopReturned} \<longrightarrow> el_terminate s \<or> el_triggered s) \<and>
     (el_triggered s \<longrightarrow> el_pc s \<in> {LoopTerminate, LoopReturned}) \<and>
     (el_done s \<longrightarrow> wp_done (el_events s) \<and> wp_done (el_watch s))"

definition pools_inv :: "'k event_loop \<Rightarrow> bool" where
  "pools_inv s \<longleftrightarrow>
     pool_ok (el_terminate s) 1 (event_busy (el_pc s)) (el_events s) \<and>
     pool_ok (el_terminate s) watchWorkerPoolSize (watch_busy (el_pc s)) (el_watch s)"

definition mux_inv :: "'k event_loop \<Rightarrow> bool" where
  "mux_inv s \<longleftrightarrow> (\<not> el_done s \<longrightarrow> wm_open (el_mux s) \<and> \<not> wm_doneClosed (el_mux s))"

text \<open>The assignments reported are those queued so far, the one the loop holds, and the rest.\<close>

definition held_assignment :: "loop_pc \<Rightarrow> assignment list" where
  "held_assignment pc = (case pc of LoopWatch a \<Rightarrow> [a] | _ \<Rightarrow> [])"

definition watch_inv :: "'k event_loop \<Rightarrow> bool" where
  "watch_inv s \<longleftrightarrow> el_arrived s = wp_submitted (el_watch s) @ held_assignment (el_pc s) @ el_fifo s"

text \<open>The calls whose event the loop has received, in the order of the receipt.\<close>

definition received :: "'k event_loop \<Rightarrow> nat list" where
  "received s = wp_submitted (el_events s) @ (case el_pc s of LoopEvent i \<Rightarrow> [i] | _ \<Rightarrow> [])"

definition calls_inv :: "'k event_loop \<Rightarrow> bool" where
  "calls_inv s \<longleftrightarrow>
     length (el_callEvents s) = length (el_calls s) \<and> distinct (received s) \<and>
     (\<forall>i. i \<in> set (received s) \<longleftrightarrow>
        i < length (el_calls s) \<and> el_calls s ! i \<noteq> CallSending \<and> el_calls s ! i \<noteq> CallPanicked) \<and>
     map fst (el_log s) = wp_ran (el_events s)"

text \<open>
  An answered call has the result the worker computed, or was aborted by the end of the loop; a
  failed call that has no answer yet is the one to which the worker offers the error.
\<close>

definition reply_inv :: "'k event_loop \<Rightarrow> bool" where
  "reply_inv s \<longleftrightarrow>
     (\<forall>i r. i < length (el_calls s) \<longrightarrow> el_calls s ! i = CallReturned r \<longrightarrow>
        (i, r) \<in> set (el_log s) \<or> r = aborted \<and> el_done s) \<and>
     (\<forall>i e. i < length (el_calls s) \<longrightarrow> el_calls s ! i = CallAwaiting \<longrightarrow> (i, Some e) \<in> set (el_log s) \<longrightarrow>
        el_reply s = Some (i, e)) \<and>
     (\<forall>i e. el_reply s = Some (i, e) \<longrightarrow>
        i < length (el_calls s) \<and> el_calls s ! i = CallAwaiting \<and> (i, Some e) \<in> set (el_log s) \<and>
        wp_workers (el_events s) ! 0 \<noteq> Returned)"

lemma lc_inv_begin:
  assumes "lc_inv s" and "Close_begin s = Some (Inr (er, s'))"
  shows "lc_inv s' \<and> el_terminate s'"
  using assms(2,1) by (cases rule: Close_begin_cases) (auto simp: lc_inv_def)

lemma lc_inv_turn:
  assumes "lc_inv s" and "el_turn objs dispatch ord s s'"
  shows "lc_inv s'"
  using assms(2)
proof (cases rule: el_turn_cases)
  case (trigger er s1)
  then show ?thesis using lc_inv_begin[OF assms(1) trigger(2)] by (auto simp: lc_inv_def)
next
  case (event_move pick p)
  from event_move(2) show ?thesis
    using assms(1) event_move by (cases rule: worker_turn_moves) (auto simp: lc_inv_def)
next
  case (watch_turn pick i p wm)
  from watch_turn(2) show ?thesis
    using assms(1) watch_turn by (cases rule: worker_turn_moves) (auto simp: lc_inv_def)
qed (use assms(1) in \<open>auto simp: lc_inv_def pool_waiter_def wp_send_def split: if_splits\<close>)

lemma pools_inv_turn:
  assumes "pools_inv s" and "el_turn objs dispatch ord s s'"
  shows "pools_inv s'"
proof -
  note ev = assms(1)[unfolded pools_inv_def, THEN conjunct1]
    and wa = assms(1)[unfolded pools_inv_def, THEN conjunct2]
  have len: "length (wp_workers (el_events s)) = 1" using ev by (simp add: pool_ok_def)
  note busy = event_busy_def watch_busy_def
  from assms(2) show ?thesis
  proof (cases rule: el_turn_cases)
    case top
    then show ?thesis using pool_ok_busy[OF ev, of "\<not> el_terminate s"] pool_ok_busy[OF wa, of "\<not> el_terminate s"]
      by (auto simp: pools_inv_def busy)
  next
    case told
    then show ?thesis using pool_ok_busy[OF ev, of False] pool_ok_busy[OF wa, of False]
      by (simp add: pools_inv_def busy)
  next
    case closed
    then show ?thesis using pool_ok_busy[OF ev, of False] pool_ok_busy[OF wa, of False]
      by (simp add: pools_inv_def busy)
  next
    case (event i)
    then show ?thesis using ev pool_ok_busy[OF wa, of False] by (simp add: pools_inv_def busy)
  next
    case (assigned a rest)
    then show ?thesis using wa pool_ok_busy[OF ev, of False] by (simp add: pools_inv_def busy)
  next
    case (send_event i p)
    then show ?thesis using ev wa pool_ok_send[of _ _ "el_events s"] by (simp add: pools_inv_def busy)
  next
    case (send_watch a p)
    then show ?thesis using ev wa pool_ok_send[of _ _ "el_watch s"] by (simp add: pools_inv_def busy)
  next
    case (finish wm)
    then show ?thesis using pool_ok_close[OF ev] pool_ok_close[OF wa] by (simp add: pools_inv_def busy)
  next
    case (handle j rest er k)
    then have "worker_turn False 0 (el_events s) = Some ((el_events s)\<lparr>wp_q := rest, wp_ran := wp_ran (el_events s) @ [j]\<rparr>)"
      by (cases "wp_workers (el_events s) ! 0") (auto simp: worker_turn_def)
    from pool_ok_turn[OF ev _ this] handle wa len show ?thesis by (simp add: pools_inv_def)
  next
    case (event_move pick p)
    then show ?thesis using pool_ok_turn[OF ev _ event_move(2)] wa len by (simp add: pools_inv_def)
  next
    case (watch_turn pick i p wm)
    then show ?thesis using pool_ok_turn[OF wa watch_turn(1,2)] ev by (simp add: pools_inv_def)
  next
    case (event_done p)
    then show ?thesis using pool_ok_waiter[OF ev] wa by (simp add: pools_inv_def)
  next
    case (watch_done p)
    then show ?thesis using pool_ok_waiter[OF wa] ev by (simp add: pools_inv_def)
  next
    case (trigger er s1)
    from trigger(2) show ?thesis
      using pool_ok_terminate[OF ev] pool_ok_terminate[OF wa] assms(1) trigger(3)
      by (cases rule: Close_begin_cases) (simp_all add: pools_inv_def)
  qed (use assms(1) in \<open>simp_all add: pools_inv_def\<close>)
qed

lemma mux_inv_turn:
  assumes "dispatch_safe dispatch" and "lc_inv s" and "pools_inv s" and "mux_inv s"
    and "el_turn objs dispatch ord s s'"
  shows "mux_inv s'"
  using assms(5)
proof (cases rule: el_turn_cases)
  case (watch_turn pick i p wm)
  have "wm_open wm \<and> \<not> wm_doneClosed wm" if nd: "\<not> el_done s"
  proof -
    have mux: "wm_open (el_mux s)" "\<not> wm_doneClosed (el_mux s)" using assms(4) nd by (simp_all add: mux_inv_def)
    show ?thesis
    proof (cases "wm = el_mux s")
      case False
      then obtain a d where d: "d \<in> dispatch" "d a (el_mux s) = Inr wm" using watch_turn(4) by blast
      then show ?thesis using dispatch_safeD[OF assms(1) d(1) mux, of a] by force
    qed (use mux in simp)
  qed
  then show ?thesis using watch_turn(3) by (simp add: mux_inv_def)
next
  case (trigger er s1)
  from trigger(2) show ?thesis using trigger(3) assms(4) by (cases rule: Close_begin_cases) (simp_all add: mux_inv_def)
qed (use assms(4) in \<open>simp_all add: mux_inv_def\<close>)

lemma watch_inv_turn:
  assumes "watch_inv s" and "el_turn objs dispatch ord s s'"
  shows "watch_inv s'"
  using assms(2)
proof (cases rule: el_turn_cases)
  case (watch_turn pick i p wm)
  from watch_turn(2) show ?thesis
    using assms(1) watch_turn by (cases rule: worker_turn_moves) (simp_all add: watch_inv_def)
next
  case (trigger er s1)
  from trigger(2) show ?thesis using trigger(3) assms(1) by (cases rule: Close_begin_cases) (simp_all add: watch_inv_def)
qed (use assms(1) in \<open>auto simp: watch_inv_def held_assignment_def pool_waiter_def wp_send_def split: if_splits\<close>)

lemma calls_inv_cong:
  assumes "calls_inv s" and "received s' = received s" and "el_callEvents s' = el_callEvents s"
    and "map fst (el_log s') = wp_ran (el_events s')" and "length (el_calls s') = length (el_calls s)"
    and "\<forall>i < length (el_calls s). el_calls s' ! i \<in> {CallSending, CallPanicked} \<longleftrightarrow> el_calls s ! i \<in> {CallSending, CallPanicked}"
  shows "calls_inv s'"
  using assms unfolding calls_inv_def by auto

lemma calls_inv_turn:
  assumes inv: "calls_inv s" and "el_turn objs dispatch ord s s'"
  shows "calls_inv s'"
proof -
  have log: "map fst (el_log s) = wp_ran (el_events s)" using inv by (simp add: calls_inv_def)
  note cong = calls_inv_cong[OF inv]
  from assms(2) show ?thesis
  proof (cases rule: el_turn_cases)
    case (event i)
    then have "received s' = received s @ [i]" by (simp add: received_def)
    then show ?thesis using inv event by (auto simp: calls_inv_def nth_list_update)
  next
    case (event_move pick p)
    from event_move(2) show ?thesis
      by (cases rule: worker_turn_moves; intro cong) (use event_move log in \<open>simp_all add: received_def\<close>)
  next
    case (trigger er s1)
    from trigger(2) show ?thesis
      by (cases rule: Close_begin_cases; intro cong) (use trigger log in \<open>simp_all add: received_def\<close>)
  next
    case (abort i)
    then show ?thesis by (intro cong) (use log in \<open>auto simp: received_def nth_list_update\<close>)
  next
    case (result i er)
    then show ?thesis by (intro cong) (use log in \<open>auto simp: received_def nth_list_update\<close>)
  next
    case (panic i)
    then show ?thesis by (intro cong) (use log in \<open>auto simp: received_def nth_list_update\<close>)
  qed ((intro cong; use log in \<open>auto simp: received_def pool_waiter_def wp_send_def split: if_splits\<close>); fail)+
qed

lemma received_split:
  assumes "calls_inv s" and "pools_inv s"
  obtains pend where "received s = map fst (el_log s) @ wp_q (el_events s) @ pend"
  using assms by (simp add: pools_inv_def pool_ok_def calls_inv_def received_def)

lemma received_iff:
  "calls_inv s \<Longrightarrow> i \<in> set (received s) \<longleftrightarrow>
     i < length (el_calls s) \<and> el_calls s ! i \<noteq> CallSending \<and> el_calls s ! i \<noteq> CallPanicked"
  unfolding calls_inv_def by blast

lemma queued_not_logged:
  assumes "calls_inv s" and "pools_inv s" and "j \<in> set (wp_q (el_events s))"
  shows "j \<notin> fst ` set (el_log s)"
    and "j < length (el_calls s)" and "el_calls s ! j \<noteq> CallSending" and "el_calls s ! j \<noteq> CallPanicked"
proof -
  obtain pend where rec: "received s = map fst (el_log s) @ wp_q (el_events s) @ pend"
    using received_split[OF assms(1,2)] .
  have dist: "distinct (received s)" using assms(1) by (simp add: calls_inv_def)
  show "j \<notin> fst ` set (el_log s)" using dist assms(3) by (auto simp: rec)
  have "j \<in> set (received s)" using assms(3) by (simp add: rec)
  then show "j < length (el_calls s)" "el_calls s ! j \<noteq> CallSending" "el_calls s ! j \<noteq> CallPanicked"
    using received_iff[OF assms(1)] by blast+
qed

lemma sending_not_logged:
  assumes "calls_inv s" and "pools_inv s" and "el_calls s ! i = CallSending"
  shows "i \<notin> fst ` set (el_log s)"
proof -
  obtain pend where rec: "received s = map fst (el_log s) @ wp_q (el_events s) @ pend"
    using received_split[OF assms(1,2)] .
  have "i \<notin> set (received s)" using received_iff[OF assms(1)] assms(3) by blast
  then show ?thesis by (simp add: rec)
qed

lemma event_worker_returned:
  assumes "lc_inv s" and "pools_inv s" and "el_done s"
  shows "wp_workers (el_events s) ! 0 = Returned"
proof -
  have "set (wp_workers (el_events s)) \<subseteq> {Returned}" "0 < length (wp_workers (el_events s))"
    using assms by (simp_all add: lc_inv_def pools_inv_def pool_ok_def)
  then show ?thesis using nth_mem[of 0 "wp_workers (el_events s)"] by blast
qed

lemma reply_invI:
  assumes "\<And>i r. i < length (el_calls s) \<Longrightarrow> el_calls s ! i = CallReturned r \<Longrightarrow>
        (i, r) \<in> set (el_log s) \<or> r = aborted \<and> el_done s"
    and "\<And>i e. i < length (el_calls s) \<Longrightarrow> el_calls s ! i = CallAwaiting \<Longrightarrow> (i, Some e) \<in> set (el_log s) \<Longrightarrow>
        el_reply s = Some (i, e)"
    and "\<And>i e. el_reply s = Some (i, e) \<Longrightarrow> i < length (el_calls s) \<and> el_calls s ! i = CallAwaiting \<and>
        (i, Some e) \<in> set (el_log s) \<and> wp_workers (el_events s) ! 0 \<noteq> Returned"
  shows "reply_inv s"
  using assms unfolding reply_inv_def by blast

lemma reply_invD:
  assumes "reply_inv s"
  shows "i < length (el_calls s) \<Longrightarrow> el_calls s ! i = CallReturned r \<Longrightarrow>
        (i, r) \<in> set (el_log s) \<or> r = aborted \<and> el_done s"
    and "i < length (el_calls s) \<Longrightarrow> el_calls s ! i = CallAwaiting \<Longrightarrow> (i, Some e) \<in> set (el_log s) \<Longrightarrow>
        el_reply s = Some (i, e)"
    and "el_reply s = Some (i, e) \<Longrightarrow> i < length (el_calls s) \<and> el_calls s ! i = CallAwaiting \<and>
        (i, Some e) \<in> set (el_log s) \<and> wp_workers (el_events s) ! 0 \<noteq> Returned"
  using assms unfolding reply_inv_def by blast+

lemma reply_inv_cong:
  assumes "reply_inv s" and "el_calls s' = el_calls s" and "el_log s' = el_log s" and "el_reply s' = el_reply s"
    and "el_done s \<longrightarrow> el_done s'"
    and "el_reply s \<noteq> None \<longrightarrow> wp_workers (el_events s') = wp_workers (el_events s)"
  shows "reply_inv s'"
proof (rule reply_invI)
  fix i r assume "i < length (el_calls s')" "el_calls s' ! i = CallReturned r"
  then show "(i, r) \<in> set (el_log s') \<or> r = aborted \<and> el_done s'"
    using reply_invD(1)[OF assms(1), of i r] assms(2-5) by auto
next
  fix i e assume "i < length (el_calls s')" "el_calls s' ! i = CallAwaiting" "(i, Some e) \<in> set (el_log s')"
  then show "el_reply s' = Some (i, e)" using reply_invD(2)[OF assms(1), of i e] assms(2-4) by simp
next
  fix i e assume "el_reply s' = Some (i, e)"
  then show "i < length (el_calls s') \<and> el_calls s' ! i = CallAwaiting \<and>
        (i, Some e) \<in> set (el_log s') \<and> wp_workers (el_events s') ! 0 \<noteq> Returned"
    using reply_invD(3)[OF assms(1), of i e] assms(2-6) by simp
qed

text \<open>One call changes its state; no other call is concerned.\<close>

lemma reply_inv_call:
  assumes inv: "reply_inv s" and i: "i < length (el_calls s)"
    and reply: "\<And>j e. j \<noteq> i \<Longrightarrow> el_reply s = Some (j, e) \<longleftrightarrow> r = Some (j, e)"
    and returned: "\<And>er. st = CallReturned er \<Longrightarrow> (i, er) \<in> set (el_log s) \<or> er = aborted \<and> el_done s"
    and other: "st \<noteq> CallAwaiting \<or> i \<notin> fst ` set (el_log s)" "\<And>e. r \<noteq> Some (i, e)"
    and s': "el_calls s' = (el_calls s)[i := st]" "el_reply s' = r" "el_log s' = el_log s" "el_lc s' = el_lc s"
      "el_events s' = el_events s"
  shows "reply_inv s'"
proof (rule reply_invI)
  fix j er assume "j < length (el_calls s')" "el_calls s' ! j = CallReturned er"
  then show "(j, er) \<in> set (el_log s') \<or> er = aborted \<and> el_done s'"
    using returned reply_invD(1)[OF inv, of j er] s' by (cases "j = i") auto
next
  fix j e assume j: "j < length (el_calls s')" "el_calls s' ! j = CallAwaiting" "(j, Some e) \<in> set (el_log s')"
  then have "j \<noteq> i" using other(1) s' i by (auto simp: rev_image_eqI)
  then show "el_reply s' = Some (j, e)"
    using j reply_invD(2)[OF inv, of j e] reply s' by simp
next
  fix j e assume r: "el_reply s' = Some (j, e)"
  then have "j \<noteq> i" using other(2) s' by auto
  then show "j < length (el_calls s') \<and> el_calls s' ! j = CallAwaiting \<and>
        (j, Some e) \<in> set (el_log s') \<and> wp_workers (el_events s') ! 0 \<noteq> Returned"
    using r reply_invD(3)[OF inv, of j e] reply s' by simp
qed

lemma control_cong:
  assumes "el_lc s' = el_lc s" "el_eventClosed s' = el_eventClosed s" "el_triggered s' = el_triggered s"
    "el_closing s' = el_closing s" "el_pc s' = el_pc s" "el_events s' = el_events s" "el_watch s' = el_watch s"
  shows "lc_inv s' = lc_inv s" and "pools_inv s' = pools_inv s"
  by (simp_all only: assms lc_inv_def pools_inv_def)

lemma reply_inv_new_call:
  assumes inv: "reply_inv s" and s': "el_calls s' = el_calls s @ [CallSending]" "el_reply s' = el_reply s"
    "el_log s' = el_log s" "el_lc s' = el_lc s" "el_events s' = el_events s"
  shows "reply_inv s'"
proof -
  have old: "i < length (el_calls s) \<and> el_calls s ! i = st"
    if "i < length (el_calls s')" "el_calls s' ! i = st" "st \<noteq> CallSending" for i st
    using that s'(1) by (cases "i = length (el_calls s)") (auto simp: nth_append)
  show ?thesis
  proof (rule reply_invI)
    fix i r assume "i < length (el_calls s')" "el_calls s' ! i = CallReturned r"
    then show "(i, r) \<in> set (el_log s') \<or> r = aborted \<and> el_done s'"
      using old[of i] reply_invD(1)[OF inv, of i r] s' by auto
  next
    fix i e assume "i < length (el_calls s')" "el_calls s' ! i = CallAwaiting" "(i, Some e) \<in> set (el_log s')"
    then show "el_reply s' = Some (i, e)" using old[of i] reply_invD(2)[OF inv, of i e] s' by auto
  next
    fix i e assume "el_reply s' = Some (i, e)"
    then show "i < length (el_calls s') \<and> el_calls s' ! i = CallAwaiting \<and>
        (i, Some e) \<in> set (el_log s') \<and> wp_workers (el_events s') ! 0 \<noteq> Returned"
      using reply_invD(3)[OF inv, of i e] s' by (auto simp: nth_append)
  qed
qed

lemma errCh_recv_logged:
  assumes inv: "reply_inv s" and i: "i < length (el_calls s)" "el_calls s ! i = CallAwaiting"
    and recv: "errCh_recv s i = Some er"
  shows "(i, er) \<in> set (el_log s)" and "er = Some e \<Longrightarrow> el_reply s = Some (i, e)"
    and "er = None \<Longrightarrow> el_reply s \<noteq> Some (i, e')"
proof -
  have logged: "i \<in> fst ` set (el_log s)" using recv by (auto simp: errCh_recv_def split: if_splits)
  have er: "er = (case el_reply s of Some (j, e) \<Rightarrow> if j = i then Some e else None | None \<Rightarrow> None)"
    using recv by (simp add: errCh_recv_def split: if_splits)
  then show "er = Some e \<Longrightarrow> el_reply s = Some (i, e)" "er = None \<Longrightarrow> el_reply s \<noteq> Some (i, e')"
    by (auto split: option.splits if_splits)
  show "(i, er) \<in> set (el_log s)"
  proof (cases er)
    case None
    then have no: "\<And>e. el_reply s \<noteq> Some (i, e)" using er by (auto split: option.splits if_splits)
    obtain er' where er': "(i, er') \<in> set (el_log s)" using logged by force
    then have "er' = None" using reply_invD(2)[OF inv i] no by (cases er') auto
    then show ?thesis using er' None by simp
  next
    case (Some e)
    then have "el_reply s = Some (i, e)" using er by (auto split: option.splits if_splits)
    then show ?thesis using reply_invD(3)[OF inv] Some by blast
  qed
qed

lemma reply_inv_turn:
  assumes inv: "reply_inv s" and calls: "calls_inv s" and pools: "pools_inv s" and lc: "lc_inv s"
    and turn: "el_turn objs dispatch ord s s'"
  shows "reply_inv s'"
proof -
  note cong = reply_inv_cong[OF inv]
  note call = reply_inv_call[OF inv]
  note D = reply_invD[OF inv]
  from turn show ?thesis
  proof (cases rule: el_turn_cases)
    case (event i)
    show ?thesis
      by (rule call[OF event(2), where st = CallAwaiting and r = "el_reply s"])
        (use event sending_not_logged[OF calls pools] D(3) in auto)
  next
    case (handle j rest er k)
    have "j \<in> set (wp_q (el_events s))" using handle(3) by simp
    note j = queued_not_logged[OF calls pools this]
    have "\<not> el_done s" using handle(2) event_worker_returned[OF lc pools] by blast
    then have "el_calls s ! j = CallAwaiting"
      using j D(1)[of j] by (cases "el_calls s ! j") (auto simp: rev_image_eqI)
    note waiting = this
    have s': "el_calls s' = el_calls s" "el_log s' = el_log s @ [(j, er)]" "el_reply s' = map_option (Pair j) er"
      "el_lc s' = el_lc s" "wp_workers (el_events s') = wp_workers (el_events s)"
      using handle(5) by simp_all
    show ?thesis
    proof (rule reply_invI)
      fix i r assume "i < length (el_calls s')" "el_calls s' ! i = CallReturned r"
      then show "(i, r) \<in> set (el_log s') \<or> r = aborted \<and> el_done s'" using D(1)[of i r] s' by auto
    next
      fix i e assume "i < length (el_calls s')" "el_calls s' ! i = CallAwaiting" "(i, Some e) \<in> set (el_log s')"
      then show "el_reply s' = Some (i, e)" using D(2)[of i e] handle(1) s' by auto
    next
      fix i e assume "el_reply s' = Some (i, e)"
      then show "i < length (el_calls s') \<and> el_calls s' ! i = CallAwaiting \<and>
          (i, Some e) \<in> set (el_log s') \<and> wp_workers (el_events s') ! 0 \<noteq> Returned"
        using waiting j(2) handle(2) s' by auto
    qed
  next
    case (event_done p)
    then show ?thesis by (intro cong) (auto simp: pool_waiter_def split: if_splits)
  next
    case (send_event i p)
    then show ?thesis by (intro cong) (auto simp: wp_send_def split: if_splits)
  next
    case (trigger er s1)
    from trigger(2) show ?thesis
      by (cases rule: Close_begin_cases; intro cong) (use trigger in simp_all)
  next
    case (abort i)
    have "el_reply s = None"
      using abort(3) event_worker_returned[OF lc pools] D(3) by (cases "el_reply s") auto
    then show ?thesis
      using abort by (intro call[OF abort(1), where st = "CallReturned aborted" and r = None]) auto
  next
    case (result i er)
    note recv = errCh_recv_logged[OF inv result(1-3)]
    show ?thesis
      by (rule call[OF result(1), where st = "CallReturned er" and r = "if er = None then el_reply s else None"])
        (use recv result(4) in auto)
  next
    case (panic i)
    show ?thesis
      by (rule call[OF panic(2), where st = CallPanicked and r = "el_reply s"]) (use panic D(3) in auto)
  qed ((intro cong; simp); fail)+
qed

section \<open>The interleaved calls are calls one after the other\<close>

text \<open>The events handed to the manager one after the other, each call one step.\<close>

fun submit_all :: "'k bpf_objects \<Rightarrow> event list \<Rightarrow> 'k ds_manager \<Rightarrow> (err list \<times> 'k ds_manager) comp" where
  "submit_all objs [] mgr = Some (Inr ([], mgr))"
| "submit_all objs (e # es) mgr =
     (case mgr_submit objs e mgr of
        None \<Rightarrow> None
      | Some (Inl p) \<Rightarrow> Some (Inl p)
      | Some (Inr (er, mgr')) \<Rightarrow>
          (case submit_all objs es mgr' of
             None \<Rightarrow> None
           | Some (Inl p) \<Rightarrow> Some (Inl p)
           | Some (Inr (ers, mgr'')) \<Rightarrow> Some (Inr (er # ers, mgr''))))"

definition mgr_serving :: "'k ds_manager \<Rightarrow> bool" where
  "mgr_serving mgr \<longleftrightarrow> mgr_wf mgr \<and> lc_running (mgr_lc mgr)"

lemma mgr_submit_serving:
  "\<not> mgr_eventClosed mgr \<Longrightarrow> lc_running (mgr_lc mgr) \<Longrightarrow> \<not> lc_terminate (mgr_lc mgr) \<Longrightarrow>
     mgr_submit objs e (mgr\<lparr>mgr_kernel := k\<rparr>) =
       (case handleEvent objs e k of (er, k') \<Rightarrow> Some (Inr (er, mgr\<lparr>mgr_kernel := k'\<rparr>)))"
  by (simp add: mgr_submit_def split: prod.splits)

lemma submit_all_snoc:
  assumes "submit_all objs es mgr = Some (Inr (ers, mgr\<lparr>mgr_kernel := k\<rparr>))" and "mgr_serving mgr"
    and "handleEvent objs e k = (er, k')"
  shows "submit_all objs (es @ [e]) mgr = Some (Inr (ers @ [er], mgr\<lparr>mgr_kernel := k'\<rparr>))"
proof -
  have serving: "\<not> mgr_eventClosed mgr" "lc_running (mgr_lc mgr)" "\<not> lc_terminate (mgr_lc mgr)"
    using assms(2) by (auto simp: mgr_serving_def mgr_wf_def lc_wf_def)
  have "submit_all objs es (mgr\<lparr>mgr_kernel := k0\<rparr>) = Some (Inr (ers, mgr\<lparr>mgr_kernel := k\<rparr>)) \<Longrightarrow>
      submit_all objs (es @ [e]) (mgr\<lparr>mgr_kernel := k0\<rparr>) = Some (Inr (ers @ [er], mgr\<lparr>mgr_kernel := k'\<rparr>))" for k0
  proof (induction es arbitrary: k0 ers)
    case Nil
    then have "mgr_kernel (mgr\<lparr>mgr_kernel := k0\<rparr>) = mgr_kernel (mgr\<lparr>mgr_kernel := k\<rparr>)" by simp
    then show ?case using Nil assms(3) by (simp add: mgr_submit_serving[OF serving])
  next
    case (Cons a es)
    obtain er1 k1 where h: "handleEvent objs a k0 = (er1, k1)" by fastforce
    then obtain ers' where "submit_all objs es (mgr\<lparr>mgr_kernel := k1\<rparr>) = Some (Inr (ers', mgr\<lparr>mgr_kernel := k\<rparr>))"
      and "ers = er1 # ers'"
      using Cons.prems by (auto simp: mgr_submit_serving[OF serving] split: option.splits sum.splits)
    then show ?case using Cons.IH[of k1 ers'] h by (simp add: mgr_submit_serving[OF serving])
  qed
  from this[of "mgr_kernel mgr"] show ?thesis using assms(1) by simp
qed

definition log_inv :: "'k bpf_objects \<Rightarrow> 'k ds_manager \<Rightarrow> 'k event_loop \<Rightarrow> bool" where
  "log_inv objs mgr s \<longleftrightarrow>
     submit_all objs (map (\<lambda>(i, _). el_callEvents s ! i) (el_log s)) mgr =
       Some (Inr (map snd (el_log s), mgr\<lparr>mgr_kernel := el_kernel s\<rparr>))"

lemma log_inv_turn:
  assumes "log_inv objs mgr s" and "mgr_serving mgr" and "el_turn objs dispatch ord s s'"
  shows "log_inv objs mgr s'"
  using assms(3)
proof (cases rule: el_turn_cases)
  case (handle j rest er k)
  then show ?thesis
    using submit_all_snoc[OF assms(1)[unfolded log_inv_def] assms(2) handle(4)] by (simp add: log_inv_def)
next
  case (trigger er s1)
  from trigger(2) show ?thesis
    using trigger(3) assms(1) by (cases rule: Close_begin_cases) (simp_all add: log_inv_def)
qed (use assms(1) in \<open>simp_all add: log_inv_def\<close>)

definition el_inv :: "'k bpf_objects \<Rightarrow> 'k ds_manager \<Rightarrow> 'k event_loop \<Rightarrow> bool" where
  "el_inv objs mgr s \<longleftrightarrow>
     lc_inv s \<and> pools_inv s \<and> mux_inv s \<and> watch_inv s \<and> calls_inv s \<and> reply_inv s \<and> log_inv objs mgr s"

lemma el_inv_turn:
  assumes "dispatch_safe dispatch" and "mgr_serving mgr" and "el_inv objs mgr s" and "el_turn objs dispatch ord s s'"
  shows "el_inv objs mgr s'"
proof -
  have inv: "lc_inv s" "pools_inv s" "mux_inv s" "watch_inv s" "calls_inv s" "reply_inv s" "log_inv objs mgr s"
    using assms(3) by (simp_all add: el_inv_def)
  show ?thesis
    using lc_inv_turn[OF inv(1) assms(4)] pools_inv_turn[OF inv(2) assms(4)]
      mux_inv_turn[OF assms(1) inv(1-3) assms(4)] watch_inv_turn[OF inv(4) assms(4)]
      calls_inv_turn[OF inv(5) assms(4)] reply_inv_turn[OF inv(6,5,2,1) assms(4)]
      log_inv_turn[OF inv(7) assms(2,4)]
    by (simp add: el_inv_def)
qed

lemma el_inv_frame:
  assumes "el_inv objs mgr s" and "mux_inv s'" and "watch_inv s'"
    and control: "el_lc s' = el_lc s" "el_eventClosed s' = el_eventClosed s" "el_triggered s' = el_triggered s"
    "el_closing s' = el_closing s" "el_pc s' = el_pc s" "el_events s' = el_events s" "el_watch s' = el_watch s"
    and calls: "el_calls s' = el_calls s" "el_callEvents s' = el_callEvents s" "el_log s' = el_log s"
    "el_reply s' = el_reply s" "el_kernel s' = el_kernel s"
  shows "el_inv objs mgr s'"
proof -
  have "reply_inv s'" using reply_inv_cong[of s s'] assms(1) control calls by (simp add: el_inv_def)
  moreover have "calls_inv s'" "log_inv objs mgr s'"
    using assms(1) unfolding el_inv_def calls_inv_def log_inv_def received_def control calls by blast+
  ultimately show ?thesis using control_cong[OF control] assms(1-3) by (simp add: el_inv_def)
qed

lemma el_inv_step:
  assumes "dispatch_safe dispatch" and "mgr_serving mgr" and "el_inv objs mgr s" and "el_step objs dispatch ord s s'"
  shows "el_inv objs mgr s'"
  using assms(4)
proof cases
  case turn
  then show ?thesis using el_inv_turn assms(1-3) by blast
next
  case (call e)
  have bound: "i < length (el_callEvents s)" if "i \<in> fst ` set (el_log s)" for i
  proof -
    have inv: "calls_inv s" "pools_inv s" using assms(3) by (simp_all add: el_inv_def)
    obtain pend where "received s = map fst (el_log s) @ wp_q (el_events s) @ pend"
      using received_split[OF inv] .
    then have "i \<in> set (received s)" using that by simp
    then show ?thesis using received_iff[OF inv(1)] inv(1) by (simp add: calls_inv_def)
  qed
  then have evs: "map (\<lambda>(i, _). (el_callEvents s @ [e]) ! i) (el_log s) = map (\<lambda>(i, _). el_callEvents s ! i) (el_log s)"
    by (force simp: nth_append)
  have s': "el_log s' = el_log s" "el_kernel s' = el_kernel s" "el_callEvents s' = el_callEvents s @ [e]"
    using call(1) by simp_all
  have "log_inv objs mgr s'" using assms(3) unfolding el_inv_def log_inv_def s' evs by blast
  moreover have "calls_inv s'"
    using call(1) assms(3) received_iff[of s] by (auto simp: el_inv_def calls_inv_def received_def nth_append less_Suc_eq)
  moreover have "reply_inv s'"
    using reply_inv_new_call[of s s'] call(1) assms(3) by (simp add: el_inv_def)
  moreover have "lc_inv s'" "pools_inv s'" using control_cong[of s' s] call(1) assms(3) by (simp_all add: el_inv_def)
  ultimately show ?thesis using call(1) assms(3) by (simp add: el_inv_def mux_inv_def watch_inv_def)
next
  case (close er)
  have "pools_inv s'"
    using close(2) assms(3) pool_ok_terminate[of _ _ _ "el_events s"] pool_ok_terminate[of _ _ _ "el_watch s"]
    by (cases rule: Close_begin_cases) (auto simp: el_inv_def pools_inv_def)
  moreover have "reply_inv s'"
    using close(2) assms(3) by (cases rule: Close_begin_cases) (auto simp: el_inv_def intro: reply_inv_cong[of s])
  moreover have "lc_inv s'" using lc_inv_begin close(2) assms(3) by (auto simp: el_inv_def)
  moreover have "mux_inv s' \<and> watch_inv s' \<and> calls_inv s' \<and> log_inv objs mgr s'"
    using close(2) assms(3)
    by (cases rule: Close_begin_cases) (auto simp: el_inv_def mux_inv_def watch_inv_def calls_inv_def received_def log_inv_def)
  ultimately show ?thesis by (simp add: el_inv_def)
next
  case watch
  show ?thesis
    by (rule el_inv_frame[OF assms(3)])
      (use watch(1) assms(3) Watch_open[of "el_mux s" None] in
        \<open>simp_all add: el_inv_def mux_inv_def watch_inv_def Watch_def Let_def\<close>)
next
  case (unwatch h wm)
  show ?thesis
  proof (rule el_inv_frame[OF assms(3)])
    show "mux_inv s'"
      using unwatch assms(3) cancel_open[of "el_mux s" "fst h" "snd h"] by (auto simp: el_inv_def mux_inv_def)
  qed (use unwatch(1) assms(3) in \<open>simp_all add: el_inv_def watch_inv_def\<close>)
next
  case (arrive a)
  show ?thesis
    by (rule el_inv_frame[OF assms(3)])
      (use arrive(1) assms(3) in \<open>simp_all add: el_inv_def mux_inv_def watch_inv_def\<close>)
next
  case fifo_close
  show ?thesis
    by (rule el_inv_frame[OF assms(3)])
      (use fifo_close(1) assms(3) in \<open>simp_all add: el_inv_def mux_inv_def watch_inv_def\<close>)
qed

lemma eventLoop_inv:
  assumes "mgr_serving mgr"
  shows "el_inv objs mgr (eventLoop mgr)"
proof -
  have lc: "\<not> lc_closed (mgr_lc mgr)" "\<not> lc_terminate (mgr_lc mgr)" "lc_running (mgr_lc mgr)" "\<not> mgr_eventClosed mgr"
    "\<not> lc_done (mgr_lc mgr)" "wm_open (mgr_mux mgr)" "\<not> wm_doneClosed (mgr_mux mgr)"
    using assms by (auto simp: mgr_serving_def mgr_wf_def lc_wf_def)
  then show ?thesis
    by (simp add: el_inv_def lc_inv_def pools_inv_def pool_ok_def mux_inv_def watch_inv_def calls_inv_def reply_inv_def
        log_inv_def received_def held_assignment_def eventLoop_def NewFunctionalWorkerPool_def watchWorkerPoolSize_def
        event_busy_def watch_busy_def)
qed

lemma el_reachable_inv:
  assumes "dispatch_safe dispatch" and "mgr_serving mgr" and "(el_step objs dispatch ord)\<^sup>*\<^sup>* (eventLoop mgr) s"
  shows "el_inv objs mgr s"
  using assms(3) by (induction rule: rtranclp_induct) (use eventLoop_inv el_inv_step assms(1,2) in blast)+

lemma el_turn_log: "el_turn objs dispatch ord s s' \<Longrightarrow> prefix (el_log s) (el_log s')"
  by (erule el_turn_cases) (auto elim!: Close_begin_cases)

lemma el_step_log: "el_step objs dispatch ord s s' \<Longrightarrow> prefix (el_log s) (el_log s')"
  by (erule el_step.cases) (auto intro: el_turn_log elim!: Close_begin_cases)

lemma el_steps_log: "(el_step objs dispatch ord)\<^sup>*\<^sup>* s s' \<Longrightarrow> prefix (el_log s) (el_log s')"
  by (induction rule: rtranclp_induct) (use el_step_log prefix_order.trans in blast)+

lemma el_inv_log:
  assumes "el_inv objs mgr s"
  shows "distinct (map fst (el_log s))" and "fst ` set (el_log s) \<subseteq> {..<length (el_calls s)}"
proof -
  have inv: "calls_inv s" "pools_inv s" using assms by (simp_all add: el_inv_def)
  obtain pend where rec: "received s = map fst (el_log s) @ wp_q (el_events s) @ pend"
    using received_split[OF inv] .
  have "distinct (received s)" using inv(1) by (simp add: calls_inv_def)
  then show "distinct (map fst (el_log s))" unfolding rec by simp
  show "fst ` set (el_log s) \<subseteq> {..<length (el_calls s)}" using received_iff[OF inv(1)] rec by auto
qed

text \<open>
  C14. Calls of the manager from any number of goroutines, interleaved in any way with the loop, its
  workers and \<open>Close\<close>, have the effect of calls made one after the other. The sequence is
  \<open>el_log\<close>: handing its events to \<open>mgr_submit\<close> in turn gives the state of the kernel and the
  logged results. No call is in it twice; every call in it had begun; it only grows, so a call that
  began after another had its answer comes later. A call returns the result logged for it, unless
  the loop has ended and it returns the error of an aborted operation.
\<close>

theorem event_loop_refines_sequential:
  assumes "mgr_serving mgr" and "dispatch_safe dispatch"
    and "(el_step objs dispatch ord)\<^sup>*\<^sup>* (eventLoop mgr) s"
  shows "submit_all objs (map (\<lambda>(i, _). el_callEvents s ! i) (el_log s)) mgr =
           Some (Inr (map snd (el_log s), mgr\<lparr>mgr_kernel := el_kernel s\<rparr>)) \<and>
         distinct (map fst (el_log s)) \<and> fst ` set (el_log s) \<subseteq> {..<length (el_calls s)} \<and>
         (\<forall>s'. (el_step objs dispatch ord)\<^sup>*\<^sup>* s s' \<longrightarrow> prefix (el_log s) (el_log s')) \<and>
         (\<forall>i < length (el_calls s). \<forall>r. el_calls s ! i = CallReturned r \<longrightarrow>
            (i, r) \<in> set (el_log s) \<or> r = aborted \<and> el_done s)"
proof -
  have inv: "el_inv objs mgr s" by (rule el_reachable_inv[OF assms(2,1,3)])
  then have "log_inv objs mgr s" "reply_inv s" by (simp_all add: el_inv_def)
  then show ?thesis
    using el_inv_log[OF inv] el_steps_log[of objs dispatch ord s] reply_invD(1)[of s] by (simp add: log_inv_def)
qed

section \<open>The data plane sees one set of objects\<close>

lemma submit_all_sets:
  assumes "double_buffered ptr side objs" and "submit_all objs es mgr = Some (Inr (ers, mgr'))"
    and "\<forall>e \<in> set es. ev_kind e = EventKindSet"
  shows "active ptr side (mgr_kernel mgr') =
           fold (\<lambda>(e, er) x. if er = None then ev_set e else x) (zip es ers) (active ptr side (mgr_kernel mgr))"
  using assms(2,3)
proof (induction es arbitrary: mgr ers)
  case (Cons e es)
  obtain er k where h: "setObjects objs (ev_set e) (mgr_kernel mgr) = (er, k)" by fastforce
  then have sub: "mgr_submit objs e mgr = Some (Inr (er, mgr\<lparr>mgr_kernel := k\<rparr>))"
    using Cons.prems by (auto simp: mgr_submit_def handleEvent_def Let_def split: if_splits)
  then obtain ers' where ers: "ers = er # ers'" "submit_all objs es (mgr\<lparr>mgr_kernel := k\<rparr>) = Some (Inr (ers', mgr'))"
    using Cons.prems(1) by (auto split: option.splits sum.splits)
  show ?case
    using Cons.IH[OF ers(2)] Cons.prems(2) setObjects_atomic[OF assms(1) h] ers(1) by simp
qed simp


section \<open>The dispatch function of the controller\<close>

text \<open>The multiplexer of the controller dispatches with a timeout.\<close>

definition timeout_dispatches :: "nat map_order \<Rightarrow>
      (assignment \<Rightarrow> assignment watcher_mux \<Rightarrow> (assignment watcher_mux) go) set" where
  "timeout_dispatches ord = (\<Union>pick drained. {DispatchFuncWithTimeout ord pick drained})"

lemma timeout_dispatches_safe:
  assumes "is_map_order ord"
  shows "dispatch_safe (timeout_dispatches ord)"
proof -
  have "\<exists>wm'. DispatchFuncWithTimeout ord pick drained a wm = Inr wm' \<and> wm_open wm' \<and> \<not> wm_doneClosed wm'"
    if wm: "wm_open wm" "\<not> wm_doneClosed wm" for pick drained a and wm :: "assignment watcher_mux"
  proof -
    have wf: "wm_wf wm" using wm by (simp add: wm_open_def)
    note gw = getWatcherList_wf[OF assms wf]
    define g where "g = (\<lambda>b (w :: assignment watcher). projr (dispatchOne (pick b) (drained b) a w))"
    have one: "dispatchOne (pick b) (drained b) a w = Inr (g b w) \<and> w_chClosed (g b w) = w_chClosed w \<and>
        w_doneClosed (g b w) = w_doneClosed w \<and> w_once (g b w) = w_once w"
      if "\<not> w_chClosed w" for b w
      using that by (simp add: g_def dispatchOne_def select_send_def Let_def)
    have "dispatchOne (pick b) (drained b) a (wm_objs wm ! b) = Inr (g b (wm_objs wm ! b))"
      if "b \<in> set (getWatcherList ord wm)" for b
      using one registered_open(2)[OF wm(1)] that gw(1) by blast
    then obtain objs where objs: "DispatchFuncWithTimeout ord pick drained a wm = Inr (wm\<lparr>wm_objs := objs\<rparr>)"
      "length objs = length (wm_objs wm)"
      "\<forall>i < length objs. objs ! i = (if i \<in> set (getWatcherList ord wm) then g i (wm_objs wm ! i) else wm_objs wm ! i)"
      unfolding DispatchFuncWithTimeout_def
      using update_all[of "getWatcherList ord wm" wm "\<lambda>b. dispatchOne (pick b) (drained b) a" g, OF gw(3,2)] by blast
    have "\<not> w_chClosed (objs ! b) \<and> \<not> w_doneClosed (objs ! b) \<and> \<not> w_once (objs ! b)"
      if "(i, b) \<in> set (wm_watchers wm)" for i b
    proof -
      have b: "b \<in> snd ` set (wm_watchers wm)" using that by force
      then show ?thesis using registered_open[OF wm(1) b] objs(2,3) one[of "wm_objs wm ! b" b] by auto
    qed
    then have "wm_open (wm\<lparr>wm_objs := objs\<rparr>)" using wf objs(2) by (auto simp: wm_open_def wm_wf_def)
    then show ?thesis using objs(1) wm(2) by simp
  qed
  then show ?thesis by (auto simp: dispatch_safe_def timeout_dispatches_def)
qed

section \<open>Schedules\<close>

text \<open>A schedule names the goroutine that moves; running it computes a reachable state.\<close>

datatype move = MCall event | MClose | MCloseEnd | MTrigger | MLoop select_case | MEvent bool
  | MWatch bool nat | MWaiters | MAwait bool nat | MPanic nat

definition step_of :: "('k event_loop go) option \<Rightarrow> ('k event_loop) option" where
  "step_of r = (case r of Some (Inr s) \<Rightarrow> Some s | _ \<Rightarrow> None)"

fun el_move :: "'k bpf_objects \<Rightarrow> (assignment \<Rightarrow> assignment watcher_mux \<Rightarrow> (assignment watcher_mux) go) \<Rightarrow>
      nat map_order \<Rightarrow> move \<Rightarrow> 'k event_loop \<Rightarrow> ('k event_loop) option" where
  "el_move objs d ord (MCall e) s =
     Some (s\<lparr>el_callEvents := el_callEvents s @ [e], el_calls := el_calls s @ [CallSending]\<rparr>)"
| "el_move objs d ord MClose s = step_of (map_option (map_sum id snd) (Close_begin s))"
| "el_move objs d ord MCloseEnd s = step_of (Close_end s)"
| "el_move objs d ord MTrigger s = step_of (triggerCloseInternally s)"
| "el_move objs d ord (MLoop c) s = step_of (eventLoop_turn ord c s)"
| "el_move objs d ord (MEvent pick) s = event_worker_turn objs pick s"
| "el_move objs d ord (MWatch pick i) s =
     (if i < length (wp_workers (el_watch s)) then step_of (watch_worker_turn d pick i s) else None)"
| "el_move objs d ord MWaiters s =
     (case pool_waiter (el_events s) of
        Some p \<Rightarrow> Some (s\<lparr>el_events := p\<rparr>)
      | None \<Rightarrow> map_option (\<lambda>p. s\<lparr>el_watch := p\<rparr>) (pool_waiter (el_watch s)))"
| "el_move objs d ord (MAwait pick i) s = await pick i s"
| "el_move objs d ord (MPanic i) s = send_closed i s"

fun run_moves :: "'k bpf_objects \<Rightarrow> (assignment \<Rightarrow> assignment watcher_mux \<Rightarrow> (assignment watcher_mux) go) \<Rightarrow>
      nat map_order \<Rightarrow> move list \<Rightarrow> 'k event_loop \<Rightarrow> ('k event_loop) option" where
  "run_moves objs d ord [] s = Some s"
| "run_moves objs d ord (m # ms) s =
     (if crashed s then None
      else (case el_move objs d ord m s of None \<Rightarrow> None | Some s' \<Rightarrow> run_moves objs d ord ms s'))"

lemma el_move_step:
  assumes "\<not> crashed s" and "d \<in> dispatch" and "el_move objs d ord m s = Some s'"
  shows "el_step objs dispatch ord s s'"
proof (cases m)
  case (MCall e)
  then show ?thesis using assms(3) el_step.call[OF assms(1)] by auto
next
  case MClose
  then obtain er where "Close_begin s = Some (Inr (er, s'))"
    using assms(3) by (cases "Close_begin s"; cases "the (Close_begin s)") (auto simp: step_of_def)
  then show ?thesis using el_step.close[OF assms(1)] by blast
next
  case MWaiters
  then show ?thesis using assms(3) el_turn.event_waiter[OF assms(1)] el_turn.watch_waiter[OF assms(1)]
    by (auto split: option.splits intro: el_step.turn)
next
  case (MWatch pick i)
  then show ?thesis using assms(3) el_turn.watch_worker[OF assms(1) _ assms(2)]
    by (auto simp: step_of_def split: option.splits sum.splits if_splits intro: el_step.turn)
qed (use assms(3) el_turn.intros[OF assms(1)] in
      \<open>auto simp: step_of_def split: option.splits sum.splits intro: el_step.turn\<close>)

lemma run_moves_reach:
  assumes "run_moves objs d ord ms s = Some s'" and "d \<in> dispatch"
  shows "(el_step objs dispatch ord)\<^sup>*\<^sup>* s s'"
  using assms(1)
proof (induction ms arbitrary: s)
  case (Cons m ms)
  then obtain s1 where "\<not> crashed s" "el_move objs d ord m s = Some s1" "run_moves objs d ord ms s1 = Some s'"
    by (auto split: if_splits option.splits)
  then show ?case using Cons.IH el_move_step[OF _ assms(2)] by (meson converse_rtranclp_into_rtranclp)
qed simp

text \<open>An update of the session map, and the ways the multiplexer can go in these examples.\<close>

definition example_update :: event where
  "example_update = \<lparr>ev_kind = EventKindSessionBatchUpdate, ev_set = no_objects,
     ev_sessionBatchUpdate = [5 \<mapsto> 1], ev_sessionBatchDelete = []\<rparr>"

abbreviation prompt :: "assignment \<Rightarrow> assignment watcher_mux \<Rightarrow> (assignment watcher_mux) go" where
  "prompt \<equiv> DispatchFuncWithTimeout rev (\<lambda>_. False) (\<lambda>_. 0)"

abbreviation example_step :: "two_sides event_loop \<Rightarrow> two_sides event_loop \<Rightarrow> bool" where
  "example_step \<equiv> el_step two_copies (timeout_dispatches rev) rev"

abbreviation example_turn :: "two_sides event_loop \<Rightarrow> two_sides event_loop \<Rightarrow> bool" where
  "example_turn \<equiv> el_turn two_copies (timeout_dispatches rev) rev"

lemma prompt_dispatch: "prompt \<in> timeout_dispatches rev"
  by (auto simp: timeout_dispatches_def)

lemma running_manager_serving: "mgr_serving running_manager"
  using running_manager_wf by (simp add: mgr_serving_def)

lemmas example_reach = run_moves_reach[OF _ prompt_dispatch, of two_copies rev _ "eventLoop running_manager"]

lemmas move_defs = eventLoop_def NewFunctionalWorkerPool_def watchWorkerPoolSize_def numeral_eq_Suc crashed_def
  step_of_def el_turn_defs qSize_def worker_turn_def errCh_recv_def NewDataStructureManager_def lc_new_def
  handleEvent_def two_copies_def example_update_def wm_Close_def getWatcherList_def NewWatcherMux_def no_objects_def

text \<open>
  \<open>Close\<close> closes \<open>eventCh\<close> under the callers: a call that offers its event when \<open>Close\<close>
  finishes panics with a send on a closed channel, and the process ends.
\<close>

theorem close_panics_offering_call:
  "\<exists>s. example_step\<^sup>*\<^sup>* (eventLoop running_manager) s \<and> lc_closed (el_lc s) \<and> el_calls s = [CallPanicked]"
proof -
  have "\<exists>s. run_moves two_copies prompt rev [MCall example_update, MClose, MCloseEnd, MPanic 0]
      (eventLoop running_manager) = Some s \<and> lc_closed (el_lc s) \<and> el_calls s = [CallPanicked]"
    by (simp add: move_defs)
  then show ?thesis using example_reach by blast
qed

text \<open>
  A call that returns the error of an aborted operation may have taken effect: with the result on
  \<open>errCh\<close> and \<open>doneCh\<close> closed, the \<open>select\<close> of \<open>await\<close> may take either.
\<close>

theorem aborted_call_took_effect:
  "\<exists>s. example_step\<^sup>*\<^sup>* (eventLoop running_manager) s \<and> el_calls s = [CallReturned aborted] \<and> el_log s = [(0, None)] \<and>
       eo_SessionMap (active fst side_of (el_kernel s)) = [5 \<mapsto> 1]"
proof -
  have "\<exists>s. run_moves two_copies prompt rev
      [MCall example_update, MLoop CaseTerminate, MLoop (CaseEvent 0), MLoop CaseTerminate, MEvent False, MClose,
       MEvent True, MEvent True, MWatch True 0, MWatch True 0, MWatch True 1, MWatch True 1, MWatch True 2, MWatch True 2,
       MWaiters, MWaiters, MLoop CaseTerminate, MLoop CaseTerminate, MAwait True 0]
      (eventLoop running_manager) = Some s \<and> el_calls s = [CallReturned aborted] \<and> el_log s = [(0, None)] \<and>
       eo_SessionMap (active fst side_of (el_kernel s)) = [5 \<mapsto> 1]"
    by (simp add: move_defs)
  then show ?thesis using example_reach by blast
qed

theorem event_loop_refines_sequential_witness:
  "\<exists>s. example_step\<^sup>*\<^sup>* (eventLoop running_manager) s \<and> el_calls s = [CallReturned None] \<and>
       submit_all two_copies [example_update] running_manager =
         Some (Inr ([None], running_manager\<lparr>mgr_kernel := el_kernel s\<rparr>))"
proof -
  have "\<exists>s. run_moves two_copies prompt rev
      [MCall example_update, MLoop CaseTerminate, MLoop (CaseEvent 0), MLoop CaseTerminate, MEvent False, MAwait False 0]
      (eventLoop running_manager) = Some s \<and> el_calls s = [CallReturned None] \<and> el_log s = [(0, None)] \<and>
       el_callEvents s = [example_update]"
    by (simp add: move_defs)
  then obtain s where s: "run_moves two_copies prompt rev
      [MCall example_update, MLoop CaseTerminate, MLoop (CaseEvent 0), MLoop CaseTerminate, MEvent False, MAwait False 0]
      (eventLoop running_manager) = Some s" "el_calls s = [CallReturned None]" "el_log s = [(0, None)]"
       "el_callEvents s = [example_update]" by blast
  note reach = example_reach[OF s(1)]
  show ?thesis
    using event_loop_refines_sequential[OF running_manager_serving timeout_dispatches_safe[OF map_order_rev] reach]
      s(2-4) reach by auto
qed

definition example_set :: event where
  "example_set = \<lparr>ev_kind = EventKindSet,
     ev_set = \<lparr>eo_BackendList = [], eo_LookupTable = [0, 1], eo_SessionMap = [5 \<mapsto> 1]\<rparr>,
     ev_sessionBatchUpdate = Map.empty, ev_sessionBatchDelete = []\<rparr>"


end
