(* ===== verification/Event_Loop_Progress.thy ===== *)
theory Event_Loop_Progress
  imports Event_Loop_Refinement
begin

text \<open>
  The event loop of \<open>internal/adapter/bpf/manager.go\<close> makes progress: every turn of a goroutine
  uses up weight, and a state in which no goroutine can move is one in which every call has been
  answered, or, after \<open>Close\<close>, one in which the loop has ended and nobody waits.
\<close>

section \<open>No call hangs\<close>

fun call_weight :: "call_state \<Rightarrow> nat" where
  "call_weight CallSending = 6"
| "call_weight CallAwaiting = 1"
| "call_weight _ = 0"

fun pc_weight :: "loop_pc \<Rightarrow> nat" where
  "pc_weight LoopTop = 6"
| "pc_weight LoopSelect = 5"
| "pc_weight (LoopEvent _) = 9"
| "pc_weight (LoopWatch _) = 8"
| "pc_weight LoopTerminate = 1"
| "pc_weight LoopReturned = 0"

definition el_weight :: "'k event_loop \<Rightarrow> nat" where
  "el_weight s =
     (\<Sum>c \<leftarrow> el_calls s. call_weight c) + pc_weight (el_pc s) +
     length (wp_q (el_events s)) + pool_weight (el_events s) + pool_weight (el_watch s) +
     4 * length (el_fifo s) + of_bool (el_reply s \<noteq> None) + 2 * of_bool (el_triggered s) + of_bool (el_closing s)"

lemma worker_turn_weight:
  assumes "i < length (wp_workers p)" and "worker_turn pick i p = Some p'"
  shows "pool_weight p' < pool_weight p" and "length (wp_q p') \<le> length (wp_q p)"
  using assms(2) pool_turn_weight[OF pool_turn.worker[OF assms]]
  by (auto elim!: worker_turn_cases)

lemma call_update_weight:
  assumes "i < length (el_calls s)" and "el_calls s ! i = c"
  shows "(\<Sum>c \<leftarrow> (el_calls s)[i := c']. call_weight c) + call_weight c = (\<Sum>c \<leftarrow> el_calls s. call_weight c) + call_weight c'"
  using weight_update[OF assms(1), of call_weight c'] assms(2) by simp

lemma el_turn_weight:
  assumes "pools_inv s" and "el_turn objs dispatch ord s s'"
  shows "el_weight s' < el_weight s"
  using assms(2)
proof (cases rule: el_turn_cases)
  case (event i)
  then show ?thesis using call_update_weight[OF event(2,3), of CallAwaiting] by (simp add: el_weight_def)
next
  case (event_move pick p)
  have "0 < length (wp_workers (el_events s))" using assms(1) by (simp add: pools_inv_def pool_ok_def)
  from worker_turn_weight[OF this event_move(2)] show ?thesis using event_move by (simp add: el_weight_def)
next
  case (watch_turn pick i p wm)
  then show ?thesis using worker_turn_weight(1)[OF watch_turn(1,2)] by (simp add: el_weight_def)
next
  case (abort i)
  then show ?thesis using call_update_weight[OF abort(1,2), of "CallReturned aborted"] by (simp add: el_weight_def)
next
  case (result i er)
  then show ?thesis using call_update_weight[OF result(1,2), of "CallReturned er"] by (cases er) (simp_all add: el_weight_def)
next
  case (panic i)
  then show ?thesis using call_update_weight[OF panic(2,3), of CallPanicked] by (simp add: el_weight_def)
next
  case (trigger er s1)
  from trigger(2) show ?thesis
    using trigger(1,3) by (cases rule: Close_begin_cases) (simp_all add: el_weight_def pool_weight_def)
qed (auto simp: el_weight_def pool_weight_def wp_send_def pool_waiter_def split: if_splits)

text \<open>What keeps a state from being stuck, goroutine by goroutine.\<close>

lemma reply_moves:
  assumes "el_inv objs mgr s" and "\<not> crashed s" and "i < length (el_calls s)" "el_calls s ! i = CallAwaiting"
    and "i \<in> fst ` set (el_log s) \<or> el_done s"
  shows "\<exists>s'. el_turn objs dispatch ord s s'"
proof -
  have "\<exists>s'. await False i s = Some s'"
    using assms(3-5) by (auto simp: await_def errCh_recv_def split: option.splits)
  then show ?thesis using el_turn.caller[OF assms(2)] by blast
qed

lemma events_move:
  assumes inv: "el_inv objs mgr s" and live: "\<not> crashed s"
    and work: "\<not> set (wp_workers (el_events s)) \<subseteq> {Returned}" "wp_q (el_events s) \<noteq> [] \<or> el_terminate s"
  shows "\<exists>s'. el_turn objs dispatch ord s s'"
proof (cases "el_reply s")
  case None
  have ok: "pool_ok (el_terminate s) 1 (event_busy (el_pc s)) (el_events s)"
    using inv by (simp add: el_inv_def pools_inv_def)
  obtain i p where "i < length (wp_workers (el_events s))" "worker_turn True i (el_events s) = Some p"
    using pool_ok_moves[OF ok work] by blast
  moreover have "length (wp_workers (el_events s)) = 1" using ok by (simp add: pool_ok_def)
  ultimately have "worker_turn True 0 (el_events s) = Some p" by simp
  then have "\<exists>s'. event_worker_turn objs True s = Some s'"
    using None by (simp add: event_worker_turn_def Let_def split: prod.splits)
  then show ?thesis using el_turn.event_worker[OF live] by blast
next
  case (Some r)
  obtain i e where r: "r = (i, e)" by fastforce
  have "reply_inv s" using inv by (simp add: el_inv_def)
  from reply_invD(3)[OF this Some[unfolded r]] show ?thesis
    using reply_moves[OF inv live, of i] by (force simp: rev_image_eqI)
qed

lemma watch_moves:
  assumes safe: "dispatch_safe dispatch" and inv: "el_inv objs mgr s" and live: "\<not> crashed s"
    and work: "\<not> set (wp_workers (el_watch s)) \<subseteq> {Returned}" "wp_q (el_watch s) \<noteq> [] \<or> el_terminate s"
  shows "\<exists>s'. el_turn objs dispatch ord s s'"
proof -
  have ok: "pool_ok (el_terminate s) watchWorkerPoolSize (watch_busy (el_pc s)) (el_watch s)"
    using inv by (simp add: el_inv_def pools_inv_def)
  obtain i p where i: "i < length (wp_workers (el_watch s))" and p: "worker_turn True i (el_watch s) = Some p"
    using pool_ok_moves[OF ok work] by blast
  have "\<not> el_done s" using work(1) ok inv by (auto simp: el_inv_def lc_inv_def pool_ok_def)
  then have mux: "wm_open (el_mux s)" "\<not> wm_doneClosed (el_mux s)" using inv by (simp_all add: el_inv_def mux_inv_def)
  obtain d where d: "d \<in> dispatch" using safe unfolding dispatch_safe_def by blast
  obtain wm where "d (last (wp_ran p)) (el_mux s) = Inr wm" by (rule dispatch_safeD[OF safe d mux])
  then have "\<exists>s'. watch_worker_turn d True i s = Some (Inr s')" using p by (simp add: watch_worker_turn_def)
  then show ?thesis using el_turn.watch_worker[OF live i d] by blast
qed

lemma waiters_move:
  assumes "\<not> crashed s"
    and "set (wp_workers (el_events s)) \<subseteq> {Returned} \<and> \<not> wp_done (el_events s) \<or>
         set (wp_workers (el_watch s)) \<subseteq> {Returned} \<and> \<not> wp_done (el_watch s)"
  shows "\<exists>s'. el_turn objs dispatch ord s s'"
proof -
  have "(\<exists>p. pool_waiter (el_events s) = Some p) \<or> (\<exists>p. pool_waiter (el_watch s) = Some p)"
    using assms(2) by (auto simp: pool_waiter_def list_all_iff)
  then show ?thesis using el_turn.event_waiter[OF assms(1)] el_turn.watch_waiter[OF assms(1)] by blast
qed

lemma loop_moves:
  assumes "dispatch_safe dispatch" and "el_inv objs mgr s" and "\<not> crashed s"
    and "el_pc s \<notin> {LoopSelect, LoopTerminate, LoopReturned}"
  shows "\<exists>s'. el_turn objs dispatch ord s s'"
proof (cases "\<exists>s'. eventLoop_turn ord CaseTerminate s = Some (Inr s')")
  case True
  then show ?thesis using el_turn.loop[OF assms(3)] by blast
next
  case False
  consider (event) i where "el_pc s = LoopEvent i" "qSize \<le> length (wp_q (el_events s))"
    | (watch) a where "el_pc s = LoopWatch a" "qSize \<le> length (wp_q (el_watch s))"
    using False assms(4)
    by (cases "el_pc s") (auto simp: eventLoop_turn_def goto_terminate_def wp_send_def not_less split: if_splits)
  then show ?thesis
  proof cases
    case event
    then have "\<not> set (wp_workers (el_events s)) \<subseteq> {Returned}" "wp_q (el_events s) \<noteq> []"
      using assms(2) by (auto simp: el_inv_def pools_inv_def pool_ok_def qSize_def)
    then show ?thesis using events_move[OF assms(2,3)] by blast
  next
    case watch
    then have "\<not> set (wp_workers (el_watch s)) \<subseteq> {Returned}" "wp_q (el_watch s) \<noteq> []"
      using assms(2) by (auto simp: el_inv_def pools_inv_def pool_ok_def qSize_def)
    then show ?thesis using watch_moves[OF assms(1-3)] by blast
  qed
qed

lemma select_moves:
  assumes "\<not> crashed s" and "el_pc s = LoopSelect"
    and "el_terminate s \<or> el_eventClosed s \<or> CallSending \<in> set (el_calls s) \<or> el_fifo s \<noteq> [] \<or> el_fifoClosed s"
  shows "\<exists>s'. el_turn objs dispatch ord s s'"
proof -
  obtain i where i: "CallSending \<in> set (el_calls s) \<Longrightarrow> i < length (el_calls s) \<and> el_calls s ! i = CallSending"
    by (auto simp: in_set_conv_nth)
  consider "el_terminate s" | "el_eventClosed s" | "CallSending \<in> set (el_calls s)" "\<not> el_eventClosed s"
    | a rest where "el_fifo s = a # rest" | "el_fifo s = []" "el_fifoClosed s"
    using assms(3) by (cases "el_fifo s") auto
  then have "\<exists>c s'. eventLoop_turn ord c s = Some (Inr s')"
  proof cases
    case 1
    then show ?thesis using assms(2) by (intro exI[of _ CaseTerminate]) (simp add: eventLoop_turn_def loop_select_def goto_terminate_def)
  next
    case 2
    then show ?thesis using assms(2) by (intro exI[of _ "CaseEvent 0"]) (simp add: eventLoop_turn_def loop_select_def goto_terminate_def)
  next
    case 3
    then show ?thesis using assms(2) i by (intro exI[of _ "CaseEvent i"]) (simp add: eventLoop_turn_def loop_select_def)
  qed (use assms(2) in \<open>intro exI[of _ CaseAssignment], simp add: eventLoop_turn_def loop_select_def goto_terminate_def\<close>)+
  then show ?thesis using el_turn.loop[OF assms(1)] by blast
qed

lemma closer_moves:
  assumes "el_inv objs mgr s" and "\<not> crashed s" and "el_closing s \<or> el_triggered s"
  shows "\<exists>s'. el_turn objs dispatch ord s s'"
proof (cases "el_closing s")
  case True
  then have "\<exists>s'. Close_end s = Some (Inr s')"
    using assms(1) by (auto simp: Close_end_def el_inv_def lc_inv_def)
  then show ?thesis using el_turn.closer[OF assms(2)] by blast
next
  case False
  then have "\<exists>s'. triggerCloseInternally s = Some (Inr s')"
    using assms(1,3) by (auto simp: triggerCloseInternally_def Close_begin_def el_inv_def lc_inv_def)
  then show ?thesis using el_turn.trigger[OF assms(2)] by blast
qed

lemma stuck_pc:
  assumes "dispatch_safe dispatch" and "el_inv objs mgr s" and "\<not> crashed s"
    and "\<nexists>s'. el_turn objs dispatch ord s s'"
  shows "el_pc s \<in> {LoopSelect, LoopTerminate, LoopReturned}" and "\<not> el_closing s" and "\<not> el_triggered s"
  using loop_moves[OF assms(1-3)] closer_moves[OF assms(2,3)] assms(4) by blast+

text \<open>A manager that nobody closes: when nothing moves, every call has its own result.\<close>

definition serving :: "'k event_loop \<Rightarrow> bool" where
  "serving s \<longleftrightarrow> \<not> el_terminate s \<and> \<not> el_triggered s \<and> \<not> el_fifoClosed s"

definition all_served :: "'k event_loop \<Rightarrow> bool" where
  "all_served s \<longleftrightarrow>
     (\<forall>i < length (el_calls s). \<exists>r. el_calls s ! i = CallReturned r \<and> (i, r) \<in> set (el_log s)) \<and>
     wp_ran (el_watch s) = el_arrived s"

lemma serving_idle:
  assumes safe: "dispatch_safe dispatch" and inv: "el_inv objs mgr s" and live: "\<not> crashed s" and serving: "serving s"
    and stuck: "\<nexists>s'. el_turn objs dispatch ord s s'"
  shows "el_pc s = LoopSelect" and "CallSending \<notin> set (el_calls s)" and "el_fifo s = []"
    and "wp_q (el_events s) = []" and "wp_q (el_watch s) = []"
proof -
  have lc: "lc_inv s" and pools: "pools_inv s" using inv by (simp_all add: el_inv_def)
  show pc: "el_pc s = LoopSelect"
    using stuck_pc(1)[OF safe inv live stuck] lc serving by (auto simp: lc_inv_def serving_def)
  show "CallSending \<notin> set (el_calls s)" "el_fifo s = []"
    using select_moves[OF live pc] stuck by blast+
  have working: "\<not> set (wp_workers (el_events s)) \<subseteq> {Returned}" "\<not> set (wp_workers (el_watch s)) \<subseteq> {Returned}"
    using pools serving
    by (cases "wp_workers (el_events s)"; cases "wp_workers (el_watch s)"; auto simp: pools_inv_def pool_ok_def serving_def)+
  show "wp_q (el_events s) = []" using events_move[OF inv live working(1)] stuck by blast
  show "wp_q (el_watch s) = []" using watch_moves[OF safe inv live working(2)] stuck by blast
qed

lemma serving_stuck:
  assumes safe: "dispatch_safe dispatch" and inv: "el_inv objs mgr s" and live: "\<not> crashed s" and serving: "serving s"
    and stuck: "\<nexists>s'. el_turn objs dispatch ord s s'"
  shows "all_served s"
proof -
  have lc: "lc_inv s" and pools: "pools_inv s" and calls: "calls_inv s" and reply: "reply_inv s" and watch: "watch_inv s"
    using inv by (simp_all add: el_inv_def)
  note idle = serving_idle[OF assms]
  have rec: "received s = map fst (el_log s)"
    using calls pools idle(1,4) by (simp add: received_def calls_inv_def pools_inv_def pool_ok_def)
  have "\<exists>r. el_calls s ! i = CallReturned r \<and> (i, r) \<in> set (el_log s)" if i: "i < length (el_calls s)" for i
  proof -
    have nth: "el_calls s ! i \<in> set (el_calls s)" using i by simp
    then have "el_calls s ! i \<noteq> CallSending" "el_calls s ! i \<noteq> CallPanicked"
      using idle(2) live by (auto simp: crashed_def)
    then have logged: "i \<in> fst ` set (el_log s)" using received_iff[OF calls, of i] i by (simp add: rec)
    then have "el_calls s ! i \<noteq> CallAwaiting" using reply_moves[OF inv live i] stuck by blast
    then obtain r where r: "el_calls s ! i = CallReturned r"
      using \<open>el_calls s ! i \<noteq> CallSending\<close> \<open>el_calls s ! i \<noteq> CallPanicked\<close> by (cases "el_calls s ! i") auto
    have "\<not> el_done s" using lc idle(1) by (simp add: lc_inv_def)
    then show ?thesis using reply_invD(1)[OF reply i r] r by blast
  qed
  moreover have "wp_ran (el_watch s) = el_arrived s"
    using watch pools idle(1,3,5) by (simp add: watch_inv_def held_assignment_def pools_inv_def pool_ok_def)
  ultimately show ?thesis by (simp add: all_served_def)
qed

text \<open>A manager that is closed: when nothing moves, the loop has ended and nobody waits.\<close>

definition stopping :: "'k event_loop \<Rightarrow> bool" where
  "stopping s \<longleftrightarrow> el_terminate s \<or> el_triggered s \<or> el_fifoClosed s"

definition all_stopped :: "'k event_loop \<Rightarrow> bool" where
  "all_stopped s \<longleftrightarrow> el_done s \<and> lc_closed (el_lc s) \<and>
     (\<forall>i < length (el_calls s). \<exists>r. el_calls s ! i = CallReturned r)"

lemma stopping_closed:
  assumes safe: "dispatch_safe dispatch" and inv: "el_inv objs mgr s" and live: "\<not> crashed s" and stopping: "stopping s"
    and stuck: "\<nexists>s'. el_turn objs dispatch ord s s'"
  shows "el_terminate s" and "lc_closed (el_lc s)" and "el_pc s \<in> {LoopTerminate, LoopReturned}"
    and "CallSending \<notin> set (el_calls s)"
proof -
  have lc: "lc_inv s" using inv by (simp add: el_inv_def)
  note pc = stuck_pc[OF safe inv live stuck]
  have "el_pc s \<noteq> LoopSelect" using select_moves[OF live] stuck stopping pc(3) by (auto simp: stopping_def)
  then show ended: "el_pc s \<in> {LoopTerminate, LoopReturned}" using pc(1) by blast
  then show told: "el_terminate s" using lc pc(3) by (auto simp: lc_inv_def)
  then show closed: "lc_closed (el_lc s)" using lc pc(2) by (auto simp: lc_inv_def)
  show "CallSending \<notin> set (el_calls s)"
  proof
    assume "CallSending \<in> set (el_calls s)"
    then obtain i where "i < length (el_calls s)" "el_calls s ! i = CallSending" by (auto simp: in_set_conv_nth)
    then have "\<exists>s'. send_closed i s = Some s'" using closed lc by (simp add: send_closed_def lc_inv_def)
    then show False using el_turn.caller_panics[OF live] stuck by blast
  qed
qed

lemma stopping_stuck:
  assumes ord: "is_map_order ord" and safe: "dispatch_safe dispatch" and inv: "el_inv objs mgr s" and live: "\<not> crashed s"
    and stopping: "stopping s" and stuck: "\<nexists>s'. el_turn objs dispatch ord s s'"
  shows "all_stopped s"
proof -
  have lc: "lc_inv s" and mux: "mux_inv s" using inv by (simp_all add: el_inv_def)
  note closed = stopping_closed[OF safe inv live stopping stuck]
  have "set (wp_workers (el_events s)) \<subseteq> {Returned}" "set (wp_workers (el_watch s)) \<subseteq> {Returned}"
    using events_move[OF inv live] watch_moves[OF safe inv live] closed(1) stuck by blast+
  then have pools: "wp_done (el_events s)" "wp_done (el_watch s)" using waiters_move[OF live] stuck by blast+
  have fin: "el_done s"
  proof (rule ccontr)
    assume nd: "\<not> el_done s"
    then have pc: "el_pc s = LoopTerminate" using closed(3) lc by (auto simp: lc_inv_def)
    obtain wm where "wm_Close ord (el_mux s) = Inr wm"
      using wm_Close_open[OF ord] mux nd by (auto simp: mux_inv_def)
    then have "\<exists>s'. eventLoop_turn ord CaseTerminate s = Some (Inr s')"
      using pc nd pools by (simp add: eventLoop_turn_def loop_finish_def)
    then show False using el_turn.loop[OF live] stuck by blast
  qed
  have "\<exists>r. el_calls s ! i = CallReturned r" if i: "i < length (el_calls s)" for i
  proof -
    have nth: "el_calls s ! i \<in> set (el_calls s)" using i by simp
    then have "el_calls s ! i \<noteq> CallSending" "el_calls s ! i \<noteq> CallPanicked"
      using closed(4) live by (auto simp: crashed_def)
    moreover have "el_calls s ! i \<noteq> CallAwaiting" using reply_moves[OF inv live i] fin stuck by blast
    ultimately show ?thesis by (cases "el_calls s ! i") auto
  qed
  then show ?thesis using fin closed(2) by (simp add: all_stopped_def)
qed

text \<open>What the turns keep: a call that is not offering its event does not start to.\<close>

lemma Close_begin_frame:
  "Close_begin s = Some (Inr (er, s')) \<Longrightarrow> el_fifoClosed s' = el_fifoClosed s \<and> el_calls s' = el_calls s \<and>
     el_arrived s' = el_arrived s \<and> el_eventClosed s' = el_eventClosed s \<and> (el_terminate s \<longrightarrow> el_terminate s')"
  by (auto simp: Close_begin_def split: if_splits)

lemma el_turn_frame:
  assumes "el_turn objs dispatch ord s s'"
  shows "el_fifoClosed s' = el_fifoClosed s \<and> el_arrived s' = el_arrived s \<and> (el_terminate s \<longrightarrow> el_terminate s') \<and>
    (el_eventClosed s \<longrightarrow> el_eventClosed s')"
  using assms
proof (cases rule: el_turn_cases)
  case (trigger er s1)
  then show ?thesis using Close_begin_frame[OF trigger(2)] by simp
qed simp_all

lemma el_turn_calls:
  assumes "el_turn objs dispatch ord s s'"
  obtains "el_calls s' = el_calls s"
    | i st where "i < length (el_calls s)" "el_calls s' = (el_calls s)[i := st]" "st \<noteq> CallSending"
        "st = CallPanicked \<longrightarrow> el_eventClosed s \<and> el_calls s ! i = CallSending"
  using assms
proof (cases rule: el_turn_cases)
  case (event i)
  then show ?thesis using that(2)[of i CallAwaiting] by simp
next
  case (abort i)
  then show ?thesis using that(2)[of i "CallReturned aborted"] by simp
next
  case (result i er)
  then show ?thesis using that(2)[of i "CallReturned er"] by simp
next
  case (panic i)
  then show ?thesis using that(2)[of i CallPanicked] by simp
next
  case (trigger er s1)
  then show ?thesis using that(1) Close_begin_frame[OF trigger(2)] by simp
qed (use that(1) in simp_all)

lemma el_turn_quiet:
  assumes "el_turn objs dispatch ord s s'"
  shows "length (el_calls s') = length (el_calls s)"
    and "CallSending \<notin> set (el_calls s) \<Longrightarrow> CallSending \<notin> set (el_calls s')"
    and "\<not> crashed s \<Longrightarrow> \<not> el_eventClosed s \<or> CallSending \<notin> set (el_calls s) \<Longrightarrow> \<not> crashed s'"
  using assms
  by (cases rule: el_turn_calls; auto simp: crashed_def dest: set_update_cases nth_mem)+

lemma serving_turn:
  assumes "lc_inv s" and "serving s" and "el_turn objs dispatch ord s s'"
  shows "serving s'"
  using assms(3,1,2)
  by (cases rule: el_turn_cases) (auto simp: serving_def lc_inv_def elim!: Close_begin_cases)

lemma stopping_turn:
  assumes "lc_inv s" and "stopping s" and "el_turn objs dispatch ord s s'"
  shows "stopping s'"
proof (cases "el_terminate s \<or> el_fifoClosed s")
  case True
  then show ?thesis using el_turn_frame[OF assms(3)] by (auto simp: stopping_def)
next
  case False
  then have "el_triggered s" using assms(2) by (simp add: stopping_def)
  from assms(3) show ?thesis
  proof (cases rule: el_turn_cases)
    case (trigger er s1)
    then show ?thesis using lc_inv_begin[OF assms(1) trigger(2)] by (simp add: stopping_def)
  qed (use False \<open>el_triggered s\<close> in \<open>auto simp: stopping_def\<close>)
qed

lemma crash_closed:
  assumes "(el_step objs dispatch ord)\<^sup>*\<^sup>* (eventLoop mgr) s"
  shows "crashed s \<longrightarrow> el_eventClosed s"
  using assms
proof (induction rule: rtranclp_induct)
  case (step s s')
  from step(2,3) show ?case
  proof cases
    case turn
    then show ?thesis using step(3) el_turn_frame[OF turn] el_turn_quiet(3)[OF turn] by blast
  next
    case (close er)
    then show ?thesis using step(3) Close_begin_frame[OF close(2)] by (simp add: crashed_def)
  qed (use step(3) in \<open>simp_all add: crashed_def\<close>)
qed (simp add: crashed_def eventLoop_def)

interpretation serving_end: winding_down
  "\<lambda>s. el_inv objs mgr s \<and> dispatch_safe dispatch \<and> mgr_serving mgr" "\<lambda>s. serving s \<and> \<not> crashed s"
  all_served "el_turn objs dispatch ord" el_weight
  for objs mgr dispatch ord
proof
  fix s s' :: "'a event_loop"
  assume inv: "el_inv objs mgr s \<and> dispatch_safe dispatch \<and> mgr_serving mgr"
  show "el_turn objs dispatch ord s s' \<Longrightarrow> el_inv objs mgr s' \<and> dispatch_safe dispatch \<and> mgr_serving mgr"
    using inv el_inv_turn by blast
  show "el_turn objs dispatch ord s s' \<Longrightarrow> el_weight s' < el_weight s"
    using inv el_turn_weight[of s objs dispatch ord s'] unfolding el_inv_def by blast
  have lc: "lc_inv s" using inv by (simp add: el_inv_def)
  show "serving s' \<and> \<not> crashed s'" if end_s: "serving s \<and> \<not> crashed s" and turn: "el_turn objs dispatch ord s s'"
  proof -
    have "\<not> el_eventClosed s" using end_s lc by (auto simp: serving_def lc_inv_def)
    then show ?thesis using end_s turn lc serving_turn el_turn_quiet(3)[OF turn] by blast
  qed
  show "serving s \<and> \<not> crashed s \<Longrightarrow> \<nexists>s'. el_turn objs dispatch ord s s' \<Longrightarrow> all_served s"
    using inv serving_stuck by blast
qed

interpretation stopping_end: winding_down
  "\<lambda>s. el_inv objs mgr s \<and> dispatch_safe dispatch \<and> mgr_serving mgr \<and> is_map_order ord \<and>
       (quiet \<longrightarrow> CallSending \<notin> set (el_calls s) \<and> \<not> crashed s)"
  stopping "\<lambda>s. crashed s \<or> all_stopped s" "el_turn objs dispatch ord" el_weight
  for objs mgr dispatch ord quiet
proof
  fix s s' :: "'a event_loop"
  assume inv: "el_inv objs mgr s \<and> dispatch_safe dispatch \<and> mgr_serving mgr \<and> is_map_order ord \<and>
       (quiet \<longrightarrow> CallSending \<notin> set (el_calls s) \<and> \<not> crashed s)"
  show "el_inv objs mgr s' \<and> dispatch_safe dispatch \<and> mgr_serving mgr \<and> is_map_order ord \<and>
       (quiet \<longrightarrow> CallSending \<notin> set (el_calls s') \<and> \<not> crashed s')" if turn: "el_turn objs dispatch ord s s'"
    using inv turn el_inv_turn[of dispatch mgr objs s ord s'] el_turn_quiet(2,3)[OF turn] by blast
  show "el_turn objs dispatch ord s s' \<Longrightarrow> el_weight s' < el_weight s"
    using inv el_turn_weight[of s objs dispatch ord s'] unfolding el_inv_def by blast
  show "stopping s \<Longrightarrow> el_turn objs dispatch ord s s' \<Longrightarrow> stopping s'"
    using inv stopping_turn[of s objs dispatch ord s'] unfolding el_inv_def by blast
  show "stopping s \<Longrightarrow> \<nexists>s'. el_turn objs dispatch ord s s' \<Longrightarrow> crashed s \<or> all_stopped s"
    using inv stopping_stuck by blast
qed

lemma serving_not_crashed:
  assumes "el_inv objs mgr s" and "(el_step objs dispatch ord)\<^sup>*\<^sup>* (eventLoop mgr) s" and "serving s"
  shows "\<not> crashed s"
  using crash_closed[OF assms(2)] assms(1,3) by (auto simp: serving_def el_inv_def lc_inv_def)

text \<open>
  C16. While nobody closes the manager and the kernel goes on reporting, no call of the manager hangs
  and no report is lost: from every reachable state the goroutines take at most \<open>el_weight\<close> turns
  until a new call or report arrives, and when none of them can move, every call has returned the
  result of its own event and every assignment has been taken from the queue, in the order of the
  reports, and dispatched to the watchers.
\<close>

theorem manager_answers_calls:
  assumes "mgr_serving mgr" and "dispatch_safe dispatch"
    and "(el_step objs dispatch ord)\<^sup>*\<^sup>* (eventLoop mgr) s" and "serving s"
    and "(el_turn objs dispatch ord ^^ k) s s'"
  shows "k \<le> el_weight s \<and>
         ((\<nexists>s''. el_turn objs dispatch ord s' s'') \<longrightarrow>
            (\<forall>i < length (el_calls s'). \<exists>r. el_calls s' ! i = CallReturned r \<and> (i, r) \<in> set (el_log s')) \<and>
            wp_ran (el_watch s') = el_arrived s')"
proof -
  have inv: "el_inv objs mgr s" by (rule el_reachable_inv[OF assms(2,1,3)])
  have "serving s \<and> \<not> crashed s" using serving_not_crashed[OF inv assms(3,4)] assms(4) by blast
  from serving_end.winds_down[OF _ this assms(5), of mgr] inv assms(1,2) show ?thesis
    by (auto simp: all_served_def)
qed

text \<open>
  C17. After \<open>Close\<close>, or after the kernel has ended the subscription, the manager comes to its end: its
  goroutines take at most \<open>el_weight\<close> turns, and when none of them can move, the loop has
  ended, the manager is closed and every call has returned, unless a call has panicked. No call
  panics if none was still offering its event when the end began.
\<close>

theorem manager_shuts_down:
  assumes "mgr_serving mgr" and "dispatch_safe dispatch" and "is_map_order ord"
    and "(el_step objs dispatch ord)\<^sup>*\<^sup>* (eventLoop mgr) s"
    and "el_terminate s \<or> el_fifoClosed s" and "(el_turn objs dispatch ord ^^ k) s s'"
  shows "k \<le> el_weight s \<and>
         ((\<nexists>s''. el_turn objs dispatch ord s' s'') \<longrightarrow>
            CallPanicked \<in> set (el_calls s') \<or>
            el_done s' \<and> lc_closed (el_lc s') \<and> (\<forall>i < length (el_calls s'). \<exists>r. el_calls s' ! i = CallReturned r)) \<and>
         (CallSending \<notin> set (el_calls s) \<and> CallPanicked \<notin> set (el_calls s) \<longrightarrow> CallPanicked \<notin> set (el_calls s'))"
proof -
  have inv: "el_inv objs mgr s" by (rule el_reachable_inv[OF assms(2,1,4)])
  have stop: "stopping s" using assms(5) by (auto simp: stopping_def)
  note run = stopping_end.winds_down[OF _ stop assms(6), of mgr]
  show ?thesis
    using run[where quiet = False] run[where quiet = True] inv assms(1-3)
    by (auto simp: all_stopped_def crashed_def)
qed

theorem manager_answers_calls_witness:
  "\<exists>s s' k. example_step\<^sup>*\<^sup>* (eventLoop running_manager) s \<and> el_calls s = [CallSending] \<and>
      (example_turn ^^ k) s s' \<and> k \<le> el_weight s \<and> all_served s'"
proof -
  have "\<exists>s. run_moves two_copies prompt rev [MCall example_update] (eventLoop running_manager) = Some s \<and>
      el_calls s = [CallSending] \<and> serving s"
    by (simp add: move_defs serving_def)
  then obtain s where s: "run_moves two_copies prompt rev [MCall example_update] (eventLoop running_manager) = Some s"
    "el_calls s = [CallSending]" "serving s" by blast
  note reach = example_reach[OF s(1)] and safe = timeout_dispatches_safe[OF map_order_rev]
  have inv: "el_inv two_copies running_manager s" by (rule el_reachable_inv[OF safe running_manager_serving reach])
  obtain s' where "example_turn\<^sup>*\<^sup>* s s'" "all_served s'"
    using serving_end.reaches_end[of two_copies running_manager s "timeout_dispatches rev" rev]
      inv safe running_manager_serving s(3) serving_not_crashed[OF inv reach s(3)] by blast
  then obtain k where k: "(example_turn ^^ k) s s'" by (auto dest: rtranclp_imp_relpowp)
  have "k \<le> el_weight s" using manager_answers_calls[OF running_manager_serving safe reach s(3) k] by blast
  then show ?thesis using reach s(2) k \<open>all_served s'\<close> by blast
qed

theorem manager_shuts_down_witness:
  "\<exists>s s' k. example_step\<^sup>*\<^sup>* (eventLoop running_manager) s \<and> el_calls s = [CallAwaiting] \<and>
      (example_turn ^^ k) s s' \<and> k \<le> el_weight s \<and> all_stopped s'"
proof -
  have "\<exists>s. run_moves two_copies prompt rev [MCall example_update, MLoop CaseTerminate, MLoop (CaseEvent 0), MClose]
      (eventLoop running_manager) = Some s \<and> el_calls s = [CallAwaiting] \<and> el_terminate s"
    by (simp add: move_defs)
  then obtain s where s: "run_moves two_copies prompt rev [MCall example_update, MLoop CaseTerminate, MLoop (CaseEvent 0), MClose]
      (eventLoop running_manager) = Some s" "el_calls s = [CallAwaiting]" "el_terminate s" by blast
  note reach = example_reach[OF s(1)] and safe = timeout_dispatches_safe[OF map_order_rev]
  have inv: "el_inv two_copies running_manager s" by (rule el_reachable_inv[OF safe running_manager_serving reach])
  obtain s' where end_s: "example_turn\<^sup>*\<^sup>* s s'" "crashed s' \<or> all_stopped s'"
    using stopping_end.reaches_end[of two_copies running_manager s "timeout_dispatches rev" rev False]
      inv safe running_manager_serving map_order_rev s(3) by (auto simp: stopping_def)
  then obtain k where k: "(example_turn ^^ k) s s'" by (auto dest: rtranclp_imp_relpowp)
  have "k \<le> el_weight s" "\<not> crashed s'"
    using manager_shuts_down[OF running_manager_serving safe map_order_rev reach _ k] s(2,3) by (auto simp: crashed_def)
  then show ?thesis using reach s(2) k end_s(2) by blast
qed

end
