(* ===== verification/Control_Loops.thy ===== *)
theory Control_Loops
  imports Entry_Point Event_Loop_Progress
begin

text \<open>
  The goroutines of \<open>internal/controller/controller.go\<close> with those of the manager's event loop:
  \<open>Run\<close> computing the first objects, \<open>healthLoop\<close> and \<open>assignmentLoop\<close>, which share the
  controller under its mutex and call the manager while they hold it. Elsewhere an event of the
  controller is one step (\<open>ct_on_event\<close>); here the steps are those of the goroutines, and it is
  shown that their interleavings have the effect of such events one after the other.
\<close>

section \<open>The goroutines\<close>

text \<open>\<open>recomputeAndApply\<close> up to the send of its event; \<open>None\<close> when it has nothing to set.\<close>

definition recompute_event :: "byte_order \<Rightarrow> nat map_order \<Rightarrow> 'k controller \<Rightarrow> (event option \<times> 'k controller) go" where
  "recompute_event bo ord c =
     (let avail = filterAvailable (ct_backends c)
      in if avail = [] then Inr (None, c)
         else (case ReverseCoordinatesLookupTable ord avail (ct_lookupTableSize c) of
                 Inl p \<Rightarrow> Inl p
               | Inr lookupTable \<Rightarrow>
                   let remapped = remapSessions (ct_backends c) avail (ct_sessionMap c)
                   in (case transformBackendList bo avail of
                         Inl p \<Rightarrow> Inl p
                       | Inr specs \<Rightarrow>
                           Inr (Some \<lparr>ev_kind = EventKindSet,
                                  ev_set = \<lparr>eo_BackendList = specs, eo_LookupTable = lookupTable, eo_SessionMap = remapped\<rparr>,
                                  ev_sessionBatchUpdate = Map.empty, ev_sessionBatchDelete = []\<rparr>,
                                c\<lparr>ct_sessionMap := remapped\<rparr>))))"

text \<open>The part of \<open>healthLoop\<close> before the recomputation; the boolean is \<open>changed\<close>.\<close>

definition note_health :: "backend_status_entry \<Rightarrow> 'k controller \<Rightarrow> bool \<times> 'k controller" where
  "note_health entry c =
     (case find (\<lambda>i. be_Id (ct_backends c ! i) = entry_BackendId entry) [0..<length (ct_backends c)] of
        None \<Rightarrow> (False, c)
      | Some i \<Rightarrow>
          if be_Status (ct_backends c ! i) = entry_State entry then (False, c)
          else (True, c\<lparr>ct_backends :=
                  (ct_backends c)[i := (ct_backends c ! i)\<lparr>be_Status := entry_State entry\<rparr>]\<rparr>))"

text \<open>
  What a goroutine does under the mutex: the first computation of \<open>Run\<close>, an entry of the health
  monitor, an assignment. The iteration order of the map in the computation of the table is chosen
  anew each time.
\<close>

datatype ctl_op = OpInitial "nat map_order" | OpHealth "nat map_order" backend_status_entry | OpAssign assignment

definition ctl_event :: "byte_order \<Rightarrow> ctl_op \<Rightarrow> 'k controller \<Rightarrow> (event option \<times> 'k controller) go" where
  "ctl_event bo opn c =
     (case opn of
        OpInitial ord \<Rightarrow> recompute_event bo ord c
      | OpHealth ord entry \<Rightarrow>
          (let (changed, c) = note_health entry c in if changed then recompute_event bo ord c else Inr (None, c))
      | OpAssign a \<Rightarrow> Inr (None, ct_on_assignment a c))"

text \<open>
  Where the goroutines are: waiting for the mutex, inside a call of the manager (its number) with
  the mutex held, at the \<open>select\<close>, or returned. \<open>assignmentLoop\<close> holds the watcher it got.
\<close>

datatype run_pc = RunLock | RunCall nat | RunReturned err

datatype health_pc = HReceive | HLock backend_status_entry | HCall nat | HReturned

datatype assign_pc = AStart | AReceive "nat \<times> nat" | ALock "nat \<times> nat" assignment | AReturned

text \<open>
  The manager of \<open>sy_ct\<close> is the one the loops were started with; its state since is \<open>sy_el\<close>.
  \<open>sy_healthCh\<close> is the buffered channel of the health monitor, \<open>sy_ctx\<close> a cancelled context.
  \<open>sy_log\<close> records what was done under the mutex, in the order of the locks, \<open>sy_entries\<close> what
  the monitor has put into the channel.
\<close>

record 'k system =
  sy_ct :: "'k controller"
  sy_el :: "'k event_loop"
  sy_locked :: bool
  sy_run :: run_pc
  sy_health :: health_pc
  sy_assign :: assign_pc
  sy_healthCh :: "backend_status_entry list"
  sy_healthClosed :: bool
  sy_ctx :: bool
  sy_log :: "ctl_op list"
  sy_entries :: "backend_status_entry list"

text \<open>The state in which \<open>Run\<close> has started its goroutines and waits for the mutex.\<close>

definition control_loops :: "'k controller \<Rightarrow> 'k system" where
  "control_loops c =
     \<lparr>sy_ct = c, sy_el = eventLoop (ct_bpfMgr c), sy_locked = False, sy_run = RunLock, sy_health = HReceive,
      sy_assign = AStart, sy_healthCh = [], sy_healthClosed = False, sy_ctx = False, sy_log = [], sy_entries = []\<rparr>"

text \<open>
  \<open>enter\<close> locks the mutex, \<open>None\<close> while another goroutine holds it, and works up to the send of
  the event, if there is one: then the mutex stays locked and the number of the call is returned.
  \<open>leave\<close> is the return of that call and the unlock.
\<close>

definition enter :: "byte_order \<Rightarrow> ctl_op \<Rightarrow> 'k system \<Rightarrow> ((nat option \<times> 'k system) go) option" where
  "enter bo opn s =
     (if sy_locked s then None
      else Some (case ctl_event bo opn (sy_ct s) of
                   Inl p \<Rightarrow> Inl p
                 | Inr (None, c) \<Rightarrow> Inr (None, s\<lparr>sy_ct := c, sy_log := sy_log s @ [opn]\<rparr>)
                 | Inr (Some e, c) \<Rightarrow>
                     Inr (Some (length (el_calls (sy_el s))),
                       s\<lparr>sy_ct := c, sy_log := sy_log s @ [opn], sy_locked := True,
                         sy_el := (sy_el s)\<lparr>el_callEvents := el_callEvents (sy_el s) @ [e],
                                    el_calls := el_calls (sy_el s) @ [CallSending]\<rparr>\<rparr>)))"

definition leave :: "nat \<Rightarrow> 'k system \<Rightarrow> (err \<times> 'k system) option" where
  "leave n s =
     (case el_calls (sy_el s) ! n of
        CallReturned er \<Rightarrow> Some (er, s\<lparr>sy_locked := False\<rparr>)
      | _ \<Rightarrow> None)"

text \<open>What \<open>SetObjects\<close> makes of the result of its event.\<close>

definition set_result :: "err \<Rightarrow> err" where
  "set_result er = (case er of None \<Rightarrow> None | Some e \<Rightarrow> errors_join [Some e, Some ErrSettingObjectsDSManager])"

definition run_turn :: "byte_order \<Rightarrow> nat map_order \<Rightarrow> 'k system \<Rightarrow> ('k system go) option" where
  "run_turn bo ord s =
     (case sy_run s of
        RunLock \<Rightarrow>
          map_option (map_sum id (\<lambda>(call, s'). s'\<lparr>sy_run := (case call of None \<Rightarrow> RunReturned None | Some n \<Rightarrow> RunCall n)\<rparr>))
            (enter bo (OpInitial ord) s)
      | RunCall n \<Rightarrow> map_option (\<lambda>(er, s'). Inr (s'\<lparr>sy_run := RunReturned (set_result er)\<rparr>)) (leave n s)
      | RunReturned _ \<Rightarrow> None)"

text \<open>With a cancelled context and a ready channel, \<open>pick\<close> prefers the context.\<close>

definition healthLoop_turn :: "byte_order \<Rightarrow> nat map_order \<Rightarrow> bool \<Rightarrow> 'k system \<Rightarrow> ('k system go) option" where
  "healthLoop_turn bo ord pick s =
     (case sy_health s of
        HReceive \<Rightarrow>
          if sy_ctx s \<and> (pick \<or> sy_healthCh s = [] \<and> \<not> sy_healthClosed s) then Some (Inr (s\<lparr>sy_health := HReturned\<rparr>))
          else (case sy_healthCh s of
                  entry # rest \<Rightarrow> Some (Inr (s\<lparr>sy_healthCh := rest, sy_health := HLock entry\<rparr>))
                | [] \<Rightarrow> if sy_healthClosed s then Some (Inr (s\<lparr>sy_health := HReturned\<rparr>)) else None)
      | HLock entry \<Rightarrow>
          map_option (map_sum id (\<lambda>(call, s'). s'\<lparr>sy_health := (case call of None \<Rightarrow> HReceive | Some n \<Rightarrow> HCall n)\<rparr>))
            (enter bo (OpHealth ord entry) s)
      | HCall n \<Rightarrow> map_option (\<lambda>(_, s'). Inr (s'\<lparr>sy_health := HReceive\<rparr>)) (leave n s)
      | HReturned \<Rightarrow> None)"

text \<open>The return of \<open>assignmentLoop\<close> runs the deferred cancel function of its watcher.\<close>

definition assignmentLoop_return :: "nat \<times> nat \<Rightarrow> 'k system \<Rightarrow> 'k system go" where
  "assignmentLoop_return h s =
     map_sum id (\<lambda>wm. s\<lparr>sy_el := (sy_el s)\<lparr>el_mux := wm\<rparr>, sy_assign := AReturned\<rparr>) (cancel h (el_mux (sy_el s)))"

definition assignmentLoop_turn :: "byte_order \<Rightarrow> bool \<Rightarrow> 'k system \<Rightarrow> ('k system go) option" where
  "assignmentLoop_turn bo pick s =
     (case sy_assign s of
        AStart \<Rightarrow>
          (let (h, wm) = Watch None (el_mux (sy_el s))
           in Some (Inr (s\<lparr>sy_el := (sy_el s)\<lparr>el_mux := wm\<rparr>, sy_assign := AReceive h\<rparr>)))
      | AReceive h \<Rightarrow>
          (let wm = el_mux (sy_el s); w = wm_objs wm ! snd h
           in if sy_ctx s \<and> (pick \<or> w_ch w = [] \<and> \<not> w_chClosed w) then Some (assignmentLoop_return h s)
              else (case w_ch w of
                      a # rest \<Rightarrow>
                        Some (Inr (s\<lparr>sy_assign := ALock h a,
                                sy_el := (sy_el s)\<lparr>el_mux := wm\<lparr>wm_objs := (wm_objs wm)[snd h := w\<lparr>w_ch := rest\<rparr>]\<rparr>\<rparr>\<rparr>))
                    | [] \<Rightarrow> if w_chClosed w then Some (assignmentLoop_return h s) else None))
      | ALock h a \<Rightarrow>
          map_option (map_sum id (\<lambda>(_, s'). s'\<lparr>sy_assign := AReceive h\<rparr>)) (enter bo (OpAssign a) s)
      | AReturned \<Rightarrow> None)"

text \<open>
  The multiplexer of the assignments dispatches with a timeout to the one watcher of the
  controller. Here the receives of the watcher are steps of their own, so a dispatch that finds the
  channel full has waited in vain.
\<close>

definition loop_dispatches :: "(assignment \<Rightarrow> assignment watcher_mux \<Rightarrow> (assignment watcher_mux) go) set" where
  "loop_dispatches = {DispatchFuncWithTimeout ord pick (\<lambda>_. 0) | ord pick. is_map_order ord}"

inductive sy_turn :: "byte_order \<Rightarrow> 'k bpf_objects \<Rightarrow> 'k system \<Rightarrow> 'k system \<Rightarrow> bool" for bo objs where
  manager: "is_map_order ord \<Longrightarrow> el_turn objs loop_dispatches ord (sy_el s) e \<Longrightarrow> sy_turn bo objs s (s\<lparr>sy_el := e\<rparr>)"
| run: "\<not> crashed (sy_el s) \<Longrightarrow> is_map_order ord \<Longrightarrow> run_turn bo ord s = Some (Inr s') \<Longrightarrow> sy_turn bo objs s s'"
| health: "\<not> crashed (sy_el s) \<Longrightarrow> is_map_order ord \<Longrightarrow> healthLoop_turn bo ord pick s = Some (Inr s') \<Longrightarrow>
    sy_turn bo objs s s'"
| assign: "\<not> crashed (sy_el s) \<Longrightarrow> assignmentLoop_turn bo pick s = Some (Inr s') \<Longrightarrow> sy_turn bo objs s s'"

text \<open>
  The steps from outside: an entry of the monitor finds room in the channel, the kernel reports an
  assignment or ends the subscription, the context is cancelled, and the parts of
  \<open>Controller.Close\<close>: the end of the health watcher and the \<open>Close\<close> of the manager.
\<close>

inductive sy_step :: "byte_order \<Rightarrow> 'k bpf_objects \<Rightarrow> 'k system \<Rightarrow> 'k system \<Rightarrow> bool" for bo objs where
  turn: "sy_turn bo objs s s' \<Longrightarrow> sy_step bo objs s s'"
| entry: "\<not> crashed (sy_el s) \<Longrightarrow> \<not> sy_healthClosed s \<Longrightarrow> length (sy_healthCh s) < 100 \<Longrightarrow>
    sy_step bo objs s (s\<lparr>sy_healthCh := sy_healthCh s @ [entry], sy_entries := sy_entries s @ [entry]\<rparr>)"
| report: "\<not> crashed (sy_el s) \<Longrightarrow> \<not> el_fifoClosed (sy_el s) \<Longrightarrow>
    sy_step bo objs s (s\<lparr>sy_el := (sy_el s)\<lparr>el_fifo := el_fifo (sy_el s) @ [a], el_arrived := el_arrived (sy_el s) @ [a]\<rparr>\<rparr>)"
| fifo_close: "\<not> crashed (sy_el s) \<Longrightarrow> sy_step bo objs s (s\<lparr>sy_el := (sy_el s)\<lparr>el_fifoClosed := True\<rparr>\<rparr>)"
| ctx: "\<not> crashed (sy_el s) \<Longrightarrow> sy_step bo objs s (s\<lparr>sy_ctx := True\<rparr>)"
| health_cancel: "\<not> crashed (sy_el s) \<Longrightarrow> sy_step bo objs s (s\<lparr>sy_healthClosed := True\<rparr>)"
| close: "\<not> crashed (sy_el s) \<Longrightarrow> Close_begin (sy_el s) = Some (Inr (er, e)) \<Longrightarrow> sy_step bo objs s (s\<lparr>sy_el := e\<rparr>)"

section \<open>The sequential controller\<close>

text \<open>The same operation as one step of the controller, with the call of the manager as one step.\<close>

definition ctl_exec :: "byte_order \<Rightarrow> 'k bpf_objects \<Rightarrow> ctl_op \<Rightarrow> 'k controller \<Rightarrow> ('k controller) comp" where
  "ctl_exec bo objs opn c =
     (case opn of
        OpInitial ord \<Rightarrow> map_option (map_sum id snd) (recomputeAndApply bo objs ord c)
      | OpHealth ord entry \<Rightarrow> ct_on_event bo objs ord (HealthEntry entry) c
      | OpAssign a \<Rightarrow> ct_on_event bo objs id (Assigned a) c)"

text \<open>The send of an event and the wait for its result, after the work of \<open>ctl_event\<close>.\<close>

definition ctl_submit :: "'k bpf_objects \<Rightarrow> (event option \<times> 'k controller) go \<Rightarrow> (err \<times> 'k controller) comp" where
  "ctl_submit objs r =
     (case r of
        Inl p \<Rightarrow> Some (Inl p)
      | Inr (None, c) \<Rightarrow> Some (Inr (None, c))
      | Inr (Some e, c) \<Rightarrow>
          (case mgr_submit objs e (ct_bpfMgr c) of
             None \<Rightarrow> None
           | Some (Inl p) \<Rightarrow> Some (Inl p)
           | Some (Inr (er, mgr)) \<Rightarrow> Some (Inr (set_result er, c\<lparr>ct_bpfMgr := mgr\<rparr>))))"

lemma recompute_event_submit: "recomputeAndApply bo objs ord c = ctl_submit objs (recompute_event bo ord c)"
  by (simp add: recomputeAndApply_def recompute_event_def ctl_submit_def SetObjects_def AnyPtrIsNil_def any_of_def
      newEvent_def set_result_def Let_def split: sum.splits option.splits prod.splits)

lemma ctl_exec_submit: "ctl_exec bo objs opn c = map_option (map_sum id snd) (ctl_submit objs (ctl_event bo opn c))"
proof (cases opn)
  case (OpHealth ord entry)
  show ?thesis
  proof (cases "find (\<lambda>i. be_Id (ct_backends c ! i) = entry_BackendId entry) [0..<length (ct_backends c)]")
    case None
    then show ?thesis using OpHealth
      by (simp add: ctl_exec_def ct_on_event_def ct_on_health_def ctl_event_def note_health_def ctl_submit_def)
  next
    case (Some i)
    then show ?thesis using OpHealth
      by (simp add: ctl_exec_def ct_on_event_def ct_on_health_def ctl_event_def note_health_def Let_def
          recompute_event_submit split: option.splits sum.splits)
         (simp add: ctl_submit_def)
  qed
qed (simp_all add: ctl_exec_def ctl_event_def recompute_event_submit ct_on_event_def ctl_submit_def)

text \<open>The event does not depend on the state of the manager.\<close>

lemma recompute_event_mgr:
  "recompute_event bo ord (c\<lparr>ct_bpfMgr := m\<rparr>) =
     map_sum id (\<lambda>(ev, c'). (ev, c'\<lparr>ct_bpfMgr := m\<rparr>)) (recompute_event bo ord c)"
  by (simp add: recompute_event_def Let_def split: sum.splits)

lemma ctl_event_mgr:
  "ctl_event bo opn (c\<lparr>ct_bpfMgr := m\<rparr>) =
     map_sum id (\<lambda>(ev, c'). (ev, c'\<lparr>ct_bpfMgr := m\<rparr>)) (ctl_event bo opn c)"
proof (cases opn)
  case (OpHealth ord entry)
  have "note_health entry (c\<lparr>ct_bpfMgr := m\<rparr>) = map_prod id (\<lambda>c. c\<lparr>ct_bpfMgr := m\<rparr>) (note_health entry c)"
    by (simp add: note_health_def split: option.splits)
  then show ?thesis using OpHealth by (simp add: ctl_event_def recompute_event_mgr split: prod.splits)
qed (simp_all add: ctl_event_def recompute_event_mgr ct_on_assignment_def split: option.splits)

lemma recompute_event_frame:
  assumes "recompute_event bo ord c = Inr (ev, c')"
  shows "ct_bpfMgr c' = ct_bpfMgr c" and "ct_backends c' = ct_backends c" and "ct_lookupTableSize c' = ct_lookupTableSize c"
    and "ev = Some e \<Longrightarrow> ev_kind e = EventKindSet"
  using assms by (auto simp: recompute_event_def Let_def split: if_splits sum.splits)

text \<open>What an entry of the monitor says about the backends.\<close>

definition set_status :: "backend_status_entry \<Rightarrow> backend list \<Rightarrow> backend list" where
  "set_status entry bs = map (\<lambda>b. if be_Id b = entry_BackendId entry then b\<lparr>be_Status := entry_State entry\<rparr> else b) bs"

lemma set_status_find:
  assumes "distinct (map be_Id bs)"
  shows "set_status entry bs =
     (case find (\<lambda>i. be_Id (bs ! i) = entry_BackendId entry) [0..<length bs] of
        None \<Rightarrow> bs
      | Some i \<Rightarrow> bs[i := (bs ! i)\<lparr>be_Status := entry_State entry\<rparr>])"
proof (cases "find (\<lambda>i. be_Id (bs ! i) = entry_BackendId entry) [0..<length bs]")
  case None
  then have "be_Id b \<noteq> entry_BackendId entry" if "b \<in> set bs" for b
    using that by (auto simp: find_None_iff in_set_conv_nth)
  then show ?thesis using None by (simp add: set_status_def map_idI)
next
  case (Some i)
  then have i: "i < length bs" "be_Id (bs ! i) = entry_BackendId entry" by (auto simp: find_Some_iff)
  have "be_Id (bs ! j) = entry_BackendId entry \<longleftrightarrow> j = i" if "j < length bs" for j
    using nth_eq_iff_index_eq[OF assms, of j i] i that by simp
  then show ?thesis using Some i by (auto simp: set_status_def nth_list_update intro!: nth_equalityI)
qed

lemma note_health_status:
  assumes "ct_ready c" and "note_health entry c = (changed, c')"
  shows "c' = c\<lparr>ct_backends := set_status entry (ct_backends c)\<rparr>" and "ct_ready c'" and "\<not> changed \<Longrightarrow> c' = c"
proof -
  have dist: "distinct (map be_Id (ct_backends c))" using assms(1) by (simp add: ct_ready_def)
  note found = set_status_find[OF dist, of entry]
  show "c' = c\<lparr>ct_backends := set_status entry (ct_backends c)\<rparr>"
  proof (cases "find (\<lambda>i. be_Id (ct_backends c ! i) = entry_BackendId entry) [0..<length (ct_backends c)]")
    case (Some i)
    have same: "(ct_backends c)[i := (ct_backends c ! i)\<lparr>be_Status := entry_State entry\<rparr>] = ct_backends c"
      if "be_Status (ct_backends c ! i) = entry_State entry"
      using that by (metis (no_types) backend.surjective backend.update_convs(3) list_update_id)
    show ?thesis using assms(2) found Some same by (auto simp: note_health_def split: if_splits)
  qed (use assms(2) found in \<open>simp add: note_health_def\<close>)
  show "ct_ready c'"
    using assms ct_ready_status[OF assms(1)]
    by (auto simp: note_health_def find_Some_iff split: option.splits if_splits)
  show "\<not> changed \<Longrightarrow> c' = c" using assms(2) by (auto simp: note_health_def split: option.splits if_splits)
qed

fun op_ok :: "ctl_op \<Rightarrow> bool" where
  "op_ok (OpInitial ord) = is_map_order ord"
| "op_ok (OpHealth ord _) = is_map_order ord"
| "op_ok (OpAssign _) = True"

fun op_backends :: "ctl_op \<Rightarrow> backend list \<Rightarrow> backend list" where
  "op_backends (OpHealth _ entry) bs = set_status entry bs"
| "op_backends _ bs = bs"

lemma recompute_event_ready:
  assumes "ct_ready c" and "is_map_order ord"
  obtains ev c' where "recompute_event bo ord c = Inr (ev, c')" "ct_ready c'" "ct_backends c' = ct_backends c"
    "ct_bpfMgr c' = ct_bpfMgr c"
proof (cases "filterAvailable (ct_backends c) = []")
  case True
  then show ?thesis using that assms(1) by (simp add: recompute_event_def)
next
  case False
  obtain lt where "ReverseCoordinatesLookupTable ord (filterAvailable (ct_backends c)) (ct_lookupTableSize c) = Inr lt"
    using rct_total[of "filterAvailable (ct_backends c)" ord "ct_lookupTableSize c"] filterAvailable_ready[OF assms(1)]
      assms(2) False by auto
  moreover obtain specs where "transformBackendList bo (filterAvailable (ct_backends c)) = Inr specs"
    using translate_ok filterAvailable_ready(3)[OF assms(1)] by blast
  ultimately show ?thesis using that assms(1) False by (simp add: recompute_event_def Let_def ct_ready_def)
qed

lemma ctl_event_ready:
  assumes "ct_ready c" and "op_ok opn"
  obtains ev c' where "ctl_event bo opn c = Inr (ev, c')" "ct_ready c'" "ct_bpfMgr c' = ct_bpfMgr c"
    "ct_backends c' = op_backends opn (ct_backends c)"
proof (cases opn)
  case (OpInitial ord)
  then obtain ev c1 where "recompute_event bo ord c = Inr (ev, c1)" "ct_ready c1" "ct_backends c1 = ct_backends c"
    "ct_bpfMgr c1 = ct_bpfMgr c"
    using recompute_event_ready[OF assms(1), of ord bo] assms(2) by auto
  then show ?thesis using that[of ev c1] OpInitial by (simp add: ctl_event_def)
next
  case (OpHealth ord entry)
  obtain changed c1 where n: "note_health entry c = (changed, c1)" by fastforce
  note c1 = note_health_status[OF assms(1) n]
  show ?thesis
  proof (cases changed)
    case True
    obtain ev c2 where "recompute_event bo ord c1 = Inr (ev, c2)" "ct_ready c2" "ct_backends c2 = ct_backends c1"
      "ct_bpfMgr c2 = ct_bpfMgr c1"
      using recompute_event_ready[OF c1(2), of ord bo] assms(2) OpHealth by auto
    then show ?thesis using that[of ev c2] n c1(1) OpHealth True by (simp add: ctl_event_def)
  next
    case False
    then show ?thesis using that[of None c1] n c1 OpHealth by (simp add: ctl_event_def)
  qed
next
  case (OpAssign a)
  then show ?thesis using that assms(1)
    by (auto simp: ctl_event_def ct_on_assignment_def ct_ready_def split: option.splits)
qed

section \<open>The turns, one by one\<close>

lemma enter_cases:
  assumes "enter bo opn s = Some (Inr (call, s'))"
  obtains (quiet) c where "\<not> sy_locked s" "ctl_event bo opn (sy_ct s) = Inr (None, c)" "call = None"
        "s' = s\<lparr>sy_ct := c, sy_log := sy_log s @ [opn]\<rparr>"
    | (offers) e c where "\<not> sy_locked s" "ctl_event bo opn (sy_ct s) = Inr (Some e, c)"
        "call = Some (length (el_calls (sy_el s)))"
        "s' = s\<lparr>sy_ct := c, sy_log := sy_log s @ [opn], sy_locked := True,
                sy_el := (sy_el s)\<lparr>el_callEvents := el_callEvents (sy_el s) @ [e],
                           el_calls := el_calls (sy_el s) @ [CallSending]\<rparr>\<rparr>"
  using assms by (auto simp: enter_def split: if_splits sum.splits option.splits prod.splits)

lemma sy_turn_cases:
  assumes "sy_turn bo objs s s'"
  obtains (manager) ord e where "is_map_order ord" "el_turn objs loop_dispatches ord (sy_el s) e" "s' = s\<lparr>sy_el := e\<rparr>"
    | (run_enter) ord call s1 where "sy_run s = RunLock" "is_map_order ord" "enter bo (OpInitial ord) s = Some (Inr (call, s1))"
        "s' = s1\<lparr>sy_run := (case call of None \<Rightarrow> RunReturned None | Some n \<Rightarrow> RunCall n)\<rparr>"
    | (run_leave) n er where "sy_run s = RunCall n" "el_calls (sy_el s) ! n = CallReturned er"
        "s' = s\<lparr>sy_locked := False, sy_run := RunReturned (set_result er)\<rparr>"
    | (receive) entry rest where "sy_health s = HReceive" "sy_healthCh s = entry # rest"
        "s' = s\<lparr>sy_healthCh := rest, sy_health := HLock entry\<rparr>"
    | (health_return) "sy_health s = HReceive" "sy_ctx s \<or> sy_healthClosed s" "s' = s\<lparr>sy_health := HReturned\<rparr>"
    | (health_enter) entry ord call s1 where "sy_health s = HLock entry" "is_map_order ord"
        "enter bo (OpHealth ord entry) s = Some (Inr (call, s1))"
        "s' = s1\<lparr>sy_health := (case call of None \<Rightarrow> HReceive | Some n \<Rightarrow> HCall n)\<rparr>"
    | (health_leave) n er where "sy_health s = HCall n" "el_calls (sy_el s) ! n = CallReturned er"
        "s' = s\<lparr>sy_locked := False, sy_health := HReceive\<rparr>"
    | (watch) h wm where "sy_assign s = AStart" "\<not> crashed (sy_el s)" "Watch None (el_mux (sy_el s)) = (h, wm)"
        "s' = s\<lparr>sy_el := (sy_el s)\<lparr>el_mux := wm\<rparr>, sy_assign := AReceive h\<rparr>"
    | (assigned) h a rest where "sy_assign s = AReceive h" "w_ch (wm_objs (el_mux (sy_el s)) ! snd h) = a # rest"
        "s' = s\<lparr>sy_assign := ALock h a,
               sy_el := (sy_el s)\<lparr>el_mux := (el_mux (sy_el s))\<lparr>wm_objs :=
                 (wm_objs (el_mux (sy_el s)))[snd h := (wm_objs (el_mux (sy_el s)) ! snd h)\<lparr>w_ch := rest\<rparr>]\<rparr>\<rparr>\<rparr>"
    | (assign_enter) h a s1 where "sy_assign s = ALock h a" "enter bo (OpAssign a) s = Some (Inr (None, s1))"
        "s' = s1\<lparr>sy_assign := AReceive h\<rparr>"
    | (assign_return) h wm where "sy_assign s = AReceive h" "\<not> crashed (sy_el s)"
        "sy_ctx s \<or> w_chClosed (wm_objs (el_mux (sy_el s)) ! snd h)" "cancel h (el_mux (sy_el s)) = Inr wm"
        "s' = s\<lparr>sy_el := (sy_el s)\<lparr>el_mux := wm\<rparr>, sy_assign := AReturned\<rparr>"
  using assms
proof cases
  case (manager ord e)
  then show ?thesis using that(1) by blast
next
  case (run ord)
  show ?thesis
  proof (cases "sy_run s")
    case RunLock
    then show ?thesis using run that(2)
      by (auto simp: run_turn_def map_sum_Inr)
  next
    case (RunCall n)
    then show ?thesis using run that(3) by (auto simp: run_turn_def leave_def split: call_state.splits)
  qed (use run in \<open>simp add: run_turn_def\<close>)
next
  case (health ord pick)
  show ?thesis
  proof (cases "sy_health s")
    case HReceive
    then show ?thesis using health that(4,5)
      by (auto simp: healthLoop_turn_def split: if_splits list.splits)
  next
    case (HLock entry)
    then show ?thesis using health that(6)
      by (auto simp: healthLoop_turn_def map_sum_Inr)
  next
    case (HCall n)
    then show ?thesis using health that(7) by (auto simp: healthLoop_turn_def leave_def split: call_state.splits)
  qed (use health in \<open>simp add: healthLoop_turn_def\<close>)
next
  case (assign pick)
  show ?thesis
  proof (cases "sy_assign s")
    case AStart
    then show ?thesis using assign that(8) by (auto simp: assignmentLoop_turn_def split: prod.splits)
  next
    case (AReceive h)
    then show ?thesis using assign that(9)[of h] that(11)[of h]
      by (auto simp: assignmentLoop_turn_def assignmentLoop_return_def map_sum_Inr Let_def split: if_splits list.splits)
  next
    case (ALock h a)
    have "call = None" if "enter bo (OpAssign a) s = Some (Inr (call, s1))" for call s1
      using that by (cases rule: enter_cases) (auto simp: ctl_event_def)
    then show ?thesis using assign ALock that(10)[of h a]
      by (auto simp: assignmentLoop_turn_def map_sum_Inr)
  qed (use assign in \<open>simp add: assignmentLoop_turn_def\<close>)
qed

section \<open>The invariant\<close>

text \<open>What the turns of the event loop do to the calls, the log and the kernel.\<close>

lemma el_turn_returned:
  assumes "el_turn objs dispatch ord e e'" and "i < length (el_calls e)" and "el_calls e ! i = CallReturned r"
  shows "el_calls e' ! i = CallReturned r"
  using assms(1)
proof (cases rule: el_turn_cases)
  case (trigger er s1)
  then show ?thesis using assms(3) Close_begin_frame[OF trigger(2)] by simp
qed (use assms(2,3) in \<open>auto simp: nth_list_update\<close>)

lemma el_turn_kernel:
  assumes "el_turn objs dispatch ord e e'"
  obtains (still) "el_kernel e' = el_kernel e" "el_log e' = el_log e" "el_callEvents e' = el_callEvents e"
    | (handles) j er where "j \<in> set (wp_q (el_events e))"
        "handleEvent objs (el_callEvents e ! j) (el_kernel e) = (er, el_kernel e')"
        "el_log e' = el_log e @ [(j, er)]" "el_callEvents e' = el_callEvents e"
  using assms
proof (cases rule: el_turn_cases)
  case (handle j rest er k)
  then show ?thesis using that(2)[of j er] by simp
next
  case (trigger er s1)
  from trigger(2) show ?thesis using trigger(3) that(1) by (cases rule: Close_begin_cases) simp_all
qed (use that(1) in simp_all)

text \<open>The call of the goroutine that holds the mutex.\<close>

fun holding :: "run_pc \<Rightarrow> health_pc \<Rightarrow> nat option" where
  "holding (RunCall n) _ = Some n"
| "holding _ (HCall n) = Some n"
| "holding _ _ = None"

abbreviation holder :: "'k system \<Rightarrow> nat option" where
  "holder s \<equiv> holding (sy_run s) (sy_health s)"

lemma holding_None: "holding r h = None \<longleftrightarrow> (\<forall>n. r \<noteq> RunCall n \<and> h \<noteq> HCall n)"
  by (cases r; cases h) auto

definition lock_inv :: "'k system \<Rightarrow> bool" where
  "lock_inv s \<longleftrightarrow>
     (sy_locked s \<longleftrightarrow> holder s \<noteq> None) \<and> \<not> (\<exists>n m. sy_run s = RunCall n \<and> sy_health s = HCall m) \<and>
     (\<forall>n. holder s = Some n \<longrightarrow> n < length (el_calls (sy_el s))) \<and>
     (\<forall>i < length (el_calls (sy_el s)). holder s \<noteq> Some i \<longrightarrow> (\<exists>r. el_calls (sy_el s) ! i = CallReturned r))"

lemma lock_invI:
  assumes "sy_locked s \<longleftrightarrow> holder s \<noteq> None" and "\<And>n m. sy_run s = RunCall n \<Longrightarrow> sy_health s \<noteq> HCall m"
    and "\<And>n. holder s = Some n \<Longrightarrow> n < length (el_calls (sy_el s))"
    and "\<And>i. i < length (el_calls (sy_el s)) \<Longrightarrow> holder s \<noteq> Some i \<Longrightarrow> \<exists>r. el_calls (sy_el s) ! i = CallReturned r"
  shows "lock_inv s"
  using assms unfolding lock_inv_def by blast

lemma lock_invD:
  assumes "lock_inv s"
  shows "sy_locked s \<longleftrightarrow> holder s \<noteq> None" and "sy_run s = RunCall n \<Longrightarrow> sy_health s \<noteq> HCall m"
    and "holder s = Some n \<Longrightarrow> n < length (el_calls (sy_el s))"
    and "i < length (el_calls (sy_el s)) \<Longrightarrow> holder s \<noteq> Some i \<Longrightarrow> \<exists>r. el_calls (sy_el s) ! i = CallReturned r"
  using assms unfolding lock_inv_def by blast+

text \<open>The state of the kernel once the call of the holder has been handled.\<close>

fun settled_kernel :: "'k bpf_objects \<Rightarrow> nat option \<Rightarrow> 'k event_loop \<Rightarrow> 'k" where
  "settled_kernel objs None e = el_kernel e"
| "settled_kernel objs (Some n) e =
     (if n \<in> fst ` set (el_log e) then el_kernel e
      else snd (handleEvent objs (el_callEvents e ! n) (el_kernel e)))"

definition settled :: "'k bpf_objects \<Rightarrow> 'k system \<Rightarrow> 'k controller" where
  "settled objs s = (sy_ct s)\<lparr>ct_bpfMgr := (ct_bpfMgr (sy_ct s))\<lparr>mgr_kernel := settled_kernel objs (holder s) (sy_el s)\<rparr>\<rparr>"

definition sync_inv :: "byte_order \<Rightarrow> 'k bpf_objects \<Rightarrow> 'k controller \<Rightarrow> 'k system \<Rightarrow> bool" where
  "sync_inv bo objs c0 s \<longleftrightarrow>
     (\<not> el_done (sy_el s) \<longrightarrow> foldD (ctl_exec bo objs) (sy_log s) c0 = Some (Inr (settled objs s)))"

definition ct_inv :: "'k controller \<Rightarrow> 'k system \<Rightarrow> bool" where
  "ct_inv c0 s \<longleftrightarrow> ct_ready (sy_ct s) \<and> ct_bpfMgr (sy_ct s) = ct_bpfMgr c0 \<and> (\<forall>opn \<in> set (sy_log s). op_ok opn)"

lemma unlocked_no_call:
  assumes "lock_inv s" and "\<not> sy_locked s"
  shows "holder s = None" and "sy_run s \<noteq> RunCall n" and "sy_health s \<noteq> HCall n"
    and "i < length (el_calls (sy_el s)) \<Longrightarrow> \<exists>r. el_calls (sy_el s) ! i = CallReturned r"
proof -
  show none: "holder s = None" using assms by (simp add: lock_inv_def)
  then show "sy_run s \<noteq> RunCall n" "sy_health s \<noteq> HCall n" by (simp_all add: holding_None)
  show "i < length (el_calls (sy_el s)) \<Longrightarrow> \<exists>r. el_calls (sy_el s) ! i = CallReturned r"
    using assms(1) none by (simp add: lock_inv_def)
qed

text \<open>Only the call of the holder can be handled; then the kernel is what it was going to be.\<close>

lemma settled_manager:
  assumes "el_inv objs mgr (sy_el s)" and "lock_inv s" and "\<not> el_done (sy_el s)"
    and "el_turn objs dispatch ord (sy_el s) e"
  shows "settled objs (s\<lparr>sy_el := e\<rparr>) = settled objs s"
proof -
  have inv: "calls_inv (sy_el s)" "pools_inv (sy_el s)" "reply_inv (sy_el s)" using assms(1) by (simp_all add: el_inv_def)
  have "settled_kernel objs (holder s) e = settled_kernel objs (holder s) (sy_el s)"
    using assms(4)
  proof (cases rule: el_turn_kernel)
    case still
    then show ?thesis by (cases "holder s") simp_all
  next
    case (handles j er)
    note j = queued_not_logged[OF inv(1,2) handles(1)]
    have "holder s = Some j"
    proof (rule ccontr)
      assume "holder s \<noteq> Some j"
      then obtain r where "el_calls (sy_el s) ! j = CallReturned r" using assms(2) j(2) unfolding lock_inv_def by blast
      then have "j \<in> fst ` set (el_log (sy_el s))"
        using reply_invD(1)[OF inv(3) j(2)] assms(3) by (force simp: rev_image_eqI)
      then show False using j(1) by blast
    qed
    then show ?thesis using handles j(1) by simp
  qed
  then show ?thesis by (simp add: settled_def)
qed

lemma lock_inv_manager:
  assumes "lock_inv s" and "el_turn objs dispatch ord (sy_el s) e"
  shows "lock_inv (s\<lparr>sy_el := e\<rparr>)"
proof -
  have "\<exists>r. el_calls e ! i = CallReturned r" if "i < length (el_calls e)" "holder s \<noteq> Some i" for i
    using assms(1) el_turn_quiet(1)[OF assms(2)] el_turn_returned[OF assms(2)] that unfolding lock_inv_def by metis
  then show ?thesis using assms(1) el_turn_quiet(1)[OF assms(2)] by (simp add: lock_inv_def)
qed

text \<open>The part of the invariant about the mutex and what is done under it.\<close>

definition core_inv :: "byte_order \<Rightarrow> 'k bpf_objects \<Rightarrow> 'k controller \<Rightarrow> 'k system \<Rightarrow> bool" where
  "core_inv bo objs c0 s \<longleftrightarrow> ct_inv c0 s \<and> lock_inv s \<and> sync_inv bo objs c0 s"

lemma core_frame:
  assumes "core_inv bo objs c0 s"
    and s': "sy_ct s' = sy_ct s" "sy_log s' = sy_log s" "sy_locked s' = sy_locked s" "sy_run s' = sy_run s"
      "holder s' = holder s" "\<And>n. sy_health s' = HCall n \<Longrightarrow> sy_health s = HCall n"
    and el: "el_calls (sy_el s') = el_calls (sy_el s)" "el_callEvents (sy_el s') = el_callEvents (sy_el s)"
      "el_kernel (sy_el s') = el_kernel (sy_el s)" "el_log (sy_el s') = el_log (sy_el s)"
      "el_done (sy_el s') = el_done (sy_el s)"
  shows "core_inv bo objs c0 s'"
proof -
  have "settled_kernel objs (holder s') (sy_el s') = settled_kernel objs (holder s) (sy_el s)"
    unfolding s'(5) by (cases "holder s") (simp_all add: el)
  then have "settled objs s' = settled objs s" by (simp add: settled_def s'(1))
  moreover have lock: "lock_inv s" using assms(1) by (simp add: core_inv_def)
  have "lock_inv s'"
  proof (rule lock_invI)
    show "sy_locked s' \<longleftrightarrow> holder s' \<noteq> None" using lock_invD(1)[OF lock] unfolding s'(3,5) .
    show "sy_health s' \<noteq> HCall m" if "sy_run s' = RunCall n" for n m
      using lock_invD(2)[OF lock] that s'(4,6) by metis
  qed (use lock_invD(3,4)[OF lock] in \<open>simp_all only: s'(5) el(1)\<close>)
  ultimately show ?thesis using assms(1) by (simp add: core_inv_def ct_inv_def sync_inv_def s'(1,2) el(5))
qed

lemma core_manager:
  assumes "core_inv bo objs c0 s" and "el_inv objs mgr (sy_el s)" and "el_turn objs dispatch ord (sy_el s) e"
    and "el_done (sy_el s) \<longrightarrow> el_done e"
  shows "core_inv bo objs c0 (s\<lparr>sy_el := e\<rparr>)"
proof -
  have "lock_inv s" using assms(1) by (simp add: core_inv_def)
  note lock_inv_manager[OF this assms(3)] settled_manager[OF assms(2) this _ assms(3)]
  then show ?thesis using assms(1,4) by (auto simp: core_inv_def ct_inv_def sync_inv_def)
qed

lemma ctl_exec_settled:
  assumes "mgr_serving (ct_bpfMgr c)" and "ctl_event bo opn c = Inr (ev, c')" and "ct_bpfMgr c' = ct_bpfMgr c"
  shows "ctl_exec bo objs opn (c\<lparr>ct_bpfMgr := (ct_bpfMgr c)\<lparr>mgr_kernel := k\<rparr>\<rparr>) =
     Some (Inr (c'\<lparr>ct_bpfMgr := (ct_bpfMgr c)\<lparr>mgr_kernel :=
       case ev of None \<Rightarrow> k | Some e \<Rightarrow> snd (handleEvent objs e k)\<rparr>\<rparr>))"
proof -
  have serving: "\<not> mgr_eventClosed (ct_bpfMgr c)" "lc_running (mgr_lc (ct_bpfMgr c))" "\<not> lc_terminate (mgr_lc (ct_bpfMgr c))"
    using assms(1) by (auto simp: mgr_serving_def mgr_wf_def lc_wf_def)
  show ?thesis
    using assms(2) mgr_submit_serving[OF serving, of objs _ k]
    by (cases ev) (simp_all add: ctl_exec_submit ctl_event_mgr ctl_submit_def split: prod.splits)
qed

lemma core_enter:
  assumes inv: "core_inv bo objs c0 s" and el: "el_inv objs (ct_bpfMgr c0) (sy_el s)" and mgr: "mgr_serving (ct_bpfMgr c0)"
    and opn: "op_ok opn" and enter: "enter bo opn s = Some (Inr (call, s1))"
    and s': "sy_ct s' = sy_ct s1" "sy_el s' = sy_el s1" "sy_log s' = sy_log s1" "sy_locked s' = sy_locked s1"
      "holder s' = call" "\<not> (\<exists>n m. sy_run s' = RunCall n \<and> sy_health s' = HCall m)"
  shows "core_inv bo objs c0 s'"
proof -
  have parts: "ct_inv c0 s" "lock_inv s" "sync_inv bo objs c0 s" using inv by (simp_all add: core_inv_def)
  have ct: "ct_ready (sy_ct s)" "ct_bpfMgr (sy_ct s) = ct_bpfMgr c0" using parts(1) by (simp_all add: ct_inv_def)
  have free: "\<not> sy_locked s" using enter by (auto simp: enter_def split: if_splits)
  note idle = unlocked_no_call[OF parts(2) free]
  obtain ev c where ev: "ctl_event bo opn (sy_ct s) = Inr (ev, c)" and c: "ct_ready c" "ct_bpfMgr c = ct_bpfMgr (sy_ct s)"
    using ctl_event_ready[OF ct(1) opn] by blast
  have calls: "length (el_callEvents (sy_el s)) = length (el_calls (sy_el s))"
    using el by (simp add: el_inv_def calls_inv_def)
  have new: "length (el_calls (sy_el s)) \<notin> fst ` set (el_log (sy_el s))" using el_inv_log(2)[OF el] by auto
  have upd: "sy_ct s' = c" "sy_log s' = sy_log s @ [opn]" "el_done (sy_el s') = el_done (sy_el s)"
    "settled_kernel objs (holder s') (sy_el s') =
       (case ev of None \<Rightarrow> el_kernel (sy_el s) | Some e \<Rightarrow> snd (handleEvent objs e (el_kernel (sy_el s))))"
  proof -
    from enter have upd1: "sy_ct s1 = c" "sy_log s1 = sy_log s @ [opn]" "el_done (sy_el s1) = el_done (sy_el s)"
      "settled_kernel objs call (sy_el s1) =
         (case ev of None \<Rightarrow> el_kernel (sy_el s) | Some e \<Rightarrow> snd (handleEvent objs e (el_kernel (sy_el s))))"
      by (cases rule: enter_cases; use ev new calls in \<open>simp add: nth_append\<close>)+
    then show "sy_ct s' = c" "sy_log s' = sy_log s @ [opn]" "el_done (sy_el s') = el_done (sy_el s)"
      "settled_kernel objs (holder s') (sy_el s') =
         (case ev of None \<Rightarrow> el_kernel (sy_el s) | Some e \<Rightarrow> snd (handleEvent objs e (el_kernel (sy_el s))))"
      unfolding s' by blast+
  qed
  have "lock_inv s'"
  proof (rule lock_invI)
    show "sy_locked s' \<longleftrightarrow> holder s' \<noteq> None"
      using enter free unfolding s'(4,5) by (cases rule: enter_cases) simp_all
    show "n < length (el_calls (sy_el s'))" if "holder s' = Some n" for n
      using enter that unfolding s'(2,5) by (cases rule: enter_cases) simp_all
    show "\<exists>r. el_calls (sy_el s') ! i = CallReturned r" if "i < length (el_calls (sy_el s'))" "holder s' \<noteq> Some i" for i
      using enter that idle(4)[of i] unfolding s'(2,5)
      by (cases rule: enter_cases) (simp_all add: nth_append less_Suc_eq)
  qed (use s'(6) in blast)
  moreover have "settled objs s = (sy_ct s)\<lparr>ct_bpfMgr := (ct_bpfMgr (sy_ct s))\<lparr>mgr_kernel := el_kernel (sy_el s)\<rparr>\<rparr>"
    by (simp add: settled_def idle(1))
  then have "sync_inv bo objs c0 s'"
    using parts(3) ctl_exec_settled[of "sy_ct s", OF _ ev c(2), of objs] foldD_snoc[of "ctl_exec bo objs" "sy_log s" c0] mgr ct(2)
    by (simp add: sync_inv_def settled_def upd c(2))
  moreover have "ct_inv c0 s'" using parts(1) c opn by (simp add: ct_inv_def upd)
  ultimately show ?thesis by (simp add: core_inv_def)
qed

lemma core_leave:
  assumes inv: "core_inv bo objs c0 s" and el: "el_inv objs mgr (sy_el s)"
    and n: "holder s = Some n" "el_calls (sy_el s) ! n = CallReturned er"
    and s': "sy_ct s' = sy_ct s" "sy_el s' = sy_el s" "sy_log s' = sy_log s" "\<not> sy_locked s'" "holder s' = None"
  shows "core_inv bo objs c0 s'"
proof -
  have parts: "ct_inv c0 s" "lock_inv s" "sync_inv bo objs c0 s" using inv by (simp_all add: core_inv_def)
  have bound: "n < length (el_calls (sy_el s))" using parts(2) n(1) by (simp add: lock_inv_def)
  have "reply_inv (sy_el s)" using el by (simp add: el_inv_def)
  then have "n \<in> fst ` set (el_log (sy_el s))" if "\<not> el_done (sy_el s)"
    using reply_invD(1)[OF _ bound n(2)] that by (force simp: rev_image_eqI)
  then have "sync_inv bo objs c0 s'"
    using parts(3) by (auto simp: sync_inv_def settled_def s' n(1))
  moreover have "lock_inv s'"
  proof (rule lock_invI)
    show "\<exists>r. el_calls (sy_el s') ! i = CallReturned r" if "i < length (el_calls (sy_el s'))" for i
      using lock_invD(4)[OF parts(2), of i] that n unfolding s'(2) by (cases "i = n") simp_all
  qed (use s'(4,5) in \<open>simp_all add: holding_None\<close>)
  ultimately show ?thesis using parts(1) by (simp add: core_inv_def ct_inv_def s')
qed

section \<open>The watcher of the assignment loop\<close>

lemma loop_dispatches_safe: "dispatch_safe loop_dispatches"
proof -
  have "d \<in> timeout_dispatches ord" if "d = DispatchFuncWithTimeout ord pick (\<lambda>_. 0)" for d ord pick
    using that by (auto simp: timeout_dispatches_def)
  moreover have "DispatchFuncWithTimeout rev (\<lambda>_. False) (\<lambda>_. 0) \<in> loop_dispatches"
    unfolding loop_dispatches_def using map_order_rev by blast
  moreover have "\<exists>ord. is_map_order ord \<and> d \<in> timeout_dispatches ord" if "d \<in> loop_dispatches" for d
    using that calculation(1) unfolding loop_dispatches_def by blast
  ultimately show ?thesis using timeout_dispatches_safe unfolding dispatch_safe_def by blast
qed

lemma update_all_frame:
  assumes "foldM (\<lambda>a. update_watcher (f a) a) as wm = Inr wm'" and "distinct as"
  shows "wm_watchers wm' = wm_watchers wm \<and> length (wm_objs wm') = length (wm_objs wm) \<and>
         (wm_objs wm' ! b = wm_objs wm ! b \<or> f b (wm_objs wm ! b) = Inr (wm_objs wm' ! b) \<and> b \<in> set as)"
  using assms
proof (induction as arbitrary: wm)
  case (Cons a as)
  obtain wm1 where wm1: "update_watcher (f a) a wm = Inr wm1" "foldM (\<lambda>a. update_watcher (f a) a) as wm1 = Inr wm'"
    using Cons.prems(1) by (auto split: sum.splits)
  obtain w where w: "f a (wm_objs wm ! a) = Inr w" "a < length (wm_objs wm)" "wm1 = wm\<lparr>wm_objs := (wm_objs wm)[a := w]\<rparr>"
    using wm1(1) by (auto simp: update_watcher_def slice_get_def split: sum.splits if_splits)
  have "wm_watchers wm' = wm_watchers (wm\<lparr>wm_objs := (wm_objs wm)[a := w]\<rparr>) \<and>
      length (wm_objs wm') = length (wm_objs (wm\<lparr>wm_objs := (wm_objs wm)[a := w]\<rparr>)) \<and>
      (wm_objs wm' ! b = wm_objs (wm\<lparr>wm_objs := (wm_objs wm)[a := w]\<rparr>) ! b \<or>
       f b (wm_objs (wm\<lparr>wm_objs := (wm_objs wm)[a := w]\<rparr>) ! b) = Inr (wm_objs wm' ! b) \<and> b \<in> set as)"
    using Cons.IH[OF wm1(2)] Cons.prems(2) by (simp add: w(3))
  then show ?case using w(1,2) Cons.prems(2) by (cases "b = a") auto
qed simp

text \<open>A watcher whose cancel function can still be called.\<close>

definition cancellable :: "'a watcher \<Rightarrow> bool" where
  "cancellable w \<longleftrightarrow> \<not> w_doneClosed w \<and> (w_chClosed w \<longrightarrow> w_once w)"

lemma loop_dispatch_frame:
  assumes "d \<in> loop_dispatches" and "wm_open wm" and "d a wm = Inr wm'"
  shows "wm_watchers wm' = wm_watchers wm \<and> length (wm_objs wm') = length (wm_objs wm) \<and>
         length (w_ch (wm_objs wm' ! b)) \<le> Suc (length (w_ch (wm_objs wm ! b))) \<and>
         (cancellable (wm_objs wm ! b) \<longrightarrow> cancellable (wm_objs wm' ! b))"
proof -
  obtain ord pick where ord: "is_map_order ord" and d: "d = DispatchFuncWithTimeout ord pick (\<lambda>_. 0)"
    using assms(1) by (auto simp: loop_dispatches_def)
  have "distinct (getWatcherList ord wm)" using getWatcherList_wf(2)[OF ord, of wm] assms(2) by (simp add: wm_open_def)
  note frame = update_all_frame[OF assms(3)[unfolded d DispatchFuncWithTimeout_def] this, of b]
  have "length (w_ch w') \<le> Suc (length (w_ch w)) \<and> (cancellable w \<longrightarrow> cancellable w')"
    if "dispatchOne (pick b) 0 a w = Inr w'" for w w'
    using that by (auto simp: dispatchOne_def select_send_def cancellable_def Let_def split: if_splits)
  then show ?thesis using frame by fastforce
qed

lemma wm_Close_frame:
  fixes wm :: "'a watcher_mux"
  assumes "is_map_order ord" and "wm_open wm" and "wm_Close ord wm = Inr wm'"
  shows "wm_watchers wm' = wm_watchers wm \<and> length (wm_objs wm') = length (wm_objs wm) \<and>
         w_ch (wm_objs wm' ! b) = w_ch (wm_objs wm ! b) \<and> (cancellable (wm_objs wm ! b) \<longrightarrow> cancellable (wm_objs wm' ! b))"
proof -
  have "distinct (getWatcherList ord wm)" using getWatcherList_wf(2)[OF assms(1), of wm] assms(2) by (simp add: wm_open_def)
  moreover obtain wm1 where wm1: "foldM (update_watcher close_channel_once) (getWatcherList ord wm) wm = Inr wm1"
    "wm' = wm1\<lparr>wm_doneClosed := True\<rparr>"
    using assms(3) by (auto simp: wm_Close_def split: sum.splits if_splits)
  moreover have "w_ch w' = w_ch w \<and> (cancellable w \<longrightarrow> cancellable w')" if "close_channel_once w = Inr w'" for w w' :: "'a watcher"
    using that by (auto simp: close_channel_once_def cancellable_def split: if_splits)
  ultimately show ?thesis
    using update_all_frame[of "\<lambda>_. close_channel_once" "getWatcherList ord wm" wm wm1 b] by fastforce
qed

text \<open>A turn of the event loop adds at most one value to a channel and keeps the watchers.\<close>

lemma el_turn_mux:
  assumes "el_inv objs mgr e" and "is_map_order ord" and "el_turn objs loop_dispatches ord e e'"
  shows "wm_watchers (el_mux e') = wm_watchers (el_mux e) \<and>
         length (wm_objs (el_mux e')) = length (wm_objs (el_mux e)) \<and>
         length (w_ch (wm_objs (el_mux e') ! b)) \<le> Suc (length (w_ch (wm_objs (el_mux e) ! b))) \<and>
         (cancellable (wm_objs (el_mux e) ! b) \<longrightarrow> cancellable (wm_objs (el_mux e') ! b))"
proof -
  have inv: "lc_inv e" "pools_inv e" "mux_inv e" using assms(1) by (simp_all add: el_inv_def)
  from assms(3) show ?thesis
  proof (cases rule: el_turn_cases)
    case (finish wm)
    then have "wm_open (el_mux e)" using inv(1,3) by (simp add: lc_inv_def mux_inv_def)
    from wm_Close_frame[OF assms(2) this finish(5), of b] show ?thesis using finish(4) by simp
  next
    case (watch_turn pick i p wm)
    show ?thesis
    proof (cases "wm = el_mux e")
      case False
      then obtain a d where d: "d \<in> loop_dispatches" "d a (el_mux e) = Inr wm"
        and live: "wp_workers (el_watch e) ! i \<noteq> Returned" using watch_turn(4) by blast
      have "el_done e \<longrightarrow> wp_done (el_watch e)" using inv(1) by (simp add: lc_inv_def)
      moreover have "wp_done (el_watch e) \<longrightarrow> set (wp_workers (el_watch e)) \<subseteq> {Returned}"
        using inv(2) by (simp add: pools_inv_def pool_ok_def)
      ultimately have "\<not> el_done e" using live nth_mem[OF watch_turn(1)] by blast
      then have "wm_open (el_mux e)" using inv(3) by (simp add: mux_inv_def)
      from loop_dispatch_frame[OF d(1) this d(2), of b] show ?thesis using watch_turn(3) by simp
    qed (use watch_turn(3) in simp)
  next
    case (trigger er s1)
    from trigger(2) show ?thesis using trigger(3) by (cases rule: Close_begin_cases) simp_all
  qed simp_all
qed

fun watching :: "assign_pc \<Rightarrow> (nat \<times> nat) option" where
  "watching (AReceive h) = Some h"
| "watching (ALock h _) = Some h"
| "watching _ = None"

definition assign_inv :: "'k system \<Rightarrow> bool" where
  "assign_inv s \<longleftrightarrow>
     (\<forall>h. watching (sy_assign s) = Some h \<longrightarrow>
        h \<in> set (wm_watchers (el_mux (sy_el s))) \<and> snd h < length (wm_objs (el_mux (sy_el s))) \<and>
        cancellable (wm_objs (el_mux (sy_el s)) ! snd h)) \<and>
     (sy_assign s = AReturned \<longrightarrow> sy_ctx s \<or> el_done (sy_el s))"

text \<open>The entries of the monitor: handled, held by the loop, still in the channel.\<close>

fun health_entries :: "ctl_op list \<Rightarrow> backend_status_entry list" where
  "health_entries [] = []"
| "health_entries (OpHealth _ entry # ops) = entry # health_entries ops"
| "health_entries (_ # ops) = health_entries ops"

fun held_entry :: "health_pc \<Rightarrow> backend_status_entry list" where
  "held_entry (HLock entry) = [entry]"
| "held_entry _ = []"

definition entries_inv :: "'k system \<Rightarrow> bool" where
  "entries_inv s \<longleftrightarrow>
     sy_entries s = health_entries (sy_log s) @ held_entry (sy_health s) @ sy_healthCh s \<and>
     (sy_health s = HReturned \<longrightarrow> sy_ctx s \<or> sy_healthClosed s) \<and>
     (sy_run s = RunLock \<or> (\<exists>ord. OpInitial ord \<in> set (sy_log s)))"

lemma health_entries_append: "health_entries (xs @ ys) = health_entries xs @ health_entries ys"
  by (induction xs rule: health_entries.induct) simp_all

section \<open>The invariant is kept\<close>

definition sy_inv :: "byte_order \<Rightarrow> 'k bpf_objects \<Rightarrow> 'k controller \<Rightarrow> 'k system \<Rightarrow> bool" where
  "sy_inv bo objs c0 s \<longleftrightarrow>
     el_inv objs (ct_bpfMgr c0) (sy_el s) \<and> core_inv bo objs c0 s \<and> assign_inv s \<and> entries_inv s"

lemma sy_invD:
  assumes "sy_inv bo objs c0 s"
  shows "el_inv objs (ct_bpfMgr c0) (sy_el s)" and "core_inv bo objs c0 s" and "assign_inv s" and "entries_inv s"
    and "lock_inv s" and "ct_inv c0 s" and "sync_inv bo objs c0 s"
  using assms by (simp_all add: sy_inv_def core_inv_def)

lemma el_done_turn: "el_turn objs dispatch ord e e' \<Longrightarrow> el_done e \<Longrightarrow> el_done e'"
  by (erule el_turn_cases) (auto elim!: Close_begin_cases)

lemma el_inv_receive:
  assumes "el_inv objs mgr e"
  shows "el_inv objs mgr (e\<lparr>el_mux := (el_mux e)\<lparr>wm_objs := (wm_objs (el_mux e))[b := (wm_objs (el_mux e) ! b)\<lparr>w_ch := rest\<rparr>]\<rparr>\<rparr>)"
  by (rule el_inv_frame[OF assms])
    (use assms wm_open_channel[of "el_mux e" b rest] in \<open>simp_all add: el_inv_def mux_inv_def watch_inv_def\<close>)

lemma unlocked_not_crashed:
  assumes "lock_inv s" and "\<not> sy_locked s"
  shows "\<not> crashed (sy_el s)"
  using unlocked_no_call(4)[OF assms] by (metis call_state.distinct(11) crashed_def in_set_conv_nth)

lemma el_inv_enter:
  assumes inv: "sy_inv bo objs c0 s" and mgr: "mgr_serving (ct_bpfMgr c0)" and enter: "enter bo opn s = Some (Inr (call, s1))"
  shows "el_inv objs (ct_bpfMgr c0) (sy_el s1)"
  using enter
proof (cases rule: enter_cases)
  case (offers e c)
  from el_inv_step[OF loop_dispatches_safe mgr sy_invD(1)[OF inv]
      el_step.call[OF unlocked_not_crashed[OF sy_invD(5)[OF inv] offers(1)], of objs loop_dispatches rev e]]
  show ?thesis using offers(4) by simp
qed (use sy_invD(1)[OF inv] in simp)

lemma el_inv_sy_turn:
  assumes inv: "sy_inv bo objs c0 s" and mgr: "mgr_serving (ct_bpfMgr c0)" and turn: "sy_turn bo objs s s'"
  shows "el_inv objs (ct_bpfMgr c0) (sy_el s')"
  using turn
proof (cases rule: sy_turn_cases)
  case (manager ord e)
  then show ?thesis using el_inv_turn[OF loop_dispatches_safe mgr sy_invD(1)[OF inv]] by simp
next
  case (watch h wm)
  from el_inv_step[OF loop_dispatches_safe mgr sy_invD(1)[OF inv] el_step.watch[OF watch(2), of objs loop_dispatches rev]]
  show ?thesis using watch(3,4) by simp
next
  case (assigned h a rest)
  then show ?thesis using el_inv_receive[OF sy_invD(1)[OF inv]] by simp
next
  case (assign_return h wm)
  then have "h \<in> set (wm_watchers (el_mux (sy_el s)))" using sy_invD(3)[OF inv] by (simp add: assign_inv_def)
  from el_inv_step[OF loop_dispatches_safe mgr sy_invD(1)[OF inv] el_step.unwatch[OF assign_return(2) this assign_return(4),
      of objs loop_dispatches rev]]
  show ?thesis using assign_return(5) by simp
next
  case (run_enter ord call s1)
  then show ?thesis using el_inv_enter[OF inv mgr run_enter(3)] by simp
next
  case (health_enter entry ord call s1)
  then show ?thesis using el_inv_enter[OF inv mgr health_enter(3)] by simp
next
  case (assign_enter h a s1)
  then show ?thesis using el_inv_enter[OF inv mgr assign_enter(2)] by simp
qed (use sy_invD(1)[OF inv] in simp_all)

lemma enter_frame:
  assumes "enter bo opn s = Some (Inr (call, s1))"
  shows "sy_run s1 = sy_run s" "sy_health s1 = sy_health s" "sy_assign s1 = sy_assign s" "sy_healthCh s1 = sy_healthCh s"
    "sy_healthClosed s1 = sy_healthClosed s" "sy_ctx s1 = sy_ctx s" "sy_log s1 = sy_log s @ [opn]"
    "sy_entries s1 = sy_entries s" "el_mux (sy_el s1) = el_mux (sy_el s)" "el_lc (sy_el s1) = el_lc (sy_el s)"
    "\<not> sy_locked s"
  using assms by (cases rule: enter_cases; simp)+

lemma core_sy_turn:
  assumes inv: "sy_inv bo objs c0 s" and mgr: "mgr_serving (ct_bpfMgr c0)" and turn: "sy_turn bo objs s s'"
  shows "core_inv bo objs c0 s'"
proof -
  note core = sy_invD(2)[OF inv] and el = sy_invD(1)[OF inv] and lock = sy_invD(5)[OF inv]
  note frame = core_frame[OF core]
  from turn show ?thesis
  proof (cases rule: sy_turn_cases)
    case (manager ord e)
    then show ?thesis using core_manager[OF core el manager(2)] el_done_turn[OF manager(2)] by simp
  next
    case (run_enter ord call s1)
    note idle = unlocked_no_call[OF lock enter_frame(11)[OF run_enter(3)]]
    show ?thesis
      by (rule core_enter[OF core el mgr _ run_enter(3)])
        (use run_enter(2,4) enter_frame[OF run_enter(3)] idle(3) in
          \<open>cases "sy_health s"; simp split: option.splits\<close>)+
  next
    case (health_enter entry ord call s1)
    note idle = unlocked_no_call[OF lock enter_frame(11)[OF health_enter(3)]]
    show ?thesis
      by (rule core_enter[OF core el mgr _ health_enter(3)])
        (use health_enter(2,4) enter_frame[OF health_enter(3)] idle(2) in
          \<open>cases "sy_run s"; simp split: option.splits\<close>)+
  next
    case (assign_enter h a s1)
    note idle = unlocked_no_call[OF lock enter_frame(11)[OF assign_enter(2)]]
    show ?thesis
      by (rule core_enter[OF core el mgr _ assign_enter(2)])
        (use assign_enter(3) enter_frame[OF assign_enter(2)] idle(1,2) in simp_all)
  next
    case (run_leave n er)
    have "sy_health s \<noteq> HCall m" for m using lock_invD(2)[OF lock run_leave(1)] .
    then have "holder s' = None" using run_leave(3) by (simp add: holding_None)
    then show ?thesis by (intro core_leave[OF core el _ run_leave(2), of s']) (use run_leave(1,3) in simp_all)
  next
    case (health_leave n er)
    have no_run: "sy_run s \<noteq> RunCall m" for m using lock_invD(2)[OF lock, of m n] health_leave(1) by blast
    then have "holder s' = None" using health_leave(3) by (simp add: holding_None)
    moreover have "holder s = Some n" using no_run health_leave(1) by (cases "sy_run s") (simp_all, blast)
    ultimately show ?thesis by (intro core_leave[OF core el _ health_leave(2), of s']) (use health_leave(3) in simp_all)
  next
    case (receive entry rest)
    show ?thesis by (rule frame) (use receive in \<open>cases "sy_run s"; simp\<close>)+
  next
    case health_return
    show ?thesis by (rule frame) (use health_return in \<open>cases "sy_run s"; simp\<close>)+
  next
    case (watch h wm)
    then show ?thesis by (intro frame) simp_all
  next
    case (assigned h a rest)
    then show ?thesis by (intro frame) simp_all
  next
    case (assign_return h wm)
    then show ?thesis by (intro frame) simp_all
  qed
qed

lemma assign_frame:
  assumes "assign_inv s" and "watching (sy_assign s') = None \<or> watching (sy_assign s') = watching (sy_assign s)"
    and "wm_watchers (el_mux (sy_el s')) = wm_watchers (el_mux (sy_el s))"
    and "length (wm_objs (el_mux (sy_el s'))) = length (wm_objs (el_mux (sy_el s)))"
    and "\<And>b. cancellable (wm_objs (el_mux (sy_el s)) ! b) \<Longrightarrow> cancellable (wm_objs (el_mux (sy_el s')) ! b)"
    and "sy_assign s' = AReturned \<longrightarrow> sy_assign s = AReturned" and "sy_ctx s \<longrightarrow> sy_ctx s'"
    and "el_done (sy_el s) \<longrightarrow> el_done (sy_el s')"
  shows "assign_inv s'"
proof -
  have "h \<in> set (wm_watchers (el_mux (sy_el s'))) \<and> snd h < length (wm_objs (el_mux (sy_el s'))) \<and>
      cancellable (wm_objs (el_mux (sy_el s')) ! snd h)"
    if "watching (sy_assign s') = Some h" for h
  proof -
    have "watching (sy_assign s) = Some h" using assms(2) that by simp
    then show ?thesis using assms(1,5) unfolding assms(3,4) assign_inv_def by blast
  qed
  then show ?thesis using assms(1,6-8) unfolding assign_inv_def by blast
qed

lemma assign_sy_turn:
  assumes inv: "sy_inv bo objs c0 s" and turn: "sy_turn bo objs s s'"
  shows "assign_inv s'"
proof -
  note assign = sy_invD(3)[OF inv]
  note frame = assign_frame[OF assign]
  from turn show ?thesis
  proof (cases rule: sy_turn_cases)
    case (manager ord e)
    show ?thesis
      by (rule frame) (use manager el_turn_mux[OF sy_invD(1)[OF inv] manager(1,2)] el_done_turn[OF manager(2)] in simp_all)
  next
    case (run_enter ord call s1)
    show ?thesis by (rule frame) (use run_enter(4) enter_frame[OF run_enter(3)] in simp_all)
  next
    case (health_enter entry ord call s1)
    show ?thesis by (rule frame) (use health_enter(4) enter_frame[OF health_enter(3)] in simp_all)
  next
    case (assign_enter h a s1)
    show ?thesis by (rule frame) (use assign_enter(1,3) enter_frame[OF assign_enter(2)] in simp_all)
  next
    case (watch h wm)
    then show ?thesis by (auto simp: assign_inv_def Watch_def cancellable_def Let_def)
  next
    case (assigned h a rest)
    have "cancellable (xs[i := (xs ! i)\<lparr>w_ch := vs\<rparr>] ! b)" if "cancellable (xs ! b)" for xs :: "assignment watcher list" and i vs b
      using that by (cases "b = i"; cases "i < length xs") (simp_all add: cancellable_def list_update_beyond)
    then show ?thesis by (intro frame) (use assigned(1,3) in simp_all)
  next
    case (assign_return h wm)
    have "h \<in> set (wm_watchers (el_mux (sy_el s)))" using assign assign_return(1) by (simp add: assign_inv_def)
    then have reg: "snd h \<in> snd ` set (wm_watchers (el_mux (sy_el s)))" by force
    have "mux_inv (sy_el s)" using sy_invD(1)[OF inv] by (simp add: el_inv_def)
    then have "sy_ctx s \<or> el_done (sy_el s)"
      using assign_return(3) registered_open(2)[OF _ reg] unfolding mux_inv_def by blast
    then show ?thesis using assign_return(5) by (simp add: assign_inv_def)
  qed (use assign in \<open>simp_all add: assign_inv_def\<close>)
qed

lemma entries_sy_turn:
  assumes "entries_inv s" and turn: "sy_turn bo objs s s'"
  shows "entries_inv s'"
  using turn
proof (cases rule: sy_turn_cases)
  case (run_enter ord call s1)
  then show ?thesis using assms(1) enter_frame[OF run_enter(3)] by (auto simp: entries_inv_def health_entries_append)
next
  case (health_enter entry ord call s1)
  then show ?thesis using assms(1) enter_frame[OF health_enter(3)]
    by (auto simp: entries_inv_def health_entries_append split: option.splits)
next
  case (assign_enter h a s1)
  then show ?thesis using assms(1) enter_frame[OF assign_enter(2)]
    by (auto simp: entries_inv_def health_entries_append)
qed (use assms(1) in \<open>auto simp: entries_inv_def\<close>)

lemma sy_inv_turn:
  assumes "sy_inv bo objs c0 s" and "mgr_serving (ct_bpfMgr c0)" and "sy_turn bo objs s s'"
  shows "sy_inv bo objs c0 s'"
  using el_inv_sy_turn[OF assms] core_sy_turn[OF assms] assign_sy_turn[OF assms(1,3)]
    entries_sy_turn[OF sy_invD(4)[OF assms(1)] assms(3)]
  by (simp add: sy_inv_def)

lemma sy_inv_frame:
  assumes "sy_inv bo objs c0 s" and "el_inv objs (ct_bpfMgr c0) (sy_el s')" and "entries_inv s'"
    and "sy_ct s' = sy_ct s" "sy_log s' = sy_log s" "sy_locked s' = sy_locked s" "sy_run s' = sy_run s"
      "sy_health s' = sy_health s" "sy_assign s' = sy_assign s" "sy_ctx s \<longrightarrow> sy_ctx s'"
    and "el_calls (sy_el s') = el_calls (sy_el s)" "el_callEvents (sy_el s') = el_callEvents (sy_el s)"
      "el_kernel (sy_el s') = el_kernel (sy_el s)" "el_log (sy_el s') = el_log (sy_el s)"
      "el_done (sy_el s') = el_done (sy_el s)" "el_mux (sy_el s') = el_mux (sy_el s)"
  shows "sy_inv bo objs c0 s'"
proof -
  have "core_inv bo objs c0 s'" by (rule core_frame[OF sy_invD(2)[OF assms(1)]]) (use assms(4-8,11-15) in simp_all)
  moreover have "assign_inv s'" by (rule assign_frame[OF sy_invD(3)[OF assms(1)]]) (use assms(9,10,15,16) in simp_all)
  ultimately show ?thesis using assms(2,3) by (simp add: sy_inv_def)
qed

lemma sy_inv_step:
  assumes "sy_inv bo objs c0 s" and "mgr_serving (ct_bpfMgr c0)" and "sy_step bo objs s s'"
  shows "sy_inv bo objs c0 s'"
  using assms(3)
proof cases
  case turn
  then show ?thesis using sy_inv_turn assms(1,2) by blast
next
  case (entry e)
  show ?thesis
    by (rule sy_inv_frame[OF assms(1)]) (use entry(1) sy_invD[OF assms(1)] in \<open>simp_all add: entries_inv_def\<close>)
next
  case (report a)
  from el_inv_step[OF loop_dispatches_safe assms(2) sy_invD(1)[OF assms(1)]
      el_step.arrive[OF report(2,3), of objs loop_dispatches rev a]]
  show ?thesis
    by (intro sy_inv_frame[OF assms(1)]) (use report(1) sy_invD[OF assms(1)] in \<open>simp_all add: entries_inv_def\<close>)
next
  case fifo_close
  from el_inv_step[OF loop_dispatches_safe assms(2) sy_invD(1)[OF assms(1)]
      el_step.fifo_close[OF fifo_close(2), of objs loop_dispatches rev]]
  show ?thesis
    by (intro sy_inv_frame[OF assms(1)]) (use fifo_close(1) sy_invD[OF assms(1)] in \<open>simp_all add: entries_inv_def\<close>)
next
  case ctx
  show ?thesis
    by (rule sy_inv_frame[OF assms(1)]) (use ctx(1) sy_invD[OF assms(1)] in \<open>simp_all add: entries_inv_def\<close>)
next
  case health_cancel
  show ?thesis
    by (rule sy_inv_frame[OF assms(1)]) (use health_cancel(1) sy_invD[OF assms(1)] in \<open>simp_all add: entries_inv_def\<close>)
next
  case (close er e)
  have "el_kernel e = el_kernel (sy_el s)" "el_callEvents e = el_callEvents (sy_el s)" "el_calls e = el_calls (sy_el s)"
    "el_log e = el_log (sy_el s)" "el_done e = el_done (sy_el s)" "el_mux e = el_mux (sy_el s)"
    using close(3) by (cases rule: Close_begin_cases; simp)+
  with el_inv_step[OF loop_dispatches_safe assms(2) sy_invD(1)[OF assms(1)]
      el_step.close[OF close(2,3), of objs loop_dispatches rev]]
  show ?thesis
    by (intro sy_inv_frame[OF assms(1)]) (use close(1) sy_invD[OF assms(1)] in \<open>simp_all add: entries_inv_def\<close>)
qed

lemma control_loops_inv:
  assumes "ct_ready c0" and "mgr_serving (ct_bpfMgr c0)"
  shows "sy_inv bo objs c0 (control_loops c0)"
proof -
  have "el_calls (eventLoop (ct_bpfMgr c0)) = []" "el_kernel (eventLoop (ct_bpfMgr c0)) = mgr_kernel (ct_bpfMgr c0)"
    by (simp_all add: eventLoop_def)
  then show ?thesis
    using eventLoop_inv[OF assms(2), of objs] assms(1)
    by (simp add: sy_inv_def core_inv_def ct_inv_def lock_inv_def sync_inv_def settled_def assign_inv_def entries_inv_def
        control_loops_def)
qed

lemma sy_reachable_inv:
  assumes "ct_ready c0" and "mgr_serving (ct_bpfMgr c0)" and "(sy_step bo objs)\<^sup>*\<^sup>* (control_loops c0) s"
  shows "sy_inv bo objs c0 s"
  using assms(3) by (induction rule: rtranclp_induct) (use control_loops_inv sy_inv_step assms(1,2) in blast)+

section \<open>The log\<close>

lemma sy_step_log: "sy_step bo objs s s' \<Longrightarrow> prefix (sy_log s) (sy_log s')"
proof (erule sy_step.cases)
  fix s1 s1' assume "s = s1" "s' = s1'" "sy_turn bo objs s1 s1'"
  then have "sy_turn bo objs s s'" by simp
  then show "prefix (sy_log s) (sy_log s')"
  proof (cases rule: sy_turn_cases)
    case (run_enter ord call s1)
    then show ?thesis using enter_frame(7)[OF run_enter(3)] by simp
  next
    case (health_enter entry ord call s1)
    then show ?thesis using enter_frame(7)[OF health_enter(3)] by simp
  next
    case (assign_enter h a s1)
    then show ?thesis using enter_frame(7)[OF assign_enter(2)] by simp
  qed simp_all
qed simp_all

lemma sy_steps_log: "(sy_step bo objs)\<^sup>*\<^sup>* s s' \<Longrightarrow> prefix (sy_log s) (sy_log s')"
  by (induction rule: rtranclp_induct) (use sy_step_log prefix_order.trans in blast)+

end
