(* ===== verification/Control_Progress.thy ===== *)
theory Control_Progress
  imports Control_Loops
begin

text \<open>
  What the goroutines of \<open>internal/controller/controller.go\<close> achieve together with those of the
  manager: they refine the sequential controller, they never wait for each other in a circle, and
  once they have nothing left to do the kernel agrees with the health monitor.
\<close>

section \<open>The loops are a sequence of events\<close>

text \<open>
  C3. The goroutines of the controller, interleaved in any way with each other and with those of the
  manager, have the effect of events handled one after the other. Whenever nobody holds the mutex
  and the event loop has not ended, the backends, the session map and the kernel are those of the
  sequential controller after the operations of \<open>sy_log\<close>: the first computation of \<open>Run\<close>, and
  the health entries and assignments in the order in which the loops got the mutex. No entry of the
  health monitor is lost, doubled or overtaken on the way. The log only grows, and \<open>Run\<close> and
  \<open>healthLoop\<close> are never both inside a call of the manager.
\<close>

theorem control_loops_refine_sequential:
  assumes "ct_ready c0" and "mgr_serving (ct_bpfMgr c0)" and "(sy_step bo objs)\<^sup>*\<^sup>* (control_loops c0) s"
    and "\<not> sy_locked s" and "\<not> el_done (sy_el s)"
  shows "foldD (ctl_exec bo objs) (sy_log s) c0 =
           Some (Inr ((sy_ct s)\<lparr>ct_bpfMgr := (ct_bpfMgr c0)\<lparr>mgr_kernel := el_kernel (sy_el s)\<rparr>\<rparr>)) \<and>
         sy_entries s = health_entries (sy_log s) @ held_entry (sy_health s) @ sy_healthCh s \<and>
         (\<forall>s'. (sy_step bo objs)\<^sup>*\<^sup>* s s' \<longrightarrow>
            prefix (sy_log s) (sy_log s') \<and> \<not> (\<exists>n m. sy_run s' = RunCall n \<and> sy_health s' = HCall m))"
proof -
  have inv: "sy_inv bo objs c0 s" by (rule sy_reachable_inv[OF assms(1-3)])
  have "sy_inv bo objs c0 s'" if "(sy_step bo objs)\<^sup>*\<^sup>* s s'" for s'
    by (rule sy_reachable_inv[OF assms(1,2)]) (use assms(3) that in simp)
  then have "\<forall>s'. (sy_step bo objs)\<^sup>*\<^sup>* s s' \<longrightarrow>
      prefix (sy_log s) (sy_log s') \<and> \<not> (\<exists>n m. sy_run s' = RunCall n \<and> sy_health s' = HCall m)"
    using sy_steps_log[of bo objs s] sy_invD(5) unfolding lock_inv_def by blast
  moreover have "holder s = None" by (rule unlocked_no_call(1)[OF sy_invD(5)[OF inv] assms(4)])
  ultimately show ?thesis
    using sy_invD(4,6,7)[OF inv] assms(5)
    by (simp add: sync_inv_def settled_def ct_inv_def entries_inv_def)
qed

section \<open>No deadlock\<close>

fun run_weight :: "run_pc \<Rightarrow> nat" where
  "run_weight RunLock = 25"
| "run_weight (RunCall _) = 1"
| "run_weight (RunReturned _) = 0"

fun health_weight :: "health_pc \<Rightarrow> nat" where
  "health_weight HReceive = 1"
| "health_weight (HLock _) = 25"
| "health_weight (HCall _) = 2"
| "health_weight HReturned = 0"

fun assign_weight :: "assign_pc \<Rightarrow> nat" where
  "assign_weight AStart = 2"
| "assign_weight (AReceive _) = 1"
| "assign_weight (ALock _ _) = 2"
| "assign_weight AReturned = 0"

fun buffered :: "(nat \<times> nat) option \<Rightarrow> assignment watcher_mux \<Rightarrow> nat" where
  "buffered None wm = 0"
| "buffered (Some h) wm = length (w_ch (wm_objs wm ! snd h))"

definition sy_weight :: "'k system \<Rightarrow> nat" where
  "sy_weight s =
     3 * el_weight (sy_el s) + 2 * buffered (watching (sy_assign s)) (el_mux (sy_el s)) + 25 * length (sy_healthCh s) +
     run_weight (sy_run s) + health_weight (sy_health s) + assign_weight (sy_assign s)"

lemma el_weight_mux [simp]: "el_weight (e\<lparr>el_mux := wm\<rparr>) = el_weight e"
  by (simp add: el_weight_def)

lemma enter_weight:
  assumes "enter bo opn s = Some (Inr (call, s1))"
  shows "el_weight (sy_el s1) = el_weight (sy_el s) + (if call = None then 0 else 6)"
  using assms by (cases rule: enter_cases) (simp_all add: el_weight_def)

lemma sy_turn_weight:
  assumes inv: "sy_inv bo objs c0 s" and turn: "sy_turn bo objs s s'"
  shows "sy_weight s' < sy_weight s"
proof -
  note el = sy_invD(1)[OF inv]
  from turn show ?thesis
  proof (cases rule: sy_turn_cases)
    case (manager ord e)
    have "pools_inv (sy_el s)" using el by (simp add: el_inv_def)
    from el_turn_weight[OF this manager(2)] have "el_weight e < el_weight (sy_el s)" .
    moreover have "buffered h (el_mux e) \<le> Suc (buffered h (el_mux (sy_el s)))" for h
      using el_turn_mux[OF el manager(1,2)] by (cases h) simp_all
    note this[of "watching (sy_assign s)"]
    ultimately show ?thesis using manager(3) by (simp add: sy_weight_def)
  next
    case (run_enter ord call s1)
    then show ?thesis using enter_weight[OF run_enter(3)] enter_frame[OF run_enter(3)]
      by (simp add: sy_weight_def split: option.splits)
  next
    case (health_enter entry ord call s1)
    then show ?thesis using enter_weight[OF health_enter(3)] enter_frame[OF health_enter(3)]
      by (simp add: sy_weight_def split: option.splits)
  next
    case (assign_enter h a s1)
    then show ?thesis using enter_weight[OF assign_enter(2)] enter_frame[OF assign_enter(2)]
      by (simp add: sy_weight_def)
  next
    case (watch h wm)
    then show ?thesis by (auto simp: sy_weight_def Watch_def Let_def nth_append)
  next
    case (assigned h a rest)
    then have "snd h < length (wm_objs (el_mux (sy_el s)))" using sy_invD(3)[OF inv] by (simp add: assign_inv_def)
    then show ?thesis using assigned by (simp add: sy_weight_def)
  qed (simp_all add: sy_weight_def)
qed

text \<open>Nobody has asked the program to stop.\<close>

definition running :: "'k system \<Rightarrow> bool" where
  "running s \<longleftrightarrow> serving (sy_el s) \<and> \<not> sy_ctx s \<and> \<not> sy_healthClosed s"

text \<open>Everything that was reported has been handled and every goroutine waits for more.\<close>

definition idle :: "'k system \<Rightarrow> bool" where
  "idle s \<longleftrightarrow>
     (\<exists>er. sy_run s = RunReturned er) \<and> \<not> sy_locked s \<and> sy_health s = HReceive \<and> sy_healthCh s = [] \<and>
     (\<exists>h. sy_assign s = AReceive h \<and> w_ch (wm_objs (el_mux (sy_el s)) ! snd h) = []) \<and> all_served (sy_el s)"

lemma enter_free:
  assumes "ct_ready (sy_ct s)" and "\<not> sy_locked s" and "op_ok opn"
  obtains call s1 where "enter bo opn s = Some (Inr (call, s1))"
proof -
  obtain ev c where "ctl_event bo opn (sy_ct s) = Inr (ev, c)" using ctl_event_ready[OF assms(1,3)] by blast
  then show ?thesis using that assms(2) by (cases ev) (simp_all add: enter_def)
qed

lemma running_not_done: "sy_inv bo objs c0 s \<Longrightarrow> running s \<Longrightarrow> \<not> el_done (sy_el s)"
  using sy_invD(1)[of bo objs c0 s] by (auto simp: running_def serving_def el_inv_def lc_inv_def)

lemma running_turn:
  assumes inv: "sy_inv bo objs c0 s" and run: "running s" "\<not> crashed (sy_el s)" and turn: "sy_turn bo objs s s'"
  shows "running s' \<and> \<not> crashed (sy_el s')"
proof -
  have lc: "lc_inv (sy_el s)" using sy_invD(1)[OF inv] by (simp add: el_inv_def)
  have entered: "running s1 \<and> \<not> crashed (sy_el s1)" if "enter bo opn s = Some (Inr (call, s1))" for opn call s1
    using that run by (cases rule: enter_cases) (simp_all add: running_def serving_def crashed_def)
  from turn show ?thesis
  proof (cases rule: sy_turn_cases)
    case (manager ord e)
    have "\<not> el_eventClosed (sy_el s)" using lc run(1) by (auto simp: running_def serving_def lc_inv_def)
    then show ?thesis
      using manager run serving_turn[OF lc _ manager(2)] el_turn_quiet(3)[OF manager(2)] by (simp add: running_def)
  next
    case (run_enter ord call s1)
    then show ?thesis using entered[OF run_enter(3)] by (simp add: running_def)
  next
    case (health_enter entry ord call s1)
    then show ?thesis using entered[OF health_enter(3)] by (simp add: running_def)
  next
    case (assign_enter h a s1)
    then show ?thesis using entered[OF assign_enter(2)] by (simp add: running_def)
  qed (use run in \<open>simp_all add: running_def serving_def crashed_def\<close>)
qed

lemma stuck_unlocked:
  assumes inv: "sy_inv bo objs c0 s" and live: "\<not> crashed (sy_el s)"
    and returned: "\<forall>i < length (el_calls (sy_el s)). \<exists>r. el_calls (sy_el s) ! i = CallReturned r"
    and stuck: "\<nexists>s'. sy_turn bo objs s s'"
  shows "\<not> sy_locked s"
proof
  assume "sy_locked s"
  then obtain n where n: "holder s = Some n" using lock_invD(1)[OF sy_invD(5)[OF inv]] by blast
  then obtain er where er: "el_calls (sy_el s) ! n = CallReturned er"
    using returned lock_invD(3)[OF sy_invD(5)[OF inv]] by blast
  have "sy_run s = RunCall n \<or> sy_health s = HCall n"
    using n by (cases "sy_run s"; cases "sy_health s") simp_all
  then show False
  proof
    assume "sy_run s = RunCall n"
    then have "\<exists>s'. run_turn bo rev s = Some (Inr s')" using er by (simp add: run_turn_def leave_def)
    then show False using stuck sy_turn.run[OF live map_order_rev] by blast
  next
    assume "sy_health s = HCall n"
    then have "\<exists>s'. healthLoop_turn bo rev False s = Some (Inr s')" using er by (simp add: healthLoop_turn_def leave_def)
    then show False using stuck sy_turn.health[OF live map_order_rev] by blast
  qed
qed

lemma run_moves_on:
  assumes "ct_ready (sy_ct s)" and "\<not> sy_locked s" and "sy_run s = RunLock"
  shows "\<exists>s'. run_turn bo rev s = Some (Inr s')"
proof -
  obtain call s1 where "enter bo (OpInitial rev) s = Some (Inr (call, s1))"
    by (rule enter_free[OF assms(1,2), of "OpInitial rev" bo]) (simp_all add: map_order_rev)
  then show ?thesis using assms(3) by (simp add: run_turn_def)
qed

lemma health_moves_on:
  assumes "ct_ready (sy_ct s)" and "\<not> sy_locked s" and "sy_health s = HLock entry \<or> sy_health s = HReceive \<and> sy_healthCh s \<noteq> []"
  shows "\<exists>s'. healthLoop_turn bo rev False s = Some (Inr s')"
  using assms(3)
proof
  assume lock: "sy_health s = HLock entry"
  obtain call s1 where "enter bo (OpHealth rev entry) s = Some (Inr (call, s1))"
    by (rule enter_free[OF assms(1,2), of "OpHealth rev entry" bo]) (simp_all add: map_order_rev)
  then show ?thesis using lock by (simp add: healthLoop_turn_def)
next
  assume "sy_health s = HReceive \<and> sy_healthCh s \<noteq> []"
  then show ?thesis by (cases "sy_healthCh s") (auto simp: healthLoop_turn_def)
qed

lemma assign_moves_on:
  assumes "ct_ready (sy_ct s)" and "\<not> sy_locked s"
    and "sy_assign s = AStart \<or> sy_assign s = ALock h a \<or> sy_assign s = AReceive h \<and> w_ch (wm_objs (el_mux (sy_el s)) ! snd h) \<noteq> []"
  shows "\<exists>s'. assignmentLoop_turn bo False s = Some (Inr s')"
  using assms(3)
proof (elim disjE)
  assume lock: "sy_assign s = ALock h a"
  obtain call s1 where "enter bo (OpAssign a) s = Some (Inr (call, s1))"
    by (rule enter_free[OF assms(1,2), of "OpAssign a" bo]) simp_all
  then show ?thesis using lock by (simp add: assignmentLoop_turn_def)
next
  assume "sy_assign s = AReceive h \<and> w_ch (wm_objs (el_mux (sy_el s)) ! snd h) \<noteq> []"
  then show ?thesis
    by (cases "w_ch (wm_objs (el_mux (sy_el s)) ! snd h)") (auto simp: assignmentLoop_turn_def Let_def)
qed (simp add: assignmentLoop_turn_def split: prod.splits)

lemma running_stuck:
  assumes inv: "sy_inv bo objs c0 s" and run: "running s" "\<not> crashed (sy_el s)"
    and stuck: "\<nexists>s'. sy_turn bo objs s s'"
  shows "idle s"
proof -
  have ready: "ct_ready (sy_ct s)" using sy_invD(6)[OF inv] by (simp add: ct_inv_def)
  have "\<nexists>e. el_turn objs loop_dispatches rev (sy_el s) e" using stuck sy_turn.manager[OF map_order_rev] by blast
  from serving_stuck[OF loop_dispatches_safe sy_invD(1)[OF inv] run(2) _ this]
  have served: "all_served (sy_el s)" using run(1) by (simp add: running_def)
  have free: "\<not> sy_locked s" by (rule stuck_unlocked[OF inv run(2) _ stuck]) (use served in \<open>auto simp: all_served_def\<close>)
  note quiet = unlocked_no_call[OF sy_invD(5)[OF inv] free]
  have "sy_run s \<noteq> RunLock"
    using stuck run_moves_on[OF ready free] sy_turn.run[OF run(2) map_order_rev] by blast
  then obtain er where "sy_run s = RunReturned er" using quiet(2) by (cases "sy_run s") auto
  moreover have "sy_health s = HReceive \<and> sy_healthCh s = []"
  proof -
    have "\<not> (sy_health s = HLock entry \<or> sy_health s = HReceive \<and> sy_healthCh s \<noteq> [])" for entry
      using stuck health_moves_on[OF ready free] sy_turn.health[OF run(2) map_order_rev] by blast
    moreover have "sy_health s \<noteq> HReturned" using sy_invD(4)[OF inv] run(1) by (auto simp: entries_inv_def running_def)
    ultimately show ?thesis using quiet(3) by (cases "sy_health s") auto
  qed
  moreover have "\<exists>h. sy_assign s = AReceive h \<and> w_ch (wm_objs (el_mux (sy_el s)) ! snd h) = []"
  proof -
    have "\<not> (sy_assign s = AStart \<or> sy_assign s = ALock h a \<or>
        sy_assign s = AReceive h \<and> w_ch (wm_objs (el_mux (sy_el s)) ! snd h) \<noteq> [])" for h a
      using stuck assign_moves_on[OF ready free] sy_turn.assign[OF run(2)] by blast
    moreover have "\<not> el_done (sy_el s)" by (rule running_not_done[OF inv run(1)])
    then have "sy_assign s \<noteq> AReturned" using sy_invD(3)[OF inv] run(1) by (auto simp: assign_inv_def running_def)
    ultimately show ?thesis by (cases "sy_assign s") auto
  qed
  ultimately show ?thesis using free served by (simp add: idle_def)
qed

interpretation running_end: winding_down
  "\<lambda>s. sy_inv bo objs c0 s \<and> mgr_serving (ct_bpfMgr c0)" "\<lambda>s. running s \<and> \<not> crashed (sy_el s)"
  idle "sy_turn bo objs" sy_weight
  for bo objs c0
  by unfold_locales (use sy_inv_turn running_turn sy_turn_weight running_stuck in blast)+

lemma sy_crash_closed:
  assumes "(sy_step bo objs)\<^sup>*\<^sup>* (control_loops c0) s"
  shows "crashed (sy_el s) \<longrightarrow> el_eventClosed (sy_el s)"
  using assms
proof (induction rule: rtranclp_induct)
  case (step s s')
  have entered: "crashed (sy_el s1) = crashed (sy_el s) \<and> el_eventClosed (sy_el s1) = el_eventClosed (sy_el s)"
    if "enter bo opn s = Some (Inr (call, s1))" for opn call s1
    using that by (cases rule: enter_cases) (simp_all add: crashed_def)
  from step(2,3) show ?case
  proof cases
    case turn
    then show ?thesis
    proof (cases rule: sy_turn_cases)
      case (manager ord e)
      then show ?thesis using step(3) el_turn_frame[OF manager(2)] el_turn_quiet(3)[OF manager(2)] by auto
    next
      case (run_enter ord call s1)
      then show ?thesis using entered[OF run_enter(3)] step(3) by simp
    next
      case (health_enter entry ord call s1)
      then show ?thesis using entered[OF health_enter(3)] step(3) by simp
    next
      case (assign_enter h a s1)
      then show ?thesis using entered[OF assign_enter(2)] step(3) by simp
    qed (use step(3) in \<open>simp_all add: crashed_def\<close>)
  next
    case (close er e)
    then show ?thesis using step(3) Close_begin_frame[OF close(3)] by (simp add: crashed_def)
  qed (use step(3) in \<open>simp_all add: crashed_def\<close>)
qed (simp add: crashed_def control_loops_def eventLoop_def)

lemma running_not_crashed:
  assumes "sy_inv bo objs c0 s" and "(sy_step bo objs)\<^sup>*\<^sup>* (control_loops c0) s" and "running s"
  shows "\<not> crashed (sy_el s)"
  using sy_crash_closed[OF assms(2)] sy_invD(1)[OF assms(1)] assms(3)
  by (auto simp: running_def serving_def el_inv_def lc_inv_def)

section \<open>The kernel follows the health of the backends\<close>

definition kernel_accepts :: "'k bpf_objects \<Rightarrow> bool" where
  "kernel_accepts objs \<longleftrightarrow> (\<forall>x k. fst (setObjects objs x k) = None)"

text \<open>
  The XDP program sees the available backends, in their order, and a lookup table of the
  configured size and sessions that name no other; with no backend available the kernel keeps what
  it had.
\<close>

definition shows_available :: "byte_order \<Rightarrow> ('k \<Rightarrow> bool) \<Rightarrow> (bool \<Rightarrow> 'k \<Rightarrow> event_objects) \<Rightarrow> 'k controller \<Rightarrow> bool" where
  "shows_available bo ptr side c \<longleftrightarrow>
     (filterAvailable (ct_backends c) \<noteq> [] \<longrightarrow>
        (let K = active ptr side (mgr_kernel (ct_bpfMgr c))
         in transformBackendList bo (filterAvailable (ct_backends c)) = Inr (eo_BackendList K) \<and>
            length (eo_LookupTable K) = ct_lookupTableSize c \<and>
            (\<forall>x \<in> set (eo_LookupTable K). x < length (eo_BackendList K)) \<and>
            (\<forall>x j. eo_SessionMap K x = Some j \<longrightarrow> j < length (eo_BackendList K))))"

definition in_use :: "'k controller \<Rightarrow> bool" where
  "in_use c \<longleftrightarrow> ct_ready c \<and> mgr_serving (ct_bpfMgr c)"

lemma in_use_kernel:
  "in_use c \<Longrightarrow> in_use (c\<lparr>ct_sessionMap := sm, ct_bpfMgr := (ct_bpfMgr c)\<lparr>mgr_kernel := k\<rparr>\<rparr>)"
  by (auto simp: in_use_def ct_ready_def mgr_serving_def mgr_wf_def)

lemma recompute_shows:
  assumes "double_buffered ptr side objs" and "kernel_accepts objs" and use: "in_use c" and ord: "is_map_order ord"
  shows "\<exists>e c'. recomputeAndApply bo objs ord c = Some (Inr (e, c')) \<and> in_use c' \<and> shows_available bo ptr side c' \<and>
           ct_backends c' = ct_backends c \<and> ct_lookupTableSize c' = ct_lookupTableSize c"
proof (cases "filterAvailable (ct_backends c) = []")
  case True
  then show ?thesis using use by (simp add: recomputeAndApply_def shows_available_def)
next
  case False
  have ready: "ct_ready c" using use by (simp add: in_use_def)
  let ?av = "filterAvailable (ct_backends c)"
  let ?re = "remapSessions (ct_backends c) ?av (ct_sessionMap c)"
  obtain e lt specs k where r: "recomputeAndApply bo objs ord c =
      Some (Inr (e, c\<lparr>ct_sessionMap := ?re, ct_bpfMgr := (ct_bpfMgr c)\<lparr>mgr_kernel := k\<rparr>\<rparr>))"
    and set: "SetObjects bo objs (Some ?av) (Some lt) (Some ?re) (ct_bpfMgr c) = Some (Inr (e, (ct_bpfMgr c)\<lparr>mgr_kernel := k\<rparr>))"
    and specs: "transformBackendList bo ?av = Inr specs"
    using recompute_runs[OF ready ord False, of bo objs] by blast
  obtain k' where k': "setObjects objs \<lparr>eo_BackendList = specs, eo_LookupTable = lt, eo_SessionMap = ?re\<rparr>
      (mgr_kernel (ct_bpfMgr c)) = (None, k')"
    using assms(2) unfolding kernel_accepts_def by (metis prod.collapse)
  have "e = None" using SetObjects_event[OF _ _ _ specs k'] set ready by (simp add: ct_ready_def)
  note K = recompute_kernel[OF assms(1) ready ord False r[unfolded this]]
  then have "shows_available bo ptr side (c\<lparr>ct_sessionMap := ?re, ct_bpfMgr := (ct_bpfMgr c)\<lparr>mgr_kernel := k\<rparr>\<rparr>)"
    by (simp add: shows_available_def Let_def)
  then show ?thesis using r in_use_kernel[OF use] by simp
qed

lemma ctl_exec_shows:
  assumes "double_buffered ptr side objs" and "kernel_accepts objs" and use: "in_use c" and opn: "op_ok opn"
  shows "\<exists>c'. ctl_exec bo objs opn c = Some (Inr c') \<and> in_use c' \<and> ct_backends c' = op_backends opn (ct_backends c) \<and>
           ct_lookupTableSize c' = ct_lookupTableSize c \<and>
           ((\<exists>ord. opn = OpInitial ord) \<or> shows_available bo ptr side c \<longrightarrow> shows_available bo ptr side c')"
proof (cases opn)
  case (OpInitial ord)
  then show ?thesis using recompute_shows[OF assms(1-3), of ord bo] opn by (auto simp: ctl_exec_def)
next
  case (OpHealth ord entry)
  have ready: "ct_ready c" using use by (simp add: in_use_def)
  obtain changed c1 where n: "note_health entry c = (changed, c1)" by fastforce
  note c1 = note_health_status[OF ready n]
  show ?thesis
  proof (cases changed)
    case True
    have "in_use c1" using c1(1,2) use by (simp add: in_use_def)
    then obtain e c' where c': "recomputeAndApply bo objs ord c1 = Some (Inr (e, c'))" "in_use c'" "shows_available bo ptr side c'"
      "ct_backends c' = ct_backends c1" "ct_lookupTableSize c' = ct_lookupTableSize c1"
      using recompute_shows[OF assms(1,2), of c1 ord bo] opn OpHealth by auto
    have "ctl_exec bo objs opn c = Some (Inr c')"
      using c'(1) n True OpHealth by (simp add: ctl_exec_submit ctl_event_def recompute_event_submit[symmetric])
    then show ?thesis using c'(2-5) c1(1) OpHealth by simp
  next
    case False
    then have "ctl_exec bo objs opn c = Some (Inr c)"
      using n c1(3) OpHealth by (simp add: ctl_exec_submit ctl_event_def ctl_submit_def)
    moreover have "ct_backends c = op_backends opn (ct_backends c)"
      using arg_cong[OF c1(1), of ct_backends] c1(3)[OF False] OpHealth by simp
    ultimately show ?thesis using use OpHealth by auto
  qed
next
  case (OpAssign a)
  then show ?thesis using use
    by (auto simp: ctl_exec_def ct_on_event_def ct_on_assignment_def in_use_def ct_ready_def shows_available_def
        split: option.splits)
qed

lemma ctl_log_shows:
  assumes "double_buffered ptr side objs" and "kernel_accepts objs" and "in_use c0" and "\<forall>opn \<in> set ops. op_ok opn"
  shows "\<exists>c. foldD (ctl_exec bo objs) ops c0 = Some (Inr c) \<and> in_use c \<and>
           ct_backends c = fold set_status (health_entries ops) (ct_backends c0) \<and>
           ct_lookupTableSize c = ct_lookupTableSize c0 \<and>
           ((\<exists>ord. OpInitial ord \<in> set ops) \<longrightarrow> shows_available bo ptr side c)"
  using assms(4)
proof (induction ops rule: rev_induct)
  case Nil
  then show ?case using assms(3) by simp
next
  case (snoc opn ops)
  then obtain c where c: "foldD (ctl_exec bo objs) ops c0 = Some (Inr c)" "in_use c"
    "ct_backends c = fold set_status (health_entries ops) (ct_backends c0)" "ct_lookupTableSize c = ct_lookupTableSize c0"
    "(\<exists>ord. OpInitial ord \<in> set ops) \<longrightarrow> shows_available bo ptr side c"
    by auto
  obtain c' where c': "ctl_exec bo objs opn c = Some (Inr c')" "in_use c'" "ct_backends c' = op_backends opn (ct_backends c)"
    "ct_lookupTableSize c' = ct_lookupTableSize c"
    "(\<exists>ord. opn = OpInitial ord) \<or> shows_available bo ptr side c \<longrightarrow> shows_available bo ptr side c'"
    using ctl_exec_shows[OF assms(1,2) c(2), of opn bo] snoc.prems by auto
  have "ct_backends c' = fold set_status (health_entries (ops @ [opn])) (ct_backends c0)"
    using c(3) c'(3) by (cases opn) (simp_all add: health_entries_append)
  then show ?case using foldD_snoc[OF c(1)] c(4,5) c'(1,2,4,5) by auto
qed

lemma idle_follows:
  assumes "double_buffered ptr side objs" and "kernel_accepts objs" and "in_use c0" and inv: "sy_inv bo objs c0 s"
    and up: "\<not> el_done (sy_el s)" and idle: "idle s"
  shows "ct_backends (sy_ct s) = fold set_status (sy_entries s) (ct_backends c0) \<and>
      shows_available bo ptr side (settled objs s) \<and> ct_lookupTableSize (sy_ct s) = ct_lookupTableSize c0"
proof -
  obtain ord where "OpInitial ord \<in> set (sy_log s)" and "sy_entries s = health_entries (sy_log s)"
    using idle sy_invD(4)[OF inv] by (auto simp: idle_def entries_inv_def)
  moreover have "foldD (ctl_exec bo objs) (sy_log s) c0 = Some (Inr (settled objs s))" "\<forall>opn \<in> set (sy_log s). op_ok opn"
    using sy_invD(6,7)[OF inv] up by (simp_all add: sync_inv_def ct_inv_def)
  ultimately show ?thesis
    using ctl_log_shows[OF assms(1-3), of "sy_log s" bo] by (auto simp: settled_def)
qed

text \<open>
  C2. While nobody stops the program, the controller and the manager never wait for each other in a
  circle: from every reachable state their goroutines take at most \<open>sy_weight\<close> turns until the
  kernel or the health monitor reports something new. When none of them can move, \<open>Run\<close> has
  returned, everything reported has been handled, and the kernel follows the health of the backends,
  if it accepts what it is given: each backend has the state of the last entry the monitor sent
  about it, and unless no backend is available the XDP program sees exactly the available ones, in
  their order, with a lookup table of the configured size and sessions that name no other.
\<close>

theorem kernel_follows_health:
  assumes "ct_ready c0" and "mgr_serving (ct_bpfMgr c0)" and "double_buffered ptr side objs" and "kernel_accepts objs"
    and "(sy_step bo objs)\<^sup>*\<^sup>* (control_loops c0) s" and "running s" and "(sy_turn bo objs ^^ k) s s'"
  shows "k \<le> sy_weight s \<and>
         ((\<nexists>s''. sy_turn bo objs s' s'') \<longrightarrow>
            idle s' \<and> ct_backends (sy_ct s') = fold set_status (sy_entries s') (ct_backends c0) \<and>
            (filterAvailable (ct_backends (sy_ct s')) \<noteq> [] \<longrightarrow>
               (let K = active ptr side (el_kernel (sy_el s'))
                in transformBackendList bo (filterAvailable (ct_backends (sy_ct s'))) = Inr (eo_BackendList K) \<and>
                   length (eo_LookupTable K) = ct_lookupTableSize c0 \<and>
                   (\<forall>x \<in> set (eo_LookupTable K). x < length (eo_BackendList K)) \<and>
                   (\<forall>x j. eo_SessionMap K x = Some j \<longrightarrow> j < length (eo_BackendList K)))))"
proof -
  have inv: "sy_inv bo objs c0 s" by (rule sy_reachable_inv[OF assms(1,2,5)])
  have live: "running s \<and> \<not> crashed (sy_el s)" using running_not_crashed[OF inv assms(5,6)] assms(6) by blast
  note run = running_end.winds_down[OF _ live assms(7), of c0]
  have inv': "sy_inv bo objs c0 s'" and "running s'" using run(2,3) inv assms(2) by blast+
  then have up: "\<not> el_done (sy_el s')" by (rule running_not_done)
  note follows = idle_follows[OF assms(3,4) _ inv' up]
  have "holder s' = None" if "idle s'" using that by (auto simp: idle_def)
  moreover have "(\<nexists>s''. sy_turn bo objs s' s'') \<Longrightarrow> idle s'" using run(4) inv assms(2) by blast
  ultimately show ?thesis
    using run(1) inv assms(1,2) follows by (auto simp: shows_available_def settled_def in_use_def)
qed

section \<open>Witnesses\<close>

lemma turns_steps: "(sy_turn bo objs)\<^sup>*\<^sup>* s s' \<Longrightarrow> (sy_step bo objs)\<^sup>*\<^sup>* s s'"
  by (metis mono_rtranclp sy_step.turn)

abbreviation example_loops :: "two_sides system" where
  "example_loops \<equiv> control_loops example_controller"

abbreviation loops_step :: "two_sides system \<Rightarrow> two_sides system \<Rightarrow> bool" where
  "loops_step \<equiv> sy_step LittleEndian two_copies"

abbreviation backend_2_down :: backend_status_entry where
  "backend_2_down \<equiv> \<lparr>entry_BackendId = be_Id backend_2, entry_State = StateUnavailable\<rparr>"

lemma two_copies_accept: "kernel_accepts two_copies"
  unfolding kernel_accepts_def using two_copies_accepts by (metis fst_conv)

lemma example_manager: "ct_bpfMgr example_controller = running_manager"
  by (simp add: example_controller_def)

lemmas example_loops_ok = example_ready running_manager_serving[folded example_manager]

lemma example_running: "running example_loops"
  by (simp add: running_def serving_def control_loops_def eventLoop_def example_manager NewDataStructureManager_def lc_new_def)

text \<open>A run with no report, and one with an entry about a backend.\<close>

lemma example_reaches:
  assumes "loops_step\<^sup>*\<^sup>* example_loops s" and "running s"
  obtains s' where "loops_step\<^sup>*\<^sup>* example_loops s'" "(sy_turn LittleEndian two_copies)\<^sup>*\<^sup>* s s'"
    "\<nexists>s''. sy_turn LittleEndian two_copies s' s''" "idle s'" "running s'"
proof -
  have inv: "sy_inv LittleEndian two_copies example_controller s" by (rule sy_reachable_inv[OF example_loops_ok assms(1)])
  have live: "running s \<and> \<not> crashed (sy_el s)" using running_not_crashed[OF inv assms] assms(2) by blast
  obtain s' where s': "(sy_turn LittleEndian two_copies)\<^sup>*\<^sup>* s s'" "\<nexists>s''. sy_turn LittleEndian two_copies s' s''" "idle s'"
    using running_end.reaches_stuck[OF _ live, of LittleEndian two_copies example_controller] inv example_loops_ok(2) by blast
  obtain k where "(sy_turn LittleEndian two_copies ^^ k) s s'" using s'(1) by (auto dest: rtranclp_imp_relpowp)
  from running_end.winds_down(3)[OF _ live this, of example_controller] have "running s'" using inv example_loops_ok(2) by blast
  moreover have "loops_step\<^sup>*\<^sup>* example_loops s'" using assms(1) turns_steps[OF s'(1)] by simp
  ultimately show ?thesis using that s' by blast
qed

theorem control_loops_refine_sequential_witness:
  "\<exists>s. loops_step\<^sup>*\<^sup>* example_loops s \<and> (\<exists>er. sy_run s = RunReturned er) \<and>
     foldD (ctl_exec LittleEndian two_copies) (sy_log s) example_controller =
       Some (Inr ((sy_ct s)\<lparr>ct_bpfMgr := running_manager\<lparr>mgr_kernel := el_kernel (sy_el s)\<rparr>\<rparr>))"
proof -
  obtain s where s: "loops_step\<^sup>*\<^sup>* example_loops s" "idle s" "running s"
    by (rule example_reaches[OF rtranclp.rtrancl_refl example_running])
  have inv: "sy_inv LittleEndian two_copies example_controller s" by (rule sy_reachable_inv[OF example_loops_ok s(1)])
  have "\<not> el_done (sy_el s)" by (rule running_not_done[OF inv s(3)])
  then show ?thesis
    using control_loops_refine_sequential[OF example_loops_ok s(1)] s(1,2) by (auto simp: idle_def example_manager)
qed

lemma example_set_status:
  "set_status backend_2_down [backend_1, backend_2, backend_3] = [backend_1, backend_2\<lparr>be_Status := StateUnavailable\<rparr>, backend_3]"
  "filterAvailable [backend_1, backend_2\<lparr>be_Status := StateUnavailable\<rparr>, backend_3] = [backend_1, backend_3]"
  by (simp_all add: set_status_def filterAvailable_def example_backend_def available_def example_spec_def)

lemma sy_entries_turns: "(sy_turn bo objs)\<^sup>*\<^sup>* s s' \<Longrightarrow> sy_entries s' = sy_entries s"
proof (induction rule: rtranclp_induct)
  case (step s1 s2)
  from step(2,3) show ?case by (cases rule: sy_turn_cases) (auto dest: enter_frame(8))
qed simp

abbreviation example_entry :: "two_sides system" where
  "example_entry \<equiv> example_loops\<lparr>sy_healthCh := [backend_2_down], sy_entries := [backend_2_down]\<rparr>"

lemma example_entry_reach: "loops_step\<^sup>*\<^sup>* example_loops example_entry" and example_entry_running: "running example_entry"
proof -
  have "loops_step example_loops example_entry"
    using sy_step.entry[of example_loops LittleEndian two_copies backend_2_down]
    by (simp add: control_loops_def crashed_def eventLoop_def)
  then show "loops_step\<^sup>*\<^sup>* example_loops example_entry" by blast
  show "running example_entry" using example_running by (simp add: running_def)
qed

lemma example_entry_reaches:
  obtains s where "loops_step\<^sup>*\<^sup>* example_loops s" "\<nexists>s'. sy_turn LittleEndian two_copies s s'" "running s"
    "sy_entries s = [backend_2_down]" "(sy_turn LittleEndian two_copies)\<^sup>*\<^sup>* example_entry s"
proof -
  obtain s where s: "loops_step\<^sup>*\<^sup>* example_loops s" "(sy_turn LittleEndian two_copies)\<^sup>*\<^sup>* example_entry s"
    "\<nexists>s'. sy_turn LittleEndian two_copies s s'" "running s"
    by (rule example_reaches[OF example_entry_reach example_entry_running])
  have "sy_entries s = [backend_2_down]" using sy_entries_turns[OF s(2)] by simp
  then show ?thesis using that s by blast
qed

theorem kernel_follows_health_witness:
  "\<exists>s s' k. loops_step\<^sup>*\<^sup>* example_loops s \<and> sy_healthCh s = [backend_2_down] \<and>
     (sy_turn LittleEndian two_copies ^^ k) s s' \<and> k \<le> sy_weight s \<and>
     transformBackendList LittleEndian [backend_1, backend_3] = Inr (eo_BackendList (active fst side_of (el_kernel (sy_el s'))))"
proof -
  obtain s' where s': "\<nexists>s''. sy_turn LittleEndian two_copies s' s''" "sy_entries s' = [backend_2_down]"
    "(sy_turn LittleEndian two_copies)\<^sup>*\<^sup>* example_entry s'"
    by (rule example_entry_reaches)
  obtain k where k: "(sy_turn LittleEndian two_copies ^^ k) example_entry s'" using s'(3) by (auto dest: rtranclp_imp_relpowp)
  have bs: "fold set_status (sy_entries s') (ct_backends example_controller) =
      [backend_1, backend_2\<lparr>be_Status := StateUnavailable\<rparr>, backend_3]"
    by (simp add: s'(2) example_controller_def example_set_status(1))
  note follows = kernel_follows_health[OF example_loops_ok two_copies_buffered two_copies_accept example_entry_reach
      example_entry_running k, unfolded bs]
  then have "ct_backends (sy_ct s') = [backend_1, backend_2\<lparr>be_Status := StateUnavailable\<rparr>, backend_3]" using s'(1) by blast
  then have av: "filterAvailable (ct_backends (sy_ct s')) = [backend_1, backend_3]" by (simp only: example_set_status(2))
  have "k \<le> sy_weight example_entry" and "transformBackendList LittleEndian [backend_1, backend_3] =
      Inr (eo_BackendList (active fst side_of (el_kernel (sy_el s'))))"
    using follows s'(1) by (simp_all add: av Let_def)
  moreover have "sy_healthCh example_entry = [backend_2_down]" by simp
  ultimately show ?thesis using example_entry_reach k by blast
qed

end
