(* ===== verification/Control_Shutdown.thy ===== *)
theory Control_Shutdown
  imports Control_Progress
begin

text \<open>
  The end of the goroutines of \<open>internal/controller/controller.go\<close>. After the signal of
  \<open>cmd/udplb/main.go\<close> the context is cancelled and \<open>Controller.Close\<close> closes the manager; the two
  loops return and the manager comes to its end, unless one of them was offering an event.
\<close>

section \<open>The loops come to their end\<close>

text \<open>The context is cancelled and the manager has been told to stop.\<close>

definition shutting_down :: "'k system \<Rightarrow> bool" where
  "shutting_down s \<longleftrightarrow> sy_ctx s \<and> stopping (sy_el s)"

definition all_ended :: "'k system \<Rightarrow> bool" where
  "all_ended s \<longleftrightarrow>
     (\<exists>er. sy_run s = RunReturned er) \<and> sy_health s = HReturned \<and> sy_assign s = AReturned \<and> \<not> sy_locked s \<and>
     all_stopped (sy_el s)"

text \<open>Neither \<open>Run\<close> nor \<open>healthLoop\<close> can offer an event any more, and none is offered.\<close>

definition no_offer :: "'k system \<Rightarrow> bool" where
  "no_offer s \<longleftrightarrow>
     (\<exists>er. sy_run s = RunReturned er) \<and> sy_health s = HReturned \<and> CallSending \<notin> set (el_calls (sy_el s)) \<and>
     \<not> crashed (sy_el s)"

lemma shutting_down_turn:
  assumes inv: "sy_inv bo objs c0 s" and down: "shutting_down s" and turn: "sy_turn bo objs s s'"
  shows "shutting_down s'"
proof -
  have lc: "lc_inv (sy_el s)" using sy_invD(1)[OF inv] by (simp add: el_inv_def)
  have entered: "shutting_down s1" if "enter bo opn s = Some (Inr (call, s1))" for opn call s1
    using that down by (cases rule: enter_cases) (simp_all add: shutting_down_def stopping_def)
  from turn show ?thesis
  proof (cases rule: sy_turn_cases)
    case (manager ord e)
    then show ?thesis using down stopping_turn[OF lc _ manager(2)] by (simp add: shutting_down_def)
  next
    case (run_enter ord call s1)
    then show ?thesis using entered[OF run_enter(3)] by (simp add: shutting_down_def)
  next
    case (health_enter entry ord call s1)
    then show ?thesis using entered[OF health_enter(3)] by (simp add: shutting_down_def)
  next
    case (assign_enter h a s1)
    then show ?thesis using entered[OF assign_enter(2)] by (simp add: shutting_down_def)
  qed (use down in \<open>simp_all add: shutting_down_def stopping_def\<close>)
qed

lemma no_offer_turn:
  assumes "no_offer s" and turn: "sy_turn bo objs s s'"
  shows "no_offer s'"
  using turn
proof (cases rule: sy_turn_cases)
  case (manager ord e)
  then show ?thesis using assms(1) el_turn_quiet(2,3)[OF manager(2)] by (simp add: no_offer_def)
next
  case (assign_enter h a s1)
  from assign_enter(2) have "sy_el s1 = sy_el s" by (cases rule: enter_cases) simp_all
  then show ?thesis using assms(1) assign_enter(3) enter_frame[OF assign_enter(2)] by (simp add: no_offer_def)
qed (use assms(1) in \<open>auto simp: no_offer_def crashed_def\<close>)

lemma cancel_cancellable:
  assumes "snd h < length (wm_objs wm)" and "cancellable (wm_objs wm ! snd h)"
  shows "\<exists>wm'. cancel h wm = Inr wm'"
  using assms by (auto simp: cancel_def slice_get_def close_channel_once_def cancellable_def)

lemma down_stuck:
  assumes inv: "sy_inv bo objs c0 s" and down: "shutting_down s" and live: "\<not> crashed (sy_el s)"
    and stuck: "\<nexists>s'. sy_turn bo objs s s'"
  shows "all_ended s"
proof -
  have ready: "ct_ready (sy_ct s)" using sy_invD(6)[OF inv] by (simp add: ct_inv_def)
  have ctx: "sy_ctx s" using down by (simp add: shutting_down_def)
  have "\<nexists>e. el_turn objs loop_dispatches rev (sy_el s) e" using stuck sy_turn.manager[OF map_order_rev] by blast
  from stopping_stuck[OF map_order_rev loop_dispatches_safe sy_invD(1)[OF inv] live _ this]
  have stopped: "all_stopped (sy_el s)" using down by (simp add: shutting_down_def)
  have free: "\<not> sy_locked s" by (rule stuck_unlocked[OF inv live _ stuck]) (use stopped in \<open>simp add: all_stopped_def\<close>)
  note quiet = unlocked_no_call[OF sy_invD(5)[OF inv] free]
  have "sy_run s \<noteq> RunLock" using stuck run_moves_on[OF ready free] sy_turn.run[OF live map_order_rev] by blast
  then obtain er where "sy_run s = RunReturned er" using quiet(2) by (cases "sy_run s") auto
  moreover have "sy_health s = HReturned"
  proof -
    have "sy_health s \<noteq> HLock entry" for entry
      using stuck health_moves_on[OF ready free] sy_turn.health[OF live map_order_rev] by blast
    moreover have "sy_health s = HReceive \<Longrightarrow> \<exists>s'. healthLoop_turn bo rev True s = Some (Inr s')"
      using ctx by (simp add: healthLoop_turn_def)
    ultimately show ?thesis
      using quiet(3) stuck sy_turn.health[OF live map_order_rev] by (cases "sy_health s") blast+
  qed
  moreover have "sy_assign s = AReturned"
  proof -
    have "sy_assign s \<noteq> AStart" "sy_assign s \<noteq> ALock h a" for h a
      using stuck assign_moves_on[OF ready free] sy_turn.assign[OF live] by blast+
    moreover have "\<exists>s'. assignmentLoop_turn bo True s = Some (Inr s')" if "sy_assign s = AReceive h" for h
    proof -
      have "\<exists>wm. cancel h (el_mux (sy_el s)) = Inr wm"
        by (rule cancel_cancellable) (use sy_invD(3)[OF inv] that in \<open>simp_all add: assign_inv_def\<close>)
      then show ?thesis using that ctx by (auto simp: assignmentLoop_turn_def assignmentLoop_return_def Let_def)
    qed
    ultimately show ?thesis using stuck sy_turn.assign[OF live] by (cases "sy_assign s") blast+
  qed
  ultimately show ?thesis using free stopped by (simp add: all_ended_def)
qed

interpretation down_end: winding_down
  "\<lambda>s. sy_inv bo objs c0 s \<and> mgr_serving (ct_bpfMgr c0) \<and> (calm \<longrightarrow> no_offer s)" shutting_down
  "\<lambda>s. crashed (sy_el s) \<or> all_ended s" "sy_turn bo objs" sy_weight
  for bo objs c0 calm
proof
  fix s s' :: "'a system"
  assume inv: "sy_inv bo objs c0 s \<and> mgr_serving (ct_bpfMgr c0) \<and> (calm \<longrightarrow> no_offer s)"
  show "sy_inv bo objs c0 s' \<and> mgr_serving (ct_bpfMgr c0) \<and> (calm \<longrightarrow> no_offer s')" if turn: "sy_turn bo objs s s'"
    using inv sy_inv_turn[of bo objs c0 s s'] no_offer_turn[OF _ turn] turn by blast
  show "shutting_down s \<Longrightarrow> sy_turn bo objs s s' \<Longrightarrow> shutting_down s'" using inv shutting_down_turn by blast
  show "sy_turn bo objs s s' \<Longrightarrow> sy_weight s' < sy_weight s" using inv sy_turn_weight by blast
  show "shutting_down s \<Longrightarrow> \<nexists>s'. sy_turn bo objs s s' \<Longrightarrow> crashed (sy_el s) \<or> all_ended s"
    using inv down_stuck by blast
qed


section \<open>A shutdown during a recomputation\<close>

text \<open>An entry that changes the state of a backend makes \<open>healthLoop\<close> offer an event, if one is left.\<close>

lemma health_offers:
  assumes ready: "ct_ready c" and change: "set_status entry (ct_backends c) \<noteq> ct_backends c"
    and left: "filterAvailable (set_status entry (ct_backends c)) \<noteq> []" and ord: "is_map_order ord"
  obtains e c' where "ctl_event bo (OpHealth ord entry) c = Inr (Some e, c')"
proof -
  obtain changed c1 where n: "note_health entry c = (changed, c1)" by fastforce
  note c1 = note_health_status[OF ready n]
  have bs: "ct_backends c1 = set_status entry (ct_backends c)" using c1(1) by simp
  then have ch: changed using change c1(3) by fastforce
  obtain ev c2 where ev: "recompute_event bo ord c1 = Inr (ev, c2)" using recompute_event_ready[OF c1(2) ord] by blast
  then have "ev \<noteq> None" using left by (auto simp: recompute_event_def bs Let_def split: sum.splits if_splits)
  then show ?thesis using that n ch ev by (auto simp: ctl_event_def)
qed

lemma close_panics_offer:
  assumes lc: "lc_inv e" "serving e" and live: "\<not> crashed e" and call: "n < length (el_calls e)" "el_calls e ! n = CallSending"
  obtains e1 e2 e3 where "Close_begin e = Some (Inr (None, e1))" "\<not> crashed e1" "el_turn objs dispatch ord e1 e2"
    "el_turn objs dispatch ord e2 e3" "crashed e3"
proof -
  have open_e: "\<not> el_closing e" "lc_running (el_lc e)" "\<not> lc_closed (el_lc e)" "\<not> el_terminate e" "\<not> el_eventClosed e"
    using lc by (auto simp: lc_inv_def serving_def)
  define e1 where "e1 = e\<lparr>el_closing := True, el_lc := (el_lc e)\<lparr>lc_terminate := True\<rparr>,
      el_events := (el_events e)\<lparr>wp_terminate := True\<rparr>, el_watch := (el_watch e)\<lparr>wp_terminate := True\<rparr>\<rparr>"
  define e2 where "e2 = e1\<lparr>el_closing := False, el_eventClosed := True,
      el_lc := (el_lc e1)\<lparr>lc_running := False, lc_closed := True\<rparr>\<rparr>"
  define e3 where "e3 = e2\<lparr>el_calls := (el_calls e2)[n := CallPanicked]\<rparr>"
  have live1: "\<not> crashed e1" and live2: "\<not> crashed e2" using live by (simp_all add: e1_def e2_def crashed_def)
  have "Close_begin e = Some (Inr (None, e1))" using open_e by (simp add: Close_begin_def e1_def)
  moreover have "el_turn objs dispatch ord e1 e2"
    by (rule el_turn.closer[OF live1]) (use open_e in \<open>simp add: Close_end_def e1_def e2_def\<close>)
  moreover have "el_turn objs dispatch ord e2 e3"
    by (rule el_turn.caller_panics[OF live2, of n]) (use call in \<open>simp add: send_closed_def e1_def e2_def e3_def\<close>)
  moreover have "crashed e3" using call by (simp add: crashed_def e3_def e2_def e1_def set_update_memI)
  ultimately show ?thesis using that live1 by blast
qed

text \<open>
  Closing the controller while \<open>healthLoop\<close> offers its event to the manager ends the process with a
  panic: \<open>Close\<close> of the manager closes \<open>eventCh\<close> under the sender. From every idle state an entry
  that changes the state of a backend, followed by the shutdown, can have this effect.
\<close>

theorem shutdown_during_recompute_panics:
  assumes "ct_ready c0" and "mgr_serving (ct_bpfMgr c0)" and "(sy_step bo objs)\<^sup>*\<^sup>* (control_loops c0) s"
    and "running s" and "idle s"
    and "set_status entry (ct_backends (sy_ct s)) \<noteq> ct_backends (sy_ct s)"
    and "filterAvailable (set_status entry (ct_backends (sy_ct s))) \<noteq> []"
  shows "\<exists>s'. (sy_step bo objs)\<^sup>*\<^sup>* s s' \<and> sy_run s' = sy_run s \<and> crashed (sy_el s')"
proof -
  have inv: "sy_inv bo objs c0 s" by (rule sy_reachable_inv[OF assms(1-3)])
  have ready: "ct_ready (sy_ct s)" using sy_invD(6)[OF inv] by (simp add: ct_inv_def)
  have live: "\<not> crashed (sy_el s)" by (rule running_not_crashed[OF inv assms(3,4)])
  obtain ev c where ev: "ctl_event bo (OpHealth rev entry) (sy_ct s) = Inr (Some ev, c)"
    by (rule health_offers[OF ready assms(6,7) map_order_rev])
  define s1 where "s1 = s\<lparr>sy_healthCh := [entry], sy_entries := sy_entries s @ [entry]\<rparr>"
  define s2 where "s2 = s1\<lparr>sy_healthCh := [], sy_health := HLock entry\<rparr>"
  define e where "e = (sy_el s)\<lparr>el_callEvents := el_callEvents (sy_el s) @ [ev], el_calls := el_calls (sy_el s) @ [CallSending]\<rparr>"
  define n where "n = length (el_calls (sy_el s))"
  define s3 where "s3 = s2\<lparr>sy_ct := c, sy_log := sy_log s @ [OpHealth rev entry], sy_locked := True, sy_el := e, sy_health := HCall n\<rparr>"
  have quiet: "\<not> sy_locked s" "sy_health s = HReceive" "sy_healthCh s = []" "\<not> sy_ctx s" "\<not> sy_healthClosed s"
    using assms(4,5) by (simp_all add: idle_def running_def)
  have "sy_step bo objs s s1" using sy_step.entry[OF live quiet(5), of bo objs entry] quiet(3) by (simp add: s1_def)
  moreover have "sy_step bo objs s1 s2"
    by (rule sy_step.turn, rule sy_turn.health[OF _ map_order_rev, of _ _ False])
      (use live quiet in \<open>simp_all add: s1_def s2_def healthLoop_turn_def\<close>)
  moreover have "sy_step bo objs s2 s3"
    by (rule sy_step.turn, rule sy_turn.health[OF _ map_order_rev, of _ _ False])
      (use live quiet ev in \<open>simp_all add: s1_def s2_def s3_def e_def n_def healthLoop_turn_def enter_def\<close>)
  moreover have "lc_inv e" "serving e" "\<not> crashed e"
    using sy_invD(1)[OF inv] control_cong(1)[of e "sy_el s"] assms(4) live
    by (simp_all add: e_def el_inv_def running_def serving_def crashed_def)
  then obtain e1 e2 e3 where es: "Close_begin e = Some (Inr (None, e1))" "\<not> crashed e1"
    "el_turn objs loop_dispatches rev e1 e2" "el_turn objs loop_dispatches rev e2 e3" "crashed e3"
    by (rule close_panics_offer[where n = n and objs = objs and dispatch = loop_dispatches and ord = rev])
      (simp_all add: e_def n_def)
  have "sy_step bo objs s3 (s3\<lparr>sy_el := e1\<rparr>)"
    by (rule sy_step.close[where er = None]) (use es(1) \<open>\<not> crashed e\<close> in \<open>simp_all add: s3_def\<close>)
  moreover have "sy_step bo objs (s3\<lparr>sy_el := e1\<rparr>) (s3\<lparr>sy_el := e2\<rparr>)" "sy_step bo objs (s3\<lparr>sy_el := e2\<rparr>) (s3\<lparr>sy_el := e3\<rparr>)"
    using sy_turn.manager[OF map_order_rev, of objs "s3\<lparr>sy_el := e1\<rparr>" e2 bo]
      sy_turn.manager[OF map_order_rev, of objs "s3\<lparr>sy_el := e2\<rparr>" e3 bo] es(3,4) by (auto intro: sy_step.turn)
  ultimately have "(sy_step bo objs)\<^sup>*\<^sup>* s (s3\<lparr>sy_el := e3\<rparr>)"
    by (meson rtranclp.rtrancl_refl converse_rtranclp_into_rtranclp)
  moreover have "sy_run (s3\<lparr>sy_el := e3\<rparr>) = sy_run s" by (simp add: s3_def s2_def s1_def)
  ultimately show ?thesis using es(5) by (intro exI[of _ "s3\<lparr>sy_el := e3\<rparr>"]) simp
qed

section \<open>Witnesses\<close>


theorem shutdown_during_recompute_panics_witness:
  "\<exists>s. loops_step\<^sup>*\<^sup>* example_loops s \<and> (\<exists>er. sy_run s = RunReturned er) \<and> crashed (sy_el s)"
proof -
  obtain s where s: "loops_step\<^sup>*\<^sup>* example_loops s" "(sy_turn LittleEndian two_copies)\<^sup>*\<^sup>* example_loops s" "idle s" "running s"
    by (rule example_reaches[OF rtranclp.rtrancl_refl example_running])
  have inv: "sy_inv LittleEndian two_copies example_controller s" by (rule sy_reachable_inv[OF example_loops_ok s(1)])
  have "sy_entries s = []" using sy_entries_turns[OF s(2)] by (simp add: control_loops_def)
  then have bs: "ct_backends (sy_ct s) = [backend_1, backend_2, backend_3]"
    using idle_follows[OF two_copies_buffered two_copies_accept _ inv running_not_done[OF inv s(4)] s(3)] example_loops_ok
    by (simp add: in_use_def example_controller_def)
  have "backend_2\<lparr>be_Status := StateUnavailable\<rparr> \<noteq> backend_2" by (simp add: example_backend_def)
  then show ?thesis
    using shutdown_during_recompute_panics[OF example_loops_ok s(1,4,3), of backend_2_down] s(1,3)
    by (simp add: bs example_set_status) (metis idle_def rtranclp_trans)
qed

end
