(* ===== verification/Mux_Steps.thy ===== *)
theory Mux_Steps
  imports Watcher_Mux
begin

text \<open>
  The multiplexer of \<open>internal/util/watchermux.go\<close> with its dispatches in flight. \<open>Dispatch\<close>
  copies the list of watchers under the mutex and then sends to one after the other without it, so
  several goroutines can be sending while watchers come, receive and go. A dispatch keeps the
  watchers it still has to serve; a turn serves the next one, with the \<open>select\<close> of
  \<open>dispatchOne\<close>, whose timeout fires when the channel stays full.
\<close>

section \<open>The model\<close>

record 'a dispatching =
  dp_value :: 'a
  dp_rest :: "nat list"

text \<open>
  \<open>mx_flight\<close> has every dispatch ever begun, also the finished ones. \<open>mx_sent\<close> records the
  sends that succeeded, as the number of the dispatch and the address of the watcher,
  \<open>mx_received\<close> what the users of the watchers have received.
\<close>

record 'a mux_state =
  mx_mux :: "'a watcher_mux"
  mx_flight :: "'a dispatching list"
  mx_sent :: "(nat \<times> nat) list"
  mx_received :: "(nat \<times> 'a) list"

definition mux_start :: "nat \<Rightarrow> 'a mux_state" where
  "mux_start n = \<lparr>mx_mux = NewWatcherMux n, mx_flight = [], mx_sent = [], mx_received = []\<rparr>"

definition dispatch_begin :: "nat map_order \<Rightarrow> 'a \<Rightarrow> 'a mux_state \<Rightarrow> 'a mux_state" where
  "dispatch_begin ord v s =
     s\<lparr>mx_flight := mx_flight s @ [\<lparr>dp_value = v, dp_rest = getWatcherList ord (mx_mux s)\<rparr>]\<rparr>"

text \<open>The next send of dispatch \<open>i\<close>, \<open>None\<close> when it has returned.\<close>

definition dispatch_turn :: "bool \<Rightarrow> nat \<Rightarrow> 'a mux_state \<Rightarrow> ('a mux_state go) option" where
  "dispatch_turn pick i s =
     (let d = mx_flight s ! i
      in (case dp_rest d of
            [] \<Rightarrow> None
          | a # rest \<Rightarrow>
              Some (case update_watcher (dispatchOne pick 0 (dp_value d)) a (mx_mux s) of
                      Inl p \<Rightarrow> Inl p
                    | Inr wm \<Rightarrow>
                        Inr (s\<lparr>mx_mux := wm, mx_flight := (mx_flight s)[i := d\<lparr>dp_rest := rest\<rparr>],
                               mx_sent := (if w_ch (wm_objs wm ! a) = w_ch (wm_objs (mx_mux s) ! a) then mx_sent s
                                           else mx_sent s @ [(i, a)])\<rparr>))))"

definition watcher_receive :: "nat \<Rightarrow> 'a mux_state \<Rightarrow> ('a mux_state) option" where
  "watcher_receive a s =
     (let wm = mx_mux s; w = wm_objs wm ! a
      in (case w_ch w of
            [] \<Rightarrow> None
          | v # rest \<Rightarrow> Some (s\<lparr>mx_mux := wm\<lparr>wm_objs := (wm_objs wm)[a := w\<lparr>w_ch := rest\<rparr>]\<rparr>,
                                mx_received := mx_received s @ [(a, v)]\<rparr>)))"

definition quiet :: "'a mux_state \<Rightarrow> bool" where
  "quiet s \<longleftrightarrow> (\<forall>d \<in> set (mx_flight s). dp_rest d = [])"

inductive mx_turn :: "'a mux_state \<Rightarrow> 'a mux_state \<Rightarrow> bool" where
  send: "i < length (mx_flight s) \<Longrightarrow> dispatch_turn pick i s = Some (Inr s') \<Longrightarrow> mx_turn s s'"

text \<open>
  The steps of a multiplexer whose watchers are only cancelled between dispatches, and of one whose
  watchers are cancelled at any time.
\<close>

inductive mx_step :: "bool \<Rightarrow> 'a mux_state \<Rightarrow> 'a mux_state \<Rightarrow> bool" for careful where
  turn: "mx_turn s s' \<Longrightarrow> mx_step careful s s'"
| start: "is_map_order ord \<Longrightarrow> mx_step careful s (dispatch_begin ord v s)"
| receive: "a < length (wm_objs (mx_mux s)) \<Longrightarrow> watcher_receive a s = Some s' \<Longrightarrow> mx_step careful s s'"
| watch: "mx_step careful s (s\<lparr>mx_mux := snd (Watch filt (mx_mux s))\<rparr>)"
| unwatch: "careful \<longrightarrow> quiet s \<Longrightarrow> h \<in> set (wm_watchers (mx_mux s)) \<Longrightarrow> cancel h (mx_mux s) = Inr wm \<Longrightarrow>
    mx_step careful s (s\<lparr>mx_mux := wm\<rparr>)"

section \<open>The invariant\<close>

text \<open>What the user of a watcher has got or will get next, and the dispatches that sent it.\<close>

definition got :: "'a mux_state \<Rightarrow> nat \<Rightarrow> 'a list" where
  "got s a = map snd (filter (\<lambda>(b, _). b = a) (mx_received s)) @ w_ch (wm_objs (mx_mux s) ! a)"

definition senders :: "'a mux_state \<Rightarrow> nat \<Rightarrow> nat list" where
  "senders s a = map fst (filter (\<lambda>(_, b). b = a) (mx_sent s))"

definition flight_inv :: "'a mux_state \<Rightarrow> bool" where
  "flight_inv s \<longleftrightarrow>
     wm_open (mx_mux s) \<and>
     (\<forall>d \<in> set (mx_flight s). distinct (dp_rest d) \<and> set (dp_rest d) \<subseteq> snd ` set (wm_watchers (mx_mux s)))"

definition sent_inv :: "'a mux_state \<Rightarrow> bool" where
  "sent_inv s \<longleftrightarrow>
     distinct (mx_sent s) \<and>
     (\<forall>(i, a) \<in> set (mx_sent s). i < length (mx_flight s) \<and> a \<notin> set (dp_rest (mx_flight s ! i)) \<and>
        a < length (wm_objs (mx_mux s)) \<and> accepts (wm_objs (mx_mux s) ! a) (dp_value (mx_flight s ! i)))"

definition got_inv :: "'a mux_state \<Rightarrow> bool" where
  "got_inv s \<longleftrightarrow>
     (\<forall>a < length (wm_objs (mx_mux s)). got s a = map (\<lambda>i. dp_value (mx_flight s ! i)) (senders s a)) \<and>
     (\<forall>(a, _) \<in> set (mx_received s). a < length (wm_objs (mx_mux s)))"

lemma dispatchOne_open: "\<not> w_chClosed w \<Longrightarrow> \<not> w_doneClosed w \<Longrightarrow> dispatchOne pick 0 v w = Inr (offer v w)"
  by (simp add: dispatchOne_def select_send_def offer_def Let_def)

lemma dispatch_turn_cases:
  assumes "dispatch_turn pick i s = Some (Inr s')" and "flight_inv s" and "i < length (mx_flight s)"
  obtains (served) a rest w where "dp_rest (mx_flight s ! i) = a # rest" "a \<in> snd ` set (wm_watchers (mx_mux s))"
      "a < length (wm_objs (mx_mux s))" "w = wm_objs (mx_mux s) ! a"
      "accepts w (dp_value (mx_flight s ! i))" "length (w_ch w) < w_cap w"
      "s' = s\<lparr>mx_mux := (mx_mux s)\<lparr>wm_objs := (wm_objs (mx_mux s))[a := w\<lparr>w_ch := w_ch w @ [dp_value (mx_flight s ! i)]\<rparr>]\<rparr>,
             mx_flight := (mx_flight s)[i := (mx_flight s ! i)\<lparr>dp_rest := rest\<rparr>], mx_sent := mx_sent s @ [(i, a)]\<rparr>"
    | (skipped) a rest where "dp_rest (mx_flight s ! i) = a # rest"
      "s' = s\<lparr>mx_flight := (mx_flight s)[i := (mx_flight s ! i)\<lparr>dp_rest := rest\<rparr>]\<rparr>"
proof -
  obtain a rest where rest: "dp_rest (mx_flight s ! i) = a # rest"
    using assms(1) by (auto simp: dispatch_turn_def Let_def split: list.splits)
  have "set (dp_rest (mx_flight s ! i)) \<subseteq> snd ` set (wm_watchers (mx_mux s))"
    using assms(2,3) by (simp add: flight_inv_def)
  then have reg: "a \<in> snd ` set (wm_watchers (mx_mux s))" using rest by auto
  have open_mux: "wm_open (mx_mux s)" using assms(2) by (simp add: flight_inv_def)
  note w = registered_open[OF open_mux reg]
  let ?w = "wm_objs (mx_mux s) ! a" and ?v = "dp_value (mx_flight s ! i)"
  have upd: "update_watcher (dispatchOne pick 0 ?v) a (mx_mux s) =
      Inr ((mx_mux s)\<lparr>wm_objs := (wm_objs (mx_mux s))[a := offer ?v ?w]\<rparr>)"
    using w by (simp add: update_watcher_at dispatchOne_open)
  show ?thesis
  proof (cases "accepts ?w ?v \<and> length (w_ch ?w) < w_cap ?w")
    case True
    then show ?thesis using assms(1) rest w(1) reg upd that(1)[of a rest ?w]
      by (simp add: dispatch_turn_def offer_def Let_def)
  next
    case False
    then have "offer ?v ?w = ?w" by (simp add: offer_def)
    then show ?thesis using assms(1) rest upd that(2)[of a rest] by (simp add: dispatch_turn_def Let_def)
  qed
qed

lemma rest_update:
  assumes "flight_inv s" and "i < length (mx_flight s)" and "dp_rest (mx_flight s ! i) = a # rest"
    and "d \<in> set ((mx_flight s)[i := (mx_flight s ! i)\<lparr>dp_rest := rest\<rparr>])"
  shows "distinct (dp_rest d) \<and> set (dp_rest d) \<subseteq> snd ` set (wm_watchers (mx_mux s))"
proof -
  have old: "distinct (dp_rest e) \<and> set (dp_rest e) \<subseteq> snd ` set (wm_watchers (mx_mux s))" if "e \<in> set (mx_flight s)" for e
    using assms(1) that by (simp add: flight_inv_def)
  have "d = (mx_flight s ! i)\<lparr>dp_rest := rest\<rparr> \<or> d \<in> set (mx_flight s)"
    using assms(4) set_update_subset_insert[of "mx_flight s" i "(mx_flight s ! i)\<lparr>dp_rest := rest\<rparr>"] by auto
  then show ?thesis using old[of d] old[OF nth_mem[OF assms(2)]] assms(3) by auto
qed

lemma flight_inv_turn:
  assumes "flight_inv s" and "mx_turn s s'"
  shows "flight_inv s'"
  using assms(2)
proof cases
  case (send i pick)
  note open_mux = assms(1)[unfolded flight_inv_def, THEN conjunct1]
  from send(2) assms(1) send(1) show ?thesis
  proof (cases rule: dispatch_turn_cases)
    case (served a rest w)
    then show ?thesis using rest_update[OF assms(1) send(1) served(1)] wm_open_channel[OF open_mux] by (simp add: flight_inv_def)
  next
    case (skipped a rest)
    then show ?thesis using rest_update[OF assms(1) send(1) skipped(1)] open_mux by (simp add: flight_inv_def)
  qed
qed

lemma flight_inv_step:
  assumes "flight_inv s" and "mx_step True s s'"
  shows "flight_inv s'"
  using assms(2)
proof cases
  case turn
  then show ?thesis by (rule flight_inv_turn[OF assms(1)])
next
  case (start ord v)
  have "wm_wf (mx_mux s)" using assms(1) by (simp add: flight_inv_def wm_open_def)
  then show ?thesis using start assms(1) getWatcherList_wf(1,2)[OF start(2), of "mx_mux s"]
    by (simp add: flight_inv_def dispatch_begin_def)
next
  case (receive a)
  then obtain v rest where "s' = s\<lparr>mx_mux := (mx_mux s)\<lparr>wm_objs := (wm_objs (mx_mux s))[a :=
      (wm_objs (mx_mux s) ! a)\<lparr>w_ch := rest\<rparr>]\<rparr>, mx_received := mx_received s @ [(a, v)]\<rparr>"
    by (auto simp: watcher_receive_def Let_def split: list.splits)
  then show ?thesis using assms(1) wm_open_channel[of "mx_mux s" a] by (simp add: flight_inv_def)
next
  case (watch filt)
  then show ?thesis using assms(1) Watch_open[of "mx_mux s" filt] by (auto simp: flight_inv_def Watch_def Let_def)
next
  case (unwatch h wm)
  obtain i a where h: "h = (i, a)" by fastforce
  have "wm_open wm" using cancel_open[of "mx_mux s" i a] unwatch assms(1) h by (auto simp: flight_inv_def)
  then show ?thesis using unwatch(1,2) by (auto simp: flight_inv_def quiet_def)
qed

lemma flight_value: "dp_value ((mx_flight s)[i := (mx_flight s ! i)\<lparr>dp_rest := rest\<rparr>] ! j) = dp_value (mx_flight s ! j)"
  by (cases "j = i"; cases "i < length (mx_flight s)") (simp_all add: list_update_beyond)

lemma flight_rest:
  assumes "dp_rest (mx_flight s ! i) = a # rest" and "b \<notin> set (dp_rest (mx_flight s ! j))"
  shows "b \<notin> set (dp_rest ((mx_flight s)[i := (mx_flight s ! i)\<lparr>dp_rest := rest\<rparr>] ! j))"
  using assms by (cases "j = i"; cases "i < length (mx_flight s)") (auto simp: list_update_beyond)

lemma accepts_channel: "accepts (xs[a := (xs ! a)\<lparr>w_ch := vs\<rparr>] ! b) = accepts (xs ! b)"
  by (cases "b = a"; cases "a < length xs") (simp_all add: accepts_def fun_eq_iff list_update_beyond)

lemma sent_invD:
  assumes "sent_inv s" and "(j, b) \<in> set (mx_sent s)"
  shows "j < length (mx_flight s)" and "b \<notin> set (dp_rest (mx_flight s ! j))" and "b < length (wm_objs (mx_mux s))"
    and "accepts (wm_objs (mx_mux s) ! b) (dp_value (mx_flight s ! j))"
  using assms unfolding sent_inv_def by blast+

lemma sent_invI:
  assumes "distinct (mx_sent s)"
    and "\<And>j b. (j, b) \<in> set (mx_sent s) \<Longrightarrow> j < length (mx_flight s) \<and> b \<notin> set (dp_rest (mx_flight s ! j)) \<and>
        b < length (wm_objs (mx_mux s)) \<and> accepts (wm_objs (mx_mux s) ! b) (dp_value (mx_flight s ! j))"
  shows "sent_inv s"
  using assms unfolding sent_inv_def by blast

lemma sent_inv_turn:
  assumes "flight_inv s" and sent: "sent_inv s" and "mx_turn s s'"
  shows "sent_inv s'"
  using assms(3)
proof cases
  case (send i pick)
  from send(2) assms(1) send(1) show ?thesis
  proof (cases rule: dispatch_turn_cases)
    case (served a rest w)
    have "distinct (dp_rest (mx_flight s ! i))" using assms(1) nth_mem[OF send(1)] unfolding flight_inv_def by blast
    then have new: "a \<notin> set rest" "(i, a) \<notin> set (mx_sent s)"
      using served(1) sent_invD(2)[OF sent, of i a] by auto
    show ?thesis
    proof (rule sent_invI)
      show "distinct (mx_sent s')" using sent new(2) served(7) by (simp add: sent_inv_def)
      fix j b assume "(j, b) \<in> set (mx_sent s')"
      then consider "(j, b) \<in> set (mx_sent s)" | "j = i" "b = a" using served(7) by auto
      then show "j < length (mx_flight s') \<and> b \<notin> set (dp_rest (mx_flight s' ! j)) \<and> b < length (wm_objs (mx_mux s')) \<and>
          accepts (wm_objs (mx_mux s') ! b) (dp_value (mx_flight s' ! j))"
      proof cases
        case 1
        then show ?thesis
          using sent_invD[OF sent 1] served(4,7) flight_rest[OF served(1)] by (simp add: flight_value accepts_channel)
      next
        case 2
        then show ?thesis using served(3-5,7) send(1) new(1) by (simp add: accepts_channel accepts_def)
      qed
    qed
  next
    case (skipped a rest)
    show ?thesis
      by (rule sent_invI)
        (use skipped(2) sent sent_invD[OF sent] flight_rest[OF skipped(1)] in \<open>simp_all add: sent_inv_def flight_value\<close>)
  qed
qed

lemma sent_inv_step:
  assumes "flight_inv s" and sent: "sent_inv s" and "mx_step careful s s'"
  shows "sent_inv s'"
  using assms(3)
proof cases
  case turn
  then show ?thesis by (rule sent_inv_turn[OF assms(1,2)])
next
  case (start ord v)
  then show ?thesis using sent unfolding sent_inv_def by (auto simp: dispatch_begin_def nth_append)
next
  case (receive a)
  then obtain v rest where "s' = s\<lparr>mx_mux := (mx_mux s)\<lparr>wm_objs := (wm_objs (mx_mux s))[a :=
      (wm_objs (mx_mux s) ! a)\<lparr>w_ch := rest\<rparr>]\<rparr>, mx_received := mx_received s @ [(a, v)]\<rparr>"
    by (auto simp: watcher_receive_def Let_def split: list.splits)
  then show ?thesis using sent by (simp add: sent_inv_def accepts_channel)
next
  case (watch filt)
  then show ?thesis using sent unfolding sent_inv_def by (auto simp: Watch_def Let_def nth_append)
next
  case (unwatch h wm)
  have len: "length (wm_objs wm) = length (wm_objs (mx_mux s))"
    using unwatch(4) by (auto simp: cancel_def slice_get_def split: if_splits sum.splits)
  have "accepts (wm_objs wm ! b) = accepts (wm_objs (mx_mux s) ! b)" for b
    using unwatch(4)
    by (cases "b = snd h") (auto simp: cancel_def slice_get_def close_channel_once_def accepts_def fun_eq_iff
        split: if_splits sum.splits)
  then show ?thesis using unwatch(1) sent len by (simp add: sent_inv_def)
qed

lemma got_invI:
  assumes "\<And>b. b < length (wm_objs (mx_mux s)) \<Longrightarrow> got s b = map (\<lambda>i. dp_value (mx_flight s ! i)) (senders s b)"
    and "\<And>b v. (b, v) \<in> set (mx_received s) \<Longrightarrow> b < length (wm_objs (mx_mux s))"
  shows "got_inv s"
  using assms unfolding got_inv_def by blast

lemma got_invD:
  assumes "got_inv s"
  shows "b < length (wm_objs (mx_mux s)) \<Longrightarrow> got s b = map (\<lambda>i. dp_value (mx_flight s ! i)) (senders s b)"
    and "(b, v) \<in> set (mx_received s) \<Longrightarrow> b < length (wm_objs (mx_mux s))"
  using assms unfolding got_inv_def by blast+

lemma got_inv_cong:
  assumes "got_inv s" and "\<And>b. got s' b = got s b" and "mx_sent s' = mx_sent s" and "mx_received s' = mx_received s"
    and "length (wm_objs (mx_mux s')) = length (wm_objs (mx_mux s))"
    and "\<And>j. dp_value (mx_flight s' ! j) = dp_value (mx_flight s ! j)"
  shows "got_inv s'"
  by (rule got_invI) (use got_invD[OF assms(1)] assms(2-6) in \<open>simp_all add: senders_def\<close>)

lemma got_inv_turn:
  assumes "flight_inv s" and inv: "got_inv s" and "mx_turn s s'"
  shows "got_inv s'"
  using assms(3)
proof cases
  case (send i pick)
  from send(2) assms(1) send(1) show ?thesis
  proof (cases rule: dispatch_turn_cases)
    case (served a rest w)
    let ?v = "dp_value (mx_flight s ! i)"
    have "got s' b = got s b @ (if b = a then [?v] else [])" "senders s' b = senders s b @ (if b = a then [i] else [])" for b
      using served(3,4,7) by (simp_all add: got_def senders_def)
    then show ?thesis
      using got_invD[OF inv] served(7) by (intro got_invI) (simp_all add: flight_value)
  next
    case (skipped a rest)
    then show ?thesis by (intro got_inv_cong[OF inv]) (simp_all add: got_def flight_value)
  qed
qed

lemma got_inv_step:
  assumes "flight_inv s" and sent: "sent_inv s" and inv: "got_inv s" and "mx_step careful s s'"
  shows "got_inv s'"
  using assms(4)
proof cases
  case turn
  then show ?thesis by (rule got_inv_turn[OF assms(1,3)])
next
  case (start ord v)
  have "map (\<lambda>i. dp_value (mx_flight s' ! i)) (senders s b) = map (\<lambda>i. dp_value (mx_flight s ! i)) (senders s b)" for b
    using sent_invD(1)[OF sent] start(1) by (auto simp: senders_def dispatch_begin_def nth_append)
  then show ?thesis using got_invD[OF inv] start(1)
    by (intro got_invI) (simp_all add: got_def senders_def dispatch_begin_def)
next
  case (receive a)
  then obtain v rest where ch: "w_ch (wm_objs (mx_mux s) ! a) = v # rest" and s': "s' = s\<lparr>mx_mux := (mx_mux s)\<lparr>wm_objs :=
      (wm_objs (mx_mux s))[a := (wm_objs (mx_mux s) ! a)\<lparr>w_ch := rest\<rparr>]\<rparr>, mx_received := mx_received s @ [(a, v)]\<rparr>"
    by (auto simp: watcher_receive_def Let_def split: list.splits)
  have "got s' b = got s b" for b using ch receive(1) by (cases "b = a") (simp_all add: got_def s')
  moreover have "senders s' b = senders s b" for b by (simp add: senders_def s')
  ultimately show ?thesis using got_invD[OF inv] receive(1) by (intro got_invI) (auto simp: s')
next
  case (watch filt)
  have s': "s' = s\<lparr>mx_mux := mx_mux s'\<rparr>" "length (wm_objs (mx_mux s')) = Suc (length (wm_objs (mx_mux s)))"
    "\<And>b. b < length (wm_objs (mx_mux s)) \<Longrightarrow> wm_objs (mx_mux s') ! b = wm_objs (mx_mux s) ! b"
    "w_ch (wm_objs (mx_mux s') ! length (wm_objs (mx_mux s))) = []"
    using watch by (simp_all add: Watch_def Let_def nth_append)
  have sent_s: "mx_sent s' = mx_sent s" "mx_received s' = mx_received s" "mx_flight s' = mx_flight s" using watch by simp_all
  have new: "filter (\<lambda>(b, _). b = length (wm_objs (mx_mux s))) (mx_received s) = []"
    "filter (\<lambda>(_, b). b = length (wm_objs (mx_mux s))) (mx_sent s) = []"
    using got_invD(2)[OF inv] sent_invD(3)[OF sent] by (fastforce simp: filter_empty_conv)+
  show ?thesis
  proof (rule got_invI)
    fix b assume "b < length (wm_objs (mx_mux s'))"
    then consider "b < length (wm_objs (mx_mux s))" | "b = length (wm_objs (mx_mux s))" using s'(2) by linarith
    then show "got s' b = map (\<lambda>i. dp_value (mx_flight s' ! i)) (senders s' b)"
    proof cases
      case 1
      then show ?thesis using got_invD(1)[OF inv 1] s'(3)[OF 1] by (simp add: got_def senders_def sent_s)
    next
      case 2
      then show ?thesis using new s'(4) by (simp add: got_def senders_def sent_s)
    qed
  next
    show "b < length (wm_objs (mx_mux s'))" if "(b, v) \<in> set (mx_received s')" for b v
      using got_invD(2)[OF inv] that s'(2) by (simp add: sent_s less_SucI)
  qed
next
  case (unwatch h wm)
  have "w_ch (wm_objs wm ! b) = w_ch (wm_objs (mx_mux s) ! b)" for b
    using unwatch(4)
    by (cases "b = snd h") (auto simp: cancel_def slice_get_def close_channel_once_def split: if_splits sum.splits)
  moreover have "length (wm_objs wm) = length (wm_objs (mx_mux s))"
    using unwatch(4) by (auto simp: cancel_def slice_get_def split: if_splits sum.splits)
  ultimately show ?thesis using unwatch(1) by (intro got_inv_cong[OF inv]) (simp_all add: got_def)
qed

lemma mux_start_inv: "flight_inv (mux_start n) \<and> sent_inv (mux_start n) \<and> got_inv (mux_start n)"
  using NewWatcherMux_open[of n]
  by (simp add: flight_inv_def sent_inv_def got_inv_def mux_start_def NewWatcherMux_def)

lemma mx_reachable_inv:
  assumes "(mx_step True)\<^sup>*\<^sup>* (mux_start n) s"
  shows "flight_inv s \<and> sent_inv s \<and> got_inv s"
  using assms
proof (induction rule: rtranclp_induct)
  case (step s s')
  then show ?case using flight_inv_step sent_inv_step got_inv_step by blast
qed (rule mux_start_inv)

section \<open>Every dispatch ends, and every watcher gets a value at most once\<close>

definition mx_weight :: "'a mux_state \<Rightarrow> nat" where
  "mx_weight s = (\<Sum>d \<leftarrow> mx_flight s. length (dp_rest d))"

lemma mx_turn_weight:
  assumes "flight_inv s" and "mx_turn s s'"
  shows "mx_weight s' < mx_weight s"
  using assms(2)
proof cases
  case (send i pick)
  note upd = weight_update[OF send(1), of "\<lambda>d. length (dp_rest d)"]
  from send(2) assms(1) send(1) show ?thesis
  proof (cases rule: dispatch_turn_cases)
    case (served a rest w)
    then show ?thesis using upd[of "(mx_flight s ! i)\<lparr>dp_rest := rest\<rparr>"] by (simp add: mx_weight_def)
  next
    case (skipped a rest)
    then show ?thesis using upd[of "(mx_flight s ! i)\<lparr>dp_rest := rest\<rparr>"] by (simp add: mx_weight_def)
  qed
qed

text \<open>The next send of a dispatch in flight neither panics nor waits for a receiver.\<close>

lemma dispatch_moves:
  assumes "flight_inv s" and "i < length (mx_flight s)" and "dp_rest (mx_flight s ! i) \<noteq> []"
  shows "\<exists>s'. dispatch_turn pick i s = Some (Inr s')"
proof -
  obtain a rest where rest: "dp_rest (mx_flight s ! i) = a # rest" using assms(3) by (cases "dp_rest (mx_flight s ! i)") auto
  have "set (dp_rest (mx_flight s ! i)) \<subseteq> snd ` set (wm_watchers (mx_mux s))"
    using assms(1,2) by (simp add: flight_inv_def)
  then have "a \<in> snd ` set (wm_watchers (mx_mux s))" using rest by auto
  moreover have "wm_open (mx_mux s)" using assms(1) by (simp add: flight_inv_def)
  ultimately have "a < length (wm_objs (mx_mux s))" "\<not> w_chClosed (wm_objs (mx_mux s) ! a)" "\<not> w_doneClosed (wm_objs (mx_mux s) ! a)"
    using registered_open by blast+
  then show ?thesis using rest by (simp add: dispatch_turn_def update_watcher_at dispatchOne_open Let_def)
qed

interpretation dispatch_end: winding_down "\<lambda>s. flight_inv s \<and> sent_inv s \<and> got_inv s" "\<lambda>_. True" quiet mx_turn mx_weight
proof
  fix s s' :: "'a mux_state"
  assume inv: "flight_inv s \<and> sent_inv s \<and> got_inv s"
  show "mx_turn s s' \<Longrightarrow> flight_inv s' \<and> sent_inv s' \<and> got_inv s'"
    using inv flight_inv_turn sent_inv_turn got_inv_turn by blast
  show "mx_turn s s' \<Longrightarrow> mx_weight s' < mx_weight s" using inv mx_turn_weight by blast
  show "quiet s" if "\<nexists>s'. mx_turn s s'"
    using inv that dispatch_moves[of s _ True] mx_turn.send unfolding quiet_def by (metis in_set_conv_nth)
qed simp

text \<open>
  C28. Dispatches from several goroutines at once, while watchers are added and receive, and are cancelled
  only when no dispatch is in flight. No dispatch panics and none waits for ever: each send takes
  effect or times out, at most \<open>mx_weight\<close> sends are left, and when none can go on every dispatch
  has returned. What the user of a watcher gets are values of distinct dispatches that its
  filter accepts: no value reaches a watcher twice, and none that was not dispatched.
\<close>

theorem concurrent_dispatches_end:
  assumes "(mx_step True)\<^sup>*\<^sup>* (mux_start n) s" and "(mx_turn ^^ k) s s'"
  shows "k \<le> mx_weight s \<and>
         (\<forall>pick. \<forall>i < length (mx_flight s'). dp_rest (mx_flight s' ! i) \<noteq> [] \<longrightarrow>
            (\<exists>s''. dispatch_turn pick i s' = Some (Inr s''))) \<and>
         ((\<nexists>s''. mx_turn s' s'') \<longrightarrow> (\<forall>d \<in> set (mx_flight s'). dp_rest d = [])) \<and>
         (\<forall>a < length (wm_objs (mx_mux s')). \<exists>is. distinct is \<and> set is \<subseteq> {..<length (mx_flight s')} \<and>
            got s' a = map (\<lambda>i. dp_value (mx_flight s' ! i)) is \<and>
            (\<forall>i \<in> set is. accepts (wm_objs (mx_mux s') ! a) (dp_value (mx_flight s' ! i))))"
proof -
  note run = dispatch_end.winds_down[OF mx_reachable_inv[OF assms(1)] TrueI assms(2)]
  have inv: "flight_inv s'" "sent_inv s'" "got_inv s'" using run(2) by blast+
  have "distinct (senders s' a) \<and> set (senders s' a) \<subseteq> {..<length (mx_flight s')} \<and>
      (\<forall>i \<in> set (senders s' a). accepts (wm_objs (mx_mux s') ! a) (dp_value (mx_flight s' ! i)))" for a
  proof -
    have "distinct (filter (\<lambda>(_, b). b = a) (mx_sent s'))" using inv(2) by (simp add: sent_inv_def)
    moreover have "inj_on fst {(i, b). b = a}" by (auto simp: inj_on_def)
    ultimately have "distinct (senders s' a)" unfolding senders_def by (auto simp: distinct_map inj_on_def)
    then show ?thesis using sent_invD[OF inv(2)] by (auto simp: senders_def)
  qed
  then have "\<forall>a < length (wm_objs (mx_mux s')). \<exists>is. distinct is \<and> set is \<subseteq> {..<length (mx_flight s')} \<and>
      got s' a = map (\<lambda>i. dp_value (mx_flight s' ! i)) is \<and>
      (\<forall>i \<in> set is. accepts (wm_objs (mx_mux s') ! a) (dp_value (mx_flight s' ! i)))"
    using got_invD(1)[OF inv(3)] by blast
  then show ?thesis using run(1,4) dispatch_moves[OF inv(1)] unfolding quiet_def by blast
qed

text \<open>One watcher, and the states of two dispatches to it.\<close>

abbreviation one_watcher :: "nat mux_state" where
  "one_watcher \<equiv> (mux_start 2)\<lparr>mx_mux := snd (Watch None (NewWatcherMux 2))\<rparr>"

lemma one_watcher_reach: "(mx_step careful)\<^sup>*\<^sup>* (mux_start 2) one_watcher"
  using mx_step.watch[of careful "mux_start 2" None] by (simp add: mux_start_def) blast

lemmas mux_eval = dispatch_begin_def dispatch_turn_def mux_start_def Watch_def NewWatcherMux_def getWatcherList_def
  update_watcher_def slice_get_def dispatchOne_def accepts_def select_send_def cancel_def close_channel_once_def

lemma begin_reach: "(mx_step careful)\<^sup>*\<^sup>* s0 s \<Longrightarrow> (mx_step careful)\<^sup>*\<^sup>* s0 (dispatch_begin rev v s)"
  using mx_step.start[OF map_order_rev] by (metis rtranclp.rtrancl_into_rtrancl)

lemma turn_reach:
  "(mx_step careful)\<^sup>*\<^sup>* s0 s \<Longrightarrow> i < length (mx_flight s) \<Longrightarrow> dispatch_turn pick i s = Some (Inr s') \<Longrightarrow>
     (mx_step careful)\<^sup>*\<^sup>* s0 s'"
  using mx_step.turn[OF mx_turn.send] by (metis rtranclp.rtrancl_into_rtrancl)

theorem concurrent_dispatches_end_witness:
  "\<exists>s s'. (mx_step True)\<^sup>*\<^sup>* (mux_start 2) s \<and> (mx_turn ^^ 1) s s' \<and> 1 \<le> mx_weight s \<and> got s' 0 = [7 :: nat] \<and>
     (\<exists>is. distinct is \<and> got s' 0 = map (\<lambda>i. dp_value (mx_flight s' ! i)) is)"
proof -
  let ?s = "dispatch_begin rev 7 one_watcher"
  have reach: "(mx_step True)\<^sup>*\<^sup>* (mux_start 2) ?s" by (rule begin_reach[OF one_watcher_reach])
  have "\<exists>s'. dispatch_turn False 0 ?s = Some (Inr s') \<and> got s' 0 = [7] \<and> 0 < length (wm_objs (mx_mux s'))"
    by (simp add: mux_eval got_def)
  then obtain s' where s': "dispatch_turn False 0 ?s = Some (Inr s')" "got s' 0 = [7]" "0 < length (wm_objs (mx_mux s'))" by blast
  have "mx_turn ?s s'" by (rule mx_turn.send[OF _ s'(1)]) (simp add: dispatch_begin_def)
  then have run: "(mx_turn ^^ 1) ?s s'" by (simp add: eq_OO)
  have "1 \<le> mx_weight ?s" "\<exists>is. distinct is \<and> got s' 0 = map (\<lambda>i. dp_value (mx_flight s' ! i)) is"
    using concurrent_dispatches_end[OF reach run] s'(3) by blast+
  then show ?thesis using reach run s'(2) by blast
qed

text \<open>
  Concurrent dispatches overtake each other: of two dispatches begun one after the other, the second
  can reach a watcher first. The three workers of the BPF manager dispatch the assignments in this
  way, so a watcher can get the assignments of a session in the wrong order.
\<close>

theorem dispatches_overtake:
  "\<exists>s. (mx_step True)\<^sup>*\<^sup>* (mux_start 2) s \<and> map dp_value (mx_flight s) = [1, 2 :: nat] \<and> got s 0 = [2, 1]"
proof -
  let ?s = "dispatch_begin rev 2 (dispatch_begin rev 1 one_watcher)"
  have reach: "(mx_step True)\<^sup>*\<^sup>* (mux_start 2) ?s" by (intro begin_reach one_watcher_reach)
  have "\<exists>s1. dispatch_turn False 1 ?s = Some (Inr s1) \<and> length (mx_flight s1) = 2 \<and>
      (\<exists>s2. dispatch_turn False 0 s1 = Some (Inr s2) \<and> map dp_value (mx_flight s2) = [1, 2] \<and> got s2 0 = [2, 1])"
    by (simp add: mux_eval got_def)
  then obtain s1 s2 where s: "dispatch_turn False 1 ?s = Some (Inr s1)" "length (mx_flight s1) = 2"
    "dispatch_turn False 0 s1 = Some (Inr s2)" "map dp_value (mx_flight s2) = [1, 2]" "got s2 0 = [2, 1]" by (elim exE conjE)
  have "(mx_step True)\<^sup>*\<^sup>* (mux_start 2) s1" by (rule turn_reach[OF reach _ s(1)]) (simp add: mux_eval)
  then have "(mx_step True)\<^sup>*\<^sup>* (mux_start 2) s2" by (rule turn_reach[OF _ _ s(3)]) (simp add: s(2))
  then show ?thesis using s(4,5) by (intro exI[of _ s2] conjI)
qed

text \<open>
  A watcher that is cancelled while a dispatch is on its way to it has its channel closed under the
  sender: the \<open>select\<close> may then take the send, which panics. The deferred cancel of
  \<open>assignmentLoop\<close> and the \<open>healthCancel\<close> of \<open>Controller.Close\<close> are such calls.
\<close>

theorem cancel_during_dispatch_panics:
  "\<exists>s. (mx_step False)\<^sup>*\<^sup>* (mux_start 2) s \<and> mx_flight s = [\<lparr>dp_value = 7 :: nat, dp_rest = [0]\<rparr>] \<and>
       dispatch_turn False 0 s = Some (Inl SendOnClosedChannel)"
proof -
  let ?s = "dispatch_begin rev 7 one_watcher"
  have reach: "(mx_step False)\<^sup>*\<^sup>* (mux_start 2) ?s" by (rule begin_reach[OF one_watcher_reach])
  have "\<exists>wm. cancel (0, 0) (mx_mux ?s) = Inr wm \<and> dispatch_turn False 0 (?s\<lparr>mx_mux := wm\<rparr>) = Some (Inl SendOnClosedChannel)"
    by (simp add: mux_eval)
  then obtain wm where wm: "cancel (0, 0) (mx_mux ?s) = Inr wm"
    "dispatch_turn False 0 (?s\<lparr>mx_mux := wm\<rparr>) = Some (Inl SendOnClosedChannel)" by blast
  have "mx_step False ?s (?s\<lparr>mx_mux := wm\<rparr>)"
    by (rule mx_step.unwatch[OF _ _ wm(1)]) (simp_all add: mux_eval)
  then have "(mx_step False)\<^sup>*\<^sup>* (mux_start 2) (?s\<lparr>mx_mux := wm\<rparr>)" using reach by simp
  moreover have "mx_flight (?s\<lparr>mx_mux := wm\<rparr>) = [\<lparr>dp_value = 7, dp_rest = [0]\<rparr>]" by (simp add: mux_eval)
  ultimately show ?thesis using wm(2) by blast
qed

end
