(* ===== verification/Cluster.thy ===== *)
theory Cluster
  imports Lifecycle Watcher_Mux
begin

text \<open>
  \<open>internal/adapter/cluster\<close>: the topology, the transport, the multiplexer over raw bytes (\<open>mux.go\<close>) and
  the typed cluster on top of it (\<open>typed.go\<close>). Sockets are arguments: the result of listening
  and dialling, the packets that arrive. A connection is the address it was dialled to; what has
  been written to connections is a trace of peers and bytes. JSON encoding is an argument.
  \<open>Close\<close> releases its mutex while it waits, so it is two steps.
\<close>

section \<open>Topologies\<close>

record cluster_node =
  node_ID :: uuid
  node_Addr :: string

type_synonym nodes = "(uuid \<times> cluster_node) list"

definition fullyConnected_NextPeers :: "(uuid \<times> cluster_node) map_order \<Rightarrow> uuid \<Rightarrow> nodes \<Rightarrow>
      cluster_node list \<times> err" where
  "fullyConnected_NextPeers ord self nodes =
     (fold (\<lambda>(i, node) peers. if i = self then peers else peers @ [node]) (ord nodes) [], None)"

definition NewLeaderTopology :: "unit go" where
  "NewLeaderTopology = Inl Unimplemented"

definition NewRingTopology :: "unit go" where
  "NewRingTopology = Inl Unimplemented"

section \<open>Transport\<close>

text \<open>
  \<open>udpProtocol\<close> (\<open>protocol.go\<close>): \<open>net.ListenPacket\<close> and \<open>net.Dial\<close> are arguments. The
  multiplexer takes the outcomes of listening and dialling, of this or of another protocol.
\<close>

definition udp_Listen :: "(string \<Rightarrow> string \<Rightarrow> go_error + 'l) \<Rightarrow> string \<Rightarrow> go_error + 'l" where
  "udp_Listen listenPacket addr = listenPacket ''udp'' addr"

definition udp_Dial :: "(string \<Rightarrow> string \<Rightarrow> go_error + 'c) \<Rightarrow> string \<Rightarrow> go_error + 'c" where
  "udp_Dial dial addr = dial ''udp'' addr"

section \<open>The multiplexer\<close>

record cluster_mux =
  cm_nodeId :: uuid
  cm_nodes :: nodes
  cm_conns :: "uuid \<rightharpoonup> string"
  cm_sendSources :: "nat list"
  cm_recvMux :: "(u8 list) watcher_mux"
  cm_listener :: bool
  cm_lc :: lifecycle

definition NewMux :: "uuid \<Rightarrow> (u8 list) watcher_mux \<Rightarrow> cluster_mux" where
  "NewMux nodeId recvMux =
     \<lparr>cm_nodeId = nodeId, cm_nodes = [], cm_conns = Map.empty, cm_sendSources = [], cm_recvMux = recvMux,
      cm_listener = False, cm_lc = lc_new\<rparr>"

definition cm_Run :: "err \<Rightarrow> cluster_mux \<Rightarrow> (err \<times> cluster_mux) comp" where
  "cm_Run listen cm = Some (Inr
     (if lc_running (cm_lc cm) then (Some ErrAlreadyRunning, cm)
      else if lc_closed (cm_lc cm) then (Some ErrCannotRunClosedRunnable, cm)
      else (case listen of
              Some e \<Rightarrow> (Some e, cm)
            | None \<Rightarrow> (None, cm\<lparr>cm_listener := True, cm_lc := (cm_lc cm)\<lparr>lc_running := True\<rparr>\<rparr>))))"

text \<open>One turn of \<open>recvLoop\<close>: a timeout or another error of the read changes nothing.\<close>

datatype peer_read = ReadFailed | Packet "u8 list"

definition cm_recv :: "(u8 list \<Rightarrow> (u8 list) watcher_mux \<Rightarrow> ((u8 list) watcher_mux) go) \<Rightarrow> peer_read \<Rightarrow>
      cluster_mux \<Rightarrow> cluster_mux go" where
  "cm_recv dispatch pkt cm =
     (case pkt of
        ReadFailed \<Rightarrow> Inr cm
      | Packet bytes \<Rightarrow>
          (case dispatch bytes (cm_recvMux cm) of
             Inl p \<Rightarrow> Inl p
           | Inr wm \<Rightarrow> Inr (cm\<lparr>cm_recvMux := wm\<rparr>)))"

definition cm_recv_terminate :: "nat map_order \<Rightarrow> cluster_mux \<Rightarrow> cluster_mux go" where
  "cm_recv_terminate ord cm =
     (case wm_Close ord (cm_recvMux cm) of
        Inl p \<Rightarrow> Inl p
      | Inr wm \<Rightarrow> Inr (cm\<lparr>cm_recvMux := wm, cm_listener := False\<rparr>))"

definition getOrDialConn :: "(string \<Rightarrow> err) \<Rightarrow> cluster_node \<Rightarrow> cluster_mux \<Rightarrow> (go_error + string) \<times> cluster_mux" where
  "getOrDialConn dial peer cm =
     (case cm_conns cm (node_ID peer) of
        Some conn \<Rightarrow> (Inr conn, cm)
      | None \<Rightarrow>
          (case dial (node_Addr peer) of
             Some e \<Rightarrow> (Inl e, cm)
           | None \<Rightarrow>
               (Inr (node_Addr peer), cm\<lparr>cm_conns := (cm_conns cm)(node_ID peer \<mapsto> node_Addr peer)\<rparr>)))"

text \<open>One message of \<open>sendLoop\<close>: a peer that cannot be dialled is skipped, errors are logged.\<close>

definition cm_send_peer :: "(string \<Rightarrow> err) \<Rightarrow> u8 list \<Rightarrow> cluster_node \<Rightarrow>
      cluster_mux \<times> (string \<times> u8 list) list \<Rightarrow> cluster_mux \<times> (string \<times> u8 list) list" where
  "cm_send_peer dial bytes peer w = (case w of (cm, sent) \<Rightarrow>
     (case getOrDialConn dial peer cm of
        (Inl _, cm') \<Rightarrow> (cm', sent)
      | (Inr conn, cm') \<Rightarrow> (cm', sent @ [(conn, bytes)])))"

definition cm_send :: "(uuid \<Rightarrow> nodes \<Rightarrow> cluster_node list \<times> err) \<Rightarrow> (string \<Rightarrow> err) \<Rightarrow> u8 list \<Rightarrow>
      cluster_mux \<Rightarrow> cluster_mux \<times> (string \<times> u8 list) list" where
  "cm_send nextPeers dial bytes cm =
     (case nextPeers (cm_nodeId cm) (cm_nodes cm) of
        (_, Some e) \<Rightarrow> (cm, [])
      | (peers, None) \<Rightarrow> fold (cm_send_peer dial bytes) peers (cm, []))"

definition cm_send_terminate :: "cluster_mux \<Rightarrow> cluster_mux" where
  "cm_send_terminate cm = cm\<lparr>cm_conns := Map.empty\<rparr>"

definition cm_Send :: "nat \<Rightarrow> cluster_mux \<Rightarrow> err \<times> cluster_mux" where
  "cm_Send ch cm =
     (if lc_running (cm_lc cm) then (Some ErrAlreadyRunning, cm)
      else (None, cm\<lparr>cm_sendSources := cm_sendSources cm @ [ch]\<rparr>))"

definition cm_Recv :: "cluster_mux \<Rightarrow> (nat \<times> nat) \<times> cluster_mux" where
  "cm_Recv cm = (let (h, wm) = Watch None (cm_recvMux cm) in (h, cm\<lparr>cm_recvMux := wm\<rparr>))"

definition cm_Join :: "cluster_mux \<Rightarrow> err \<times> cluster_mux" where
  "cm_Join cm = (None, cm)"

definition cm_Leave :: "cluster_mux \<Rightarrow> err \<times> cluster_mux" where
  "cm_Leave cm = (None, cm)"

definition cm_ListNodes :: "uuid map_order \<Rightarrow> cluster_mux \<Rightarrow> uuid list" where
  "cm_ListNodes ord cm = ord (map fst (cm_nodes cm))"

text \<open>
  \<open>Close\<close> up to the wait, and after it. The goroutine that waits for both loops closes
  \<open>doneCh\<close> in between.
\<close>

definition cm_Close_begin :: "cluster_mux \<Rightarrow> (err \<times> cluster_mux) go" where
  "cm_Close_begin cm =
     (if lc_closed (cm_lc cm) then Inr (Some ErrAlreadyClosed, cm)
      else if \<not> lc_running (cm_lc cm) then Inr (Some ErrRunnableMustBeRunningToBeClosed, cm)
      else if lc_terminate (cm_lc cm) then Inl CloseOfClosedChannel
      else Inr (None, cm\<lparr>cm_lc := (cm_lc cm)\<lparr>lc_terminate := True\<rparr>\<rparr>))"

definition cm_loops_terminate :: "nat map_order \<Rightarrow> cluster_mux \<Rightarrow> cluster_mux go" where
  "cm_loops_terminate ord cm =
     (case cm_recv_terminate ord (cm_send_terminate cm) of
        Inl p \<Rightarrow> Inl p
      | Inr cm' \<Rightarrow>
          if lc_done (cm_lc cm') then Inl CloseOfClosedChannel
          else Inr (cm'\<lparr>cm_lc := (cm_lc cm')\<lparr>lc_done := True\<rparr>\<rparr>))"

definition cm_Close_end :: "cluster_mux \<Rightarrow> cluster_mux" where
  "cm_Close_end cm = cm\<lparr>cm_lc := (cm_lc cm)\<lparr>lc_running := False, lc_closed := True\<rparr>\<rparr>"

definition cm_Close :: "nat map_order \<Rightarrow> bool \<Rightarrow> cluster_mux \<Rightarrow> (err \<times> cluster_mux) comp" where
  "cm_Close ord graceful cm = Some
     (case cm_Close_begin cm of
        Inl p \<Rightarrow> Inl p
      | Inr (Some e, cm') \<Rightarrow> Inr (Some e, cm')
      | Inr (None, cm') \<Rightarrow>
          (case (if graceful then cm_loops_terminate ord cm' else Inr cm') of
             Inl p \<Rightarrow> Inl p
           | Inr cm'' \<Rightarrow> Inr (None, cm_Close_end cm'')))"

section \<open>The typed cluster\<close>

record 'a typed_cluster =
  tc_raw :: cluster_mux
  tc_rawSendCh :: nat
  tc_recvMux :: "'a watcher_mux"
  tc_lc :: lifecycle
  tc_rawRecvCancel :: "(nat \<times> nat) option"

definition tc_New :: "cluster_mux \<Rightarrow> nat \<Rightarrow> 'a watcher_mux \<Rightarrow> 'a typed_cluster" where
  "tc_New raw rawSendCh recvMux =
     \<lparr>tc_raw = raw, tc_rawSendCh = rawSendCh, tc_recvMux = recvMux, tc_lc = lc_new, tc_rawRecvCancel = None\<rparr>"

definition tc_Run :: "'a typed_cluster \<Rightarrow> (err \<times> 'a typed_cluster) comp" where
  "tc_Run c = Some (Inr
     (if lc_running (tc_lc c) then (Some ErrAlreadyRunning, c)
      else if lc_closed (tc_lc c) then (Some ErrCannotRunClosedRunnable, c)
      else (case cm_Send (tc_rawSendCh c) (tc_raw c) of
              (Some e, raw) \<Rightarrow> (Some e, c\<lparr>tc_raw := raw\<rparr>)
            | (None, raw) \<Rightarrow>
                let (h, raw') = cm_Recv raw
                in (None, c\<lparr>tc_raw := raw', tc_rawRecvCancel := Some h,
                           tc_lc := (tc_lc c)\<lparr>lc_running := True\<rparr>\<rparr>))))"

text \<open>One message of \<open>decodeLoop\<close>; bytes that do not decode are skipped.\<close>

definition tc_decode :: "(u8 list \<Rightarrow> go_error + 'a) \<Rightarrow> ('a \<Rightarrow> 'a watcher_mux \<Rightarrow> ('a watcher_mux) go) \<Rightarrow>
      u8 list \<Rightarrow> 'a typed_cluster \<Rightarrow> ('a typed_cluster) go" where
  "tc_decode unmarshal dispatch raw c =
     (case unmarshal raw of
        Inl _ \<Rightarrow> Inr c
      | Inr v \<Rightarrow>
          (case dispatch v (tc_recvMux c) of
             Inl p \<Rightarrow> Inl p
           | Inr wm \<Rightarrow> Inr (c\<lparr>tc_recvMux := wm\<rparr>)))"

text \<open>The goroutine of \<open>Send\<close>: the bytes it puts on \<open>rawSendCh\<close> for a value, if any.\<close>

definition tc_Send_value :: "('a \<Rightarrow> go_error + u8 list) \<Rightarrow> 'a \<Rightarrow> (u8 list) option" where
  "tc_Send_value marshal v = (case marshal v of Inl _ \<Rightarrow> None | Inr buf \<Rightarrow> Some buf)"

definition tc_Recv :: "'a typed_cluster \<Rightarrow> (nat \<times> nat) \<times> 'a typed_cluster" where
  "tc_Recv c = (let (h, wm) = Watch None (tc_recvMux c) in (h, c\<lparr>tc_recvMux := wm\<rparr>))"

definition tc_Join :: "'a typed_cluster \<Rightarrow> err \<times> 'a typed_cluster" where
  "tc_Join c = (let (e, raw) = cm_Join (tc_raw c) in (e, c\<lparr>tc_raw := raw\<rparr>))"

definition tc_Leave :: "'a typed_cluster \<Rightarrow> err \<times> 'a typed_cluster" where
  "tc_Leave c = (let (e, raw) = cm_Leave (tc_raw c) in (e, c\<lparr>tc_raw := raw\<rparr>))"

definition tc_ListNodes :: "uuid map_order \<Rightarrow> 'a typed_cluster \<Rightarrow> uuid list" where
  "tc_ListNodes ord c = cm_ListNodes ord (tc_raw c)"

definition tc_terminate :: "nat map_order \<Rightarrow> 'a typed_cluster \<Rightarrow> ('a typed_cluster) go" where
  "tc_terminate ord c =
     (case wm_Close ord (tc_recvMux c) of
        Inl p \<Rightarrow> Inl p
      | Inr wm \<Rightarrow>
          if lc_done (tc_lc c) then Inl CloseOfClosedChannel
          else Inr (c\<lparr>tc_recvMux := wm, tc_lc := (tc_lc c)\<lparr>lc_done := True\<rparr>\<rparr>))"

definition tc_Close :: "nat map_order \<Rightarrow> bool \<Rightarrow> 'a typed_cluster \<Rightarrow> (err \<times> 'a typed_cluster) comp" where
  "tc_Close ord graceful c = Some
     (if lc_closed (tc_lc c) then Inr (Some ErrAlreadyClosed, c)
      else if \<not> lc_running (tc_lc c) then Inr (Some ErrRunnableMustBeRunningToBeClosed, c)
      else if lc_terminate (tc_lc c) then Inl CloseOfClosedChannel
      else
        let c = c\<lparr>tc_lc := (tc_lc c)\<lparr>lc_terminate := True\<rparr>\<rparr>
        in (case (case tc_rawRecvCancel c of
                    None \<Rightarrow> Inr (cm_recvMux (tc_raw c))
                  | Some h \<Rightarrow> cancel h (cm_recvMux (tc_raw c))) of
              Inl p \<Rightarrow> Inl p
            | Inr rawMux \<Rightarrow>
                let c = c\<lparr>tc_raw := (tc_raw c)\<lparr>cm_recvMux := rawMux\<rparr>\<rparr>
                in (case (if graceful then tc_terminate ord c else Inr c) of
                      Inl p \<Rightarrow> Inl p
                    | Inr c' \<Rightarrow>
                        Inr (None, c'\<lparr>tc_lc := (tc_lc c')\<lparr>lc_running := False, lc_closed := True\<rparr>\<rparr>))))"

section \<open>Peers\<close>

lemma next_peers_filter:
  "fullyConnected_NextPeers ord self nodes = (map snd (filter (\<lambda>(i, _). i \<noteq> self) (ord nodes)), None)"
proof -
  have "fold (\<lambda>(i, node) peers. if i = self then peers else peers @ [node]) ns acc =
      acc @ map snd (filter (\<lambda>(i, _). i \<noteq> self) ns)" for ns :: nodes and acc
    by (induction ns arbitrary: acc) auto
  then show ?thesis by (simp add: fullyConnected_NextPeers_def)
qed

text \<open>
  In the fully connected topology the next peers of a node are all other nodes of the map, each
  exactly once, whatever the order of the map: the multiset of peers is that of the nodes whose
  key is not the node itself.
\<close>

theorem fullyConnected_targets_all_others:
  assumes "is_map_order ord"
  shows "snd (fullyConnected_NextPeers ord self nodes) = None \<and>
         mset (fst (fullyConnected_NextPeers ord self nodes)) =
           image_mset snd {# n \<in># mset nodes. fst n \<noteq> self #}"
proof -
  have "mset (ord nodes) = mset nodes" using assms by (simp add: is_map_order_def)
  then show ?thesis by (simp add: next_peers_filter case_prod_unfold)
qed

theorem fullyConnected_targets_all_others_witness:
  "mset (fst (fullyConnected_NextPeers rev 1 [(1, \<lparr>node_ID = 1, node_Addr = ''a''\<rparr>), (2, \<lparr>node_ID = 2, node_Addr = ''b''\<rparr>)])) =
     {#\<lparr>node_ID = 2, node_Addr = ''b''\<rparr>#}"
  using fullyConnected_targets_all_others[of rev 1
      "[(1, \<lparr>node_ID = 1, node_Addr = ''a''\<rparr>), (2, \<lparr>node_ID = 2, node_Addr = ''b''\<rparr>)]"] by simp

text \<open>
  The operations of a multiplexer, as steps. None of them registers a node, so a multiplexer has
  no peers.
\<close>

inductive cm_step :: "cluster_mux \<Rightarrow> cluster_mux \<Rightarrow> bool" where
  run: "cm_Run listen cm = Some (Inr (e, cm')) \<Longrightarrow> cm_step cm cm'"
| send_source: "cm_Send ch cm = (e, cm') \<Longrightarrow> cm_step cm cm'"
| subscribe: "cm_Recv cm = (h, cm') \<Longrightarrow> cm_step cm cm'"
| join: "cm_Join cm = (e, cm') \<Longrightarrow> cm_step cm cm'"
| leave: "cm_Leave cm = (e, cm') \<Longrightarrow> cm_step cm cm'"
| recv: "cm_recv dispatch pkt cm = Inr cm' \<Longrightarrow> cm_step cm cm'"
| send: "cm_send nextPeers dial bytes cm = (cm', sent) \<Longrightarrow> cm_step cm cm'"
| close: "cm_Close ord graceful cm = Some (Inr (e, cm')) \<Longrightarrow> cm_step cm cm'"

lemma cm_send_peer_nodes: "cm_nodes (fst (cm_send_peer dial bytes peer w)) = cm_nodes (fst w)"
  by (cases w) (auto simp: cm_send_peer_def getOrDialConn_def split: option.splits sum.splits)

lemma cm_send_nodes: "cm_nodes (fst (cm_send nextPeers dial bytes cm)) = cm_nodes cm"
proof -
  have "cm_nodes (fst (fold (cm_send_peer dial bytes) peers w)) = cm_nodes (fst w)" for peers w
    by (induction peers arbitrary: w) (simp_all add: cm_send_peer_nodes)
  then show ?thesis by (simp add: cm_send_def split: prod.splits option.splits)
qed

lemma cm_step_nodes: "cm_step cm cm' \<Longrightarrow> cm_nodes cm' = cm_nodes cm"
proof (induction rule: cm_step.induct)
  case (send nextPeers dial bytes cm cm' sent)
  then show ?case using cm_send_nodes by (metis fst_conv)
qed (auto simp: cm_Run_def cm_Send_def cm_Recv_def cm_Join_def cm_Leave_def cm_recv_def cm_Close_def
    cm_Close_begin_def cm_loops_terminate_def cm_recv_terminate_def cm_send_terminate_def cm_Close_end_def
    split: if_splits option.splits prod.splits peer_read.splits sum.splits)

text \<open>
  A multiplexer never sends: whatever operations have been performed on a new multiplexer, the
  fully connected topology gives it no peers, and a message handed to its send loop is written to
  no connection.
\<close>

theorem cluster_mux_has_no_peers:
  assumes "is_map_order ord" and "cm_step\<^sup>*\<^sup>* (NewMux self recvMux) cm"
  shows "cm_ListNodes (\<lambda>ks. ks) cm = [] \<and>
         snd (cm_send (fullyConnected_NextPeers ord) dial bytes cm) = []"
proof -
  from assms(2) have nodes: "cm_nodes cm = []"
    by (induction rule: rtranclp_induct) (simp_all add: NewMux_def cm_step_nodes)
  have "ord [] = []" using assms(1) by (metis is_map_order_def mset_zero_iff mset.simps(1))
  then show ?thesis using nodes by (simp add: cm_ListNodes_def cm_send_def next_peers_filter)
qed

theorem cluster_mux_has_no_peers_witness:
  "cm_ListNodes (\<lambda>ks. ks) (NewMux 1 (NewWatcherMux 10)) = [] \<and>
   snd (cm_send (fullyConnected_NextPeers rev) (\<lambda>_. None) [1] (NewMux 1 (NewWatcherMux 10))) = []"
  by (rule cluster_mux_has_no_peers[OF map_order_rev rtranclp.rtrancl_refl])

section \<open>Closing\<close>

text \<open>
  Two goroutines that close a running multiplexer at the same time make it panic: the second
  passes the checks while the first waits without the lock, and closes the channel again.
\<close>

theorem cm_concurrent_close_panics:
  assumes "lc_running (cm_lc cm)" and "\<not> lc_closed (cm_lc cm)" and "\<not> lc_terminate (cm_lc cm)"
  shows "\<exists>cm'. cm_Close_begin cm = Inr (None, cm') \<and> cm_Close_begin cm' = Inl CloseOfClosedChannel"
  using assms by (simp add: cm_Close_begin_def)

theorem cm_concurrent_close_panics_witness:
  "\<exists>cm'. cm_Close_begin ((NewMux 1 (NewWatcherMux 10))\<lparr>cm_lc := lc_new\<lparr>lc_running := True\<rparr>\<rparr>) = Inr (None, cm') \<and>
     cm_Close_begin cm' = Inl CloseOfClosedChannel"
  by (rule cm_concurrent_close_panics) (simp_all add: lc_new_def)

definition cm_wf :: "cluster_mux \<Rightarrow> bool" where
  "cm_wf cm \<longleftrightarrow>
     lc_wf (cm_lc cm) \<and>
     (\<not> lc_closed (cm_lc cm) \<longrightarrow>
        wm_open (cm_recvMux cm) \<and> \<not> wm_doneClosed (cm_recvMux cm) \<and> \<not> lc_done (cm_lc cm))"

lemma cm_Close_running:
  assumes "is_map_order ord" and "cm_wf cm" and "lc_running (cm_lc cm)"
  shows "\<exists>cm'. cm_Close ord graceful cm = Some (Inr (None, cm')) \<and> cm_wf cm' \<and> lc_closed (cm_lc cm')"
proof -
  have lc: "\<not> lc_closed (cm_lc cm)" "\<not> lc_terminate (cm_lc cm)" "\<not> lc_done (cm_lc cm)"
    and mux: "wm_open (cm_recvMux cm)" "\<not> wm_doneClosed (cm_recvMux cm)"
    using assms(2,3) by (auto simp: cm_wf_def lc_wf_def)
  obtain wm where "wm_Close ord (cm_recvMux cm) = Inr wm"
    using wm_Close_open[OF assms(1) mux] by blast
  then show ?thesis
    using assms(3) lc
    by (auto simp: cm_Close_def cm_Close_begin_def cm_loops_terminate_def cm_recv_terminate_def
        cm_send_terminate_def cm_Close_end_def cm_wf_def lc_wf_def)
qed

interpretation cm_life: runnable "cm_Run listen" "cm_Close ord graceful"
  "\<lambda>cm. lc_running (cm_lc cm)" "\<lambda>cm. lc_closed (cm_lc cm)" "\<lambda>cm. is_map_order ord \<and> cm_wf cm"
  for listen ord graceful
proof
  fix cm
  assume wf: "is_map_order ord \<and> cm_wf cm"
  show "\<not> (lc_running (cm_lc cm) \<and> lc_closed (cm_lc cm))"
    using wf by (simp add: cm_wf_def lc_wf_def)
  show "lc_running (cm_lc cm) \<Longrightarrow> cm_Run listen cm = Some (Inr (Some ErrAlreadyRunning, cm))"
    by (simp add: cm_Run_def)
  show "lc_closed (cm_lc cm) \<Longrightarrow> cm_Run listen cm = Some (Inr (Some ErrCannotRunClosedRunnable, cm))"
    using wf by (auto simp: cm_Run_def cm_wf_def lc_wf_def)
  show "\<not> lc_running (cm_lc cm) \<Longrightarrow> \<not> lc_closed (cm_lc cm) \<Longrightarrow>
      (\<exists>s'. cm_Run listen cm = Some (Inr (None, s')) \<and> (is_map_order ord \<and> cm_wf s') \<and> lc_running (cm_lc s')) \<or>
      (\<exists>e. cm_Run listen cm = Some (Inr (Some e, cm)))"
    using wf by (cases listen) (auto simp: cm_Run_def cm_wf_def lc_wf_def)
  show "lc_running (cm_lc cm) \<Longrightarrow>
      \<exists>s'. cm_Close ord graceful cm = Some (Inr (None, s')) \<and> (is_map_order ord \<and> cm_wf s') \<and>
           lc_closed (cm_lc s')"
    using cm_Close_running wf by blast
  show "\<not> lc_running (cm_lc cm) \<Longrightarrow> \<exists>e. cm_Close ord graceful cm = Some (Inr (Some e, cm))"
    by (simp add: cm_Close_def cm_Close_begin_def)
qed

section \<open>Typed messages\<close>

text \<open>
  A value that a typed cluster sends arrives as the same value: when decoding inverts encoding,
  the bytes put on the wire for \<open>v\<close>, received by another typed cluster whose watcher has room
  and no filter, append \<open>v\<close> to what the watcher has.
\<close>

theorem typed_cluster_roundtrip:
  assumes "unmarshal buf = Inr v" and "tc_Send_value marshal v = Some buf"
    and "is_map_order ord" and "wm_open (tc_recvMux c)" and "(i, a) \<in> set (wm_watchers (tc_recvMux c))"
    and "w_filter (wm_objs (tc_recvMux c) ! a) = None"
    and "length (w_ch (wm_objs (tc_recvMux c) ! a)) < w_cap (wm_objs (tc_recvMux c) ! a)"
  shows "\<exists>c'. tc_decode unmarshal (NonBlockingDispatchFunc ord pick) buf c = Inr c' \<and>
           w_ch (wm_objs (tc_recvMux c') ! a) = w_ch (wm_objs (tc_recvMux c) ! a) @ [v]"
proof -
  have a: "a \<in> snd ` set (wm_watchers (tc_recvMux c))" using assms(5) by force
  obtain objs where "NonBlockingDispatchFunc ord pick v (tc_recvMux c) = Inr ((tc_recvMux c)\<lparr>wm_objs := objs\<rparr>)"
    "length objs = length (wm_objs (tc_recvMux c))" "\<forall>i < length objs. objs ! i =
       (if i \<in> snd ` set (wm_watchers (tc_recvMux c)) then offer v (wm_objs (tc_recvMux c) ! i)
        else wm_objs (tc_recvMux c) ! i)"
    using dispatch_open[OF assms(3,4)] by blast
  then show ?thesis
    using assms(1,6,7) a registered_open(1)[OF assms(4) a]
    by (simp add: tc_decode_def offer_def accepts_def)
qed

abbreviation watched_cluster :: "u8 typed_cluster" where
  "watched_cluster \<equiv> tc_New (NewMux 1 (NewWatcherMux 10)) 0 (snd (Watch None (NewWatcherMux 10)))"

theorem typed_cluster_roundtrip_witness:
  "\<exists>c'. tc_decode (\<lambda>b. Inr (hd b)) (NonBlockingDispatchFunc rev (\<lambda>_. True)) [7] watched_cluster = Inr c' \<and>
     w_ch (wm_objs (tc_recvMux c') ! 0) = w_ch (wm_objs (tc_recvMux watched_cluster) ! 0) @ [7]"
proof (rule typed_cluster_roundtrip[where marshal = "\<lambda>v. Inr [v]"])
  show "wm_open (tc_recvMux watched_cluster)"
    using Watch_open[OF NewWatcherMux_open] by (simp add: tc_New_def)
qed (simp_all add: tc_Send_value_def tc_New_def Watch_def NewWatcherMux_def Let_def)

end
