(* ===== verification/Send_Loop.thy ===== *)
theory Send_Loop
  imports Cluster "HOL-Library.Sublist"
begin

text \<open>
  \<open>sendLoop\<close> of \<open>internal/adapter/cluster/mux.go\<close> with its goroutines: one goroutine per
  send source copies the source into the channel \<open>merged\<close>, one waits for all of them and closes
  \<open>merged\<close>, and the loop sends every message of \<open>merged\<close> to the next peers. \<open>merged\<close> has
  no buffer, so a message passes from a goroutine to the loop in one step. A source is a channel
  named by a number; its queue holds what its user has sent and nobody has received. The ghost
  fields \<open>sl_produced\<close> and \<open>sl_handled\<close> record what has been sent on each source and what the
  loop has received, in order.
\<close>

section \<open>The goroutines\<close>

datatype merger = Receiving | Sending "u8 list" | MergerReturned

record send_loop =
  sl_cm :: cluster_mux
  sl_sources :: "nat list"
  sl_mergers :: "merger list"
  sl_mergedClosed :: bool
  sl_loopReturned :: bool
  sl_q :: "nat \<Rightarrow> u8 list list"
  sl_closed :: "nat \<Rightarrow> bool"
  sl_written :: "(string \<times> u8 list) list"
  sl_produced :: "nat \<Rightarrow> u8 list list"
  sl_handled :: "(nat \<times> u8 list) list"

text \<open>The start of the loop: it reads the sources registered so far, once.\<close>

definition sendLoop :: "cluster_mux \<Rightarrow> send_loop" where
  "sendLoop cm =
     \<lparr>sl_cm = cm, sl_sources = cm_sendSources cm,
      sl_mergers = replicate (length (cm_sendSources cm)) Receiving,
      sl_mergedClosed = False, sl_loopReturned = False, sl_q = (\<lambda>_. []), sl_closed = (\<lambda>_. False),
      sl_written = [], sl_produced = (\<lambda>_. []), sl_handled = []\<rparr>"

abbreviation terminating :: "send_loop \<Rightarrow> bool" where
  "terminating s \<equiv> lc_terminate (cm_lc (sl_cm s))"

text \<open>
  A turn of the goroutine of source \<open>i\<close>, \<open>None\<close> when it blocks; \<open>pick\<close> prefers
  \<open>terminateCh\<close> in a \<open>select\<close> with several ready cases. A goroutine that offers a message
  blocks until the loop takes it, which is a turn of the loop.
\<close>

definition merger_turn :: "bool \<Rightarrow> nat \<Rightarrow> send_loop \<Rightarrow> (send_loop go) option" where
  "merger_turn pick i s =
     (let ch = sl_sources s ! i;
          return = Some (Inr (s\<lparr>sl_mergers := (sl_mergers s)[i := MergerReturned]\<rparr>))
      in (case sl_mergers s ! i of
            Receiving \<Rightarrow>
              if terminating s \<and> (pick \<or> sl_q s ch = [] \<and> \<not> sl_closed s ch) then return
              else (case sl_q s ch of
                      d # rest \<Rightarrow> Some (Inr (s\<lparr>sl_q := (sl_q s)(ch := rest),
                                             sl_mergers := (sl_mergers s)[i := Sending d]\<rparr>))
                    | [] \<Rightarrow> if sl_closed s ch then return else None)
          | Sending d \<Rightarrow>
              if terminating s \<and> (pick \<or> \<not> sl_mergedClosed s) then return
              else if sl_mergedClosed s then Some (Inl SendOnClosedChannel)
              else None
          | MergerReturned \<Rightarrow> None))"

text \<open>The goroutine that waits for the others and closes \<open>merged\<close>.\<close>

definition waiter_turn :: "send_loop \<Rightarrow> send_loop option" where
  "waiter_turn s =
     (if list_all (\<lambda>m. m = MergerReturned) (sl_mergers s) \<and> \<not> sl_mergedClosed s
      then Some (s\<lparr>sl_mergedClosed := True\<rparr>) else None)"

text \<open>A turn of the loop; \<open>i\<close> is the goroutine from which it receives, when one offers.\<close>

definition loop_turn :: "(uuid \<Rightarrow> nodes \<Rightarrow> cluster_node list \<times> err) \<Rightarrow> (string \<Rightarrow> err) \<Rightarrow> bool \<Rightarrow> nat \<Rightarrow>
      send_loop \<Rightarrow> send_loop option" where
  "loop_turn nextPeers dial pick i s =
     (if sl_loopReturned s then None
      else if terminating s \<and> pick \<or> sl_mergedClosed s
      then Some (s\<lparr>sl_cm := cm_send_terminate (sl_cm s), sl_loopReturned := True\<rparr>)
      else if i < length (sl_mergers s) then
        (case sl_mergers s ! i of
           Sending d \<Rightarrow>
             let (cm, sent) = cm_send nextPeers dial d (sl_cm s)
             in Some (s\<lparr>sl_cm := cm, sl_mergers := (sl_mergers s)[i := Receiving],
                        sl_written := sl_written s @ sent,
                        sl_handled := sl_handled s @ [(sl_sources s ! i, d)]\<rparr>)
         | _ \<Rightarrow> None)
      else None)"

text \<open>
  The turns of the goroutines, and the steps of the users: a source gets a message or is closed,
  and the multiplexer is told to terminate.
\<close>

inductive send_turn :: "(uuid \<Rightarrow> nodes \<Rightarrow> cluster_node list \<times> err) \<Rightarrow> (string \<Rightarrow> err) \<Rightarrow>
    send_loop \<Rightarrow> send_loop \<Rightarrow> bool" for nextPeers dial where
  merger: "i < length (sl_mergers s) \<Longrightarrow> merger_turn pick i s = Some (Inr s') \<Longrightarrow> send_turn nextPeers dial s s'"
| waiter: "waiter_turn s = Some s' \<Longrightarrow> send_turn nextPeers dial s s'"
| loop: "loop_turn nextPeers dial pick i s = Some s' \<Longrightarrow> send_turn nextPeers dial s s'"

inductive send_step :: "(uuid \<Rightarrow> nodes \<Rightarrow> cluster_node list \<times> err) \<Rightarrow> (string \<Rightarrow> err) \<Rightarrow>
    send_loop \<Rightarrow> send_loop \<Rightarrow> bool" for nextPeers dial where
  turn: "send_turn nextPeers dial s s' \<Longrightarrow> send_step nextPeers dial s s'"
| produce: "\<not> sl_closed s ch \<Longrightarrow>
    send_step nextPeers dial s (s\<lparr>sl_q := (sl_q s)(ch := sl_q s ch @ [d]),
                                  sl_produced := (sl_produced s)(ch := sl_produced s ch @ [d])\<rparr>)"
| close_source: "\<not> sl_closed s ch \<Longrightarrow> send_step nextPeers dial s (s\<lparr>sl_closed := (sl_closed s)(ch := True)\<rparr>)"
| close: "cm_Close_begin (sl_cm s) = Inr (None, cm) \<Longrightarrow> send_step nextPeers dial s (s\<lparr>sl_cm := cm\<rparr>)"

section \<open>The sequential sender\<close>

text \<open>What the loop is meant to do: send the messages of all sources one after the other.\<close>

definition send_all :: "(uuid \<Rightarrow> nodes \<Rightarrow> cluster_node list \<times> err) \<Rightarrow> (string \<Rightarrow> err) \<Rightarrow> u8 list list \<Rightarrow>
      cluster_mux \<Rightarrow> cluster_mux \<times> (string \<times> u8 list) list" where
  "send_all nextPeers dial ds cm =
     fold (\<lambda>d (cm, sent). let (cm', out) = cm_send nextPeers dial d cm in (cm', sent @ out)) ds (cm, [])"

lemma send_all_Nil [simp]: "send_all nextPeers dial [] cm = (cm, [])"
  by (simp add: send_all_def)

lemma send_all_snoc:
  "send_all nextPeers dial (ds @ [d]) cm =
     (let (cm1, sent) = send_all nextPeers dial ds cm; (cm2, out) = cm_send nextPeers dial d cm1
      in (cm2, sent @ out))"
  by (simp add: send_all_def Let_def split: prod.splits)

lemma cm_send_peer_lc:
  "cm_send_peer dial d peer (cm\<lparr>cm_lc := l\<rparr>, sent) =
     (case cm_send_peer dial d peer (cm, sent) of (cm', out) \<Rightarrow> (cm'\<lparr>cm_lc := l\<rparr>, out))"
  by (auto simp: cm_send_peer_def getOrDialConn_def split: option.splits sum.splits)

lemma cm_send_lc:
  "cm_send nextPeers dial d (cm\<lparr>cm_lc := l\<rparr>) =
     (case cm_send nextPeers dial d cm of (cm', out) \<Rightarrow> (cm'\<lparr>cm_lc := l\<rparr>, out))"
proof -
  have "fold (cm_send_peer dial d) peers (cm\<lparr>cm_lc := l\<rparr>, sent) =
      (case fold (cm_send_peer dial d) peers (cm, sent) of (cm', out) \<Rightarrow> (cm'\<lparr>cm_lc := l\<rparr>, out))" for peers cm sent
    by (induction peers arbitrary: cm sent) (simp_all add: cm_send_peer_lc split: prod.splits)
  then show ?thesis by (simp add: cm_send_def split: prod.splits option.splits)
qed

lemma cm_send_peer_keeps_lc: "cm_lc (fst (cm_send_peer dial d peer w)) = cm_lc (fst w)"
  by (cases w) (auto simp: cm_send_peer_def getOrDialConn_def split: option.splits sum.splits)

lemma cm_send_keeps_lc: "cm_lc (fst (cm_send nextPeers dial d cm)) = cm_lc cm"
proof -
  have "cm_lc (fst (fold (cm_send_peer dial d) peers w)) = cm_lc (fst w)" for peers w
    by (induction peers arbitrary: w) (simp_all add: cm_send_peer_keeps_lc)
  then show ?thesis by (simp add: cm_send_def split: prod.splits option.splits)
qed

section \<open>The invariant of the goroutines\<close>

fun held :: "merger \<Rightarrow> u8 list list" where
  "held (Sending d) = [d]"
| "held _ = []"

definition handled_of :: "send_loop \<Rightarrow> nat \<Rightarrow> u8 list list" where
  "handled_of s ch = map snd (filter (\<lambda>(c, _). c = ch) (sl_handled s))"

definition source_inv :: "send_loop \<Rightarrow> nat \<Rightarrow> merger \<Rightarrow> bool" where
  "source_inv s ch m \<longleftrightarrow>
     (if m = MergerReturned
      then prefix (handled_of s ch) (sl_produced s ch) \<and>
           (terminating s \<or> sl_closed s ch \<and> sl_q s ch = [] \<and> handled_of s ch = sl_produced s ch)
      else sl_produced s ch = handled_of s ch @ held m @ sl_q s ch)"

definition send_inv :: "(uuid \<Rightarrow> nodes \<Rightarrow> cluster_node list \<times> err) \<Rightarrow> (string \<Rightarrow> err) \<Rightarrow> cluster_mux \<Rightarrow>
      send_loop \<Rightarrow> bool" where
  "send_inv nextPeers dial cm s \<longleftrightarrow>
     sl_sources s = cm_sendSources cm \<and> length (sl_mergers s) = length (sl_sources s) \<and>
     (sl_mergedClosed s \<longrightarrow> (\<forall>m \<in> set (sl_mergers s). m = MergerReturned)) \<and>
     (sl_loopReturned s \<longrightarrow> terminating s \<or> sl_mergedClosed s) \<and>
     sl_written s = snd (send_all nextPeers dial (map snd (sl_handled s)) cm) \<and>
     (\<not> sl_loopReturned s \<longrightarrow>
        sl_cm s = (fst (send_all nextPeers dial (map snd (sl_handled s)) cm))\<lparr>cm_lc := cm_lc (sl_cm s)\<rparr>) \<and>
     (\<forall>i < length (sl_sources s). source_inv s (sl_sources s ! i) (sl_mergers s ! i))"

lemma sendLoop_inv: "send_inv nextPeers dial cm (sendLoop cm)"
  by (simp add: send_inv_def sendLoop_def source_inv_def handled_of_def)

lemma send_inv_source:
  "send_inv nextPeers dial cm s \<Longrightarrow> i < length (sl_sources s) \<Longrightarrow> source_inv s (sl_sources s ! i) (sl_mergers s ! i)"
  unfolding send_inv_def by blast

text \<open>One goroutine changes: the invariants of the other sources need only their own channel.\<close>

lemma send_inv_update:
  assumes inv: "send_inv nextPeers dial cm s" and i: "i < length (sl_mergers s)"
    and live: "sl_mergers s ! i \<noteq> MergerReturned"
    and s': "sl_sources s' = sl_sources s" "sl_mergers s' = (sl_mergers s)[i := m]"
      "sl_mergedClosed s' = sl_mergedClosed s" "sl_loopReturned s' = sl_loopReturned s"
      "cm_lc (sl_cm s') = cm_lc (sl_cm s)"
    and sent: "sl_written s' = snd (send_all nextPeers dial (map snd (sl_handled s')) cm)"
      "\<not> sl_loopReturned s' \<Longrightarrow>
        sl_cm s' = (fst (send_all nextPeers dial (map snd (sl_handled s')) cm))\<lparr>cm_lc := cm_lc (sl_cm s')\<rparr>"
    and own: "source_inv s' (sl_sources s ! i) m"
    and others: "\<And>ch m. ch \<noteq> sl_sources s ! i \<Longrightarrow> source_inv s ch m \<Longrightarrow> source_inv s' ch m"
    and dist: "distinct (cm_sendSources cm)"
  shows "send_inv nextPeers dial cm s'"
proof -
  have "\<not> sl_mergedClosed s" using inv live nth_mem[OF i] by (auto simp: send_inv_def)
  moreover have "source_inv s' (sl_sources s ! j) ((sl_mergers s)[i := m] ! j)" if "j < length (sl_sources s)" for j
  proof (cases "j = i")
    case False
    then have "sl_sources s ! j \<noteq> sl_sources s ! i"
      using inv i that dist by (simp add: send_inv_def nth_eq_iff_index_eq)
    then show ?thesis using others send_inv_source[OF inv that] False by simp
  qed (use own i in simp)
  ultimately show ?thesis using inv s' sent by (simp add: send_inv_def)
qed

lemma merger_turn_cases:
  assumes "merger_turn pick i s = Some r" and "sl_mergedClosed s \<longrightarrow> sl_mergers s ! i = MergerReturned"
  obtains (stop) "r = Inr (s\<lparr>sl_mergers := (sl_mergers s)[i := MergerReturned]\<rparr>)" "terminating s"
    | (drained) "r = Inr (s\<lparr>sl_mergers := (sl_mergers s)[i := MergerReturned]\<rparr>)"
        "sl_mergers s ! i = Receiving" "sl_q s (sl_sources s ! i) = []" "sl_closed s (sl_sources s ! i)"
    | (take) d rest where "sl_mergers s ! i = Receiving" "sl_q s (sl_sources s ! i) = d # rest"
        "r = Inr (s\<lparr>sl_q := (sl_q s)(sl_sources s ! i := rest), sl_mergers := (sl_mergers s)[i := Sending d]\<rparr>)"
  using assms
  by (auto simp: merger_turn_def Let_def split: merger.splits list.splits if_splits)

lemma merger_turn_live: "merger_turn pick i s = Some r \<Longrightarrow> sl_mergers s ! i \<noteq> MergerReturned"
  by (auto simp: merger_turn_def)

lemma merged_open:
  "send_inv nextPeers dial cm s \<Longrightarrow> i < length (sl_mergers s) \<Longrightarrow>
     sl_mergedClosed s \<longrightarrow> sl_mergers s ! i = MergerReturned"
  by (simp add: send_inv_def)

lemma merger_turn_inv:
  assumes inv: "send_inv nextPeers dial cm s" and dist: "distinct (cm_sendSources cm)"
    and i: "i < length (sl_mergers s)" and turn: "merger_turn pick i s = Some (Inr s')"
  shows "send_inv nextPeers dial cm s'"
proof -
  have live: "sl_mergers s ! i \<noteq> MergerReturned" using turn by (rule merger_turn_live)
  have own: "sl_produced s (sl_sources s ! i) = handled_of s (sl_sources s ! i) @ held (sl_mergers s ! i) @ sl_q s (sl_sources s ! i)"
    using inv i live by (auto simp: send_inv_def source_inv_def)
  note sent = inv[unfolded send_inv_def]
  note simps = source_inv_def handled_of_def
  show ?thesis using turn merged_open[OF inv i]
  proof (cases rule: merger_turn_cases)
    case stop
    then show ?thesis
      using own by (intro send_inv_update[OF inv i live _ _ _ _ _ _ _ _ _ dist, where m = MergerReturned])
        (use sent in \<open>auto simp: simps\<close>)
  next
    case drained
    then show ?thesis
      using own by (intro send_inv_update[OF inv i live _ _ _ _ _ _ _ _ _ dist, where m = MergerReturned])
        (use sent in \<open>auto simp: simps\<close>)
  next
    case (take d rest)
    then show ?thesis
      using own by (intro send_inv_update[OF inv i live _ _ _ _ _ _ _ _ _ dist, where m = "Sending d"])
        (use sent in \<open>auto simp: simps\<close>)
  qed
qed

lemma loop_turn_inv:
  assumes inv: "send_inv nextPeers dial cm s" and dist: "distinct (cm_sendSources cm)"
    and turn: "loop_turn nextPeers dial pick i s = Some s'"
  shows "send_inv nextPeers dial cm s'"
proof -
  have running: "\<not> sl_loopReturned s" using turn by (simp add: loop_turn_def split: if_splits)
  have seq: "sl_written s = snd (send_all nextPeers dial (map snd (sl_handled s)) cm)"
    "sl_cm s = (fst (send_all nextPeers dial (map snd (sl_handled s)) cm))\<lparr>cm_lc := cm_lc (sl_cm s)\<rparr>"
    using inv running by (simp_all add: send_inv_def)
  show ?thesis
  proof (cases "terminating s \<and> pick \<or> sl_mergedClosed s")
    case True
    then have "s' = s\<lparr>sl_cm := cm_send_terminate (sl_cm s), sl_loopReturned := True\<rparr>"
      using turn running by (simp add: loop_turn_def)
    then show ?thesis using inv True
      by (auto simp: send_inv_def cm_send_terminate_def source_inv_def handled_of_def)
  next
    case False
    obtain d where i: "i < length (sl_mergers s)" and m: "sl_mergers s ! i = Sending d"
      using turn running False by (auto simp: loop_turn_def split: if_splits merger.splits)
    obtain cm1 sent where send: "cm_send nextPeers dial d (sl_cm s) = (cm1, sent)" by fastforce
    have s': "s' = s\<lparr>sl_cm := cm1, sl_mergers := (sl_mergers s)[i := Receiving],
        sl_written := sl_written s @ sent, sl_handled := sl_handled s @ [(sl_sources s ! i, d)]\<rparr>"
      using turn running False i m send by (auto simp: loop_turn_def)
    have own: "sl_produced s (sl_sources s ! i) = handled_of s (sl_sources s ! i) @ d # sl_q s (sl_sources s ! i)"
      using inv i m by (auto simp: send_inv_def source_inv_def)
    obtain cm2 out where all: "send_all nextPeers dial (map snd (sl_handled s)) cm = (cm2, out)" by fastforce
    obtain cm3 out' where next_send: "cm_send nextPeers dial d cm2 = (cm3, out')" by fastforce
    have "sl_cm s = cm2\<lparr>cm_lc := cm_lc (sl_cm s)\<rparr>" using seq(2) all by simp
    then have "(cm1, sent) = (cm3\<lparr>cm_lc := cm_lc (sl_cm s)\<rparr>, out')"
      using cm_send_lc[where cm = cm2 and l = "cm_lc (sl_cm s)" and nextPeers = nextPeers and dial = dial and d = d] next_send send by simp
    then show ?thesis
      using seq(1) all next_send own
      by (intro send_inv_update[OF inv i _ _ _ _ _ _ _ _ _ _ dist, where m = Receiving])
        (auto simp: s' m send_all_snoc source_inv_def handled_of_def)
  qed
qed

lemma send_step_inv:
  assumes "send_step nextPeers dial s s'" and "send_inv nextPeers dial cm s" and "distinct (cm_sendSources cm)"
  shows "send_inv nextPeers dial cm s'"
  using assms
proof (induction rule: send_step.induct)
  case (turn s s')
  then show ?case
  proof (induction rule: send_turn.induct)
    case (waiter s s')
    then show ?case
      by (auto simp: waiter_turn_def send_inv_def source_inv_def handled_of_def list_all_iff split: if_splits)
  qed (use merger_turn_inv loop_turn_inv in blast)+
next
  case (produce s ch d)
  then have "source_inv (s\<lparr>sl_q := (sl_q s)(ch := sl_q s ch @ [d]),
      sl_produced := (sl_produced s)(ch := sl_produced s ch @ [d])\<rparr>) c m" if "source_inv s c m" for c m
    using that by (auto simp: source_inv_def handled_of_def split: if_splits)
  then show ?case using produce(2) send_inv_source[OF produce(2)] by (simp add: send_inv_def)
next
  case (close_source s ch)
  then show ?case by (auto simp: send_inv_def source_inv_def handled_of_def)
next
  case (close s cm')
  then have "cm' = (sl_cm s)\<lparr>cm_lc := (cm_lc (sl_cm s))\<lparr>lc_terminate := True\<rparr>\<rparr>"
    by (simp add: cm_Close_begin_def split: if_splits)
  then have cm': "cm_lc cm' = (cm_lc (sl_cm s))\<lparr>lc_terminate := True\<rparr>" "cm' = (sl_cm s)\<lparr>cm_lc := cm_lc cm'\<rparr>"
    by simp_all
  have seq: "cm' = x\<lparr>cm_lc := cm_lc cm'\<rparr>" if "sl_cm s = x\<lparr>cm_lc := cm_lc (sl_cm s)\<rparr>" for x
    by (subst cm'(2), subst that) simp
  have "source_inv (s\<lparr>sl_cm := cm'\<rparr>) ch m" if "source_inv s ch m" for ch m
    using that cm'(1) by (auto simp: source_inv_def handled_of_def)
  then show ?case
    using close(2) send_inv_source[OF close(2)] seq cm'(1) unfolding send_inv_def by simp
qed

section \<open>What the loop sends\<close>

lemma reachable_inv:
  assumes "distinct (cm_sendSources cm)" and "(send_step nextPeers dial)\<^sup>*\<^sup>* (sendLoop cm) s"
  shows "send_inv nextPeers dial cm s"
  using assms(2) by (induction rule: rtranclp_induct) (auto intro: sendLoop_inv send_step_inv assms(1))

lemma source_prefix:
  assumes "send_inv nextPeers dial cm s" and "ch \<in> set (cm_sendSources cm)"
  shows "prefix (handled_of s ch) (sl_produced s ch)"
proof -
  obtain i where "i < length (sl_sources s)" "sl_sources s ! i = ch"
    using assms by (auto simp: send_inv_def in_set_conv_nth)
  then have "source_inv s ch (sl_mergers s ! i)" using assms(1) by (auto simp: send_inv_def)
  then show ?thesis by (auto simp: source_inv_def split: if_splits)
qed

lemma source_complete:
  assumes inv: "send_inv nextPeers dial cm s" and "ch \<in> set (cm_sendSources cm)"
    and "sl_loopReturned s" and "\<not> terminating s"
  shows "handled_of s ch = sl_produced s ch"
proof -
  obtain i where i: "i < length (sl_sources s)" "sl_sources s ! i = ch"
    using assms by (auto simp: send_inv_def in_set_conv_nth)
  have "sl_mergers s ! i = MergerReturned" using assms(3,4) inv i(1) by (simp add: send_inv_def)
  moreover have "source_inv s ch (sl_mergers s ! i)" using inv i by (auto simp: send_inv_def)
  ultimately show ?thesis using assms(4) by (simp add: source_inv_def)
qed


section \<open>The loop ends\<close>

fun merger_weight :: "merger \<Rightarrow> nat" where
  "merger_weight Receiving = 1"
| "merger_weight (Sending d) = 2"
| "merger_weight MergerReturned = 0"

definition send_weight :: "send_loop \<Rightarrow> nat" where
  "send_weight s =
     2 * (\<Sum>ch \<leftarrow> sl_sources s. length (sl_q s ch)) + (\<Sum>m \<leftarrow> sl_mergers s. merger_weight m) +
     of_bool (\<not> sl_mergedClosed s) + of_bool (\<not> sl_loopReturned s)"

lemma queue_take:
  assumes "c \<in> set chs" and "q c = d # rest"
  shows "Suc (\<Sum>ch \<leftarrow> chs. length ((q(c := rest)) ch)) \<le> (\<Sum>ch \<leftarrow> chs. length (q ch))"
  using assms
proof (induction chs)
  case (Cons a chs)
  have le: "(\<Sum>ch \<leftarrow> chs. length ((q(c := rest)) ch)) \<le> (\<Sum>ch \<leftarrow> chs. length (q ch))"
    by (rule sum_list_mono) (use assms(2) in auto)
  show ?case
  proof (cases "a = c")
    case True
    then show ?thesis using le assms(2) by simp
  next
    case False
    then show ?thesis using Cons by auto
  qed
qed simp

lemma send_turn_weight:
  assumes "send_turn nextPeers dial s s'" and inv: "send_inv nextPeers dial cm s"
  shows "send_weight s' < send_weight s"
  using assms
proof (induction rule: send_turn.induct)
  case (merger i s pick s')
  have src: "sl_sources s ! i \<in> set (sl_sources s)" using merger by (simp add: send_inv_def)
  note w = weight_update[OF merger(1), of merger_weight]
  show ?case using merger(2) merged_open[OF merger(3,1)]
  proof (cases rule: merger_turn_cases)
    case stop
    then have "merger_weight (sl_mergers s ! i) > 0"
      using merger_turn_live[OF merger(2)] by (cases "sl_mergers s ! i") auto
    then show ?thesis using stop w[of MergerReturned] by (simp add: send_weight_def)
  next
    case drained
    then show ?thesis using w[of MergerReturned] by (simp add: send_weight_def)
  next
    case (take d rest)
    then show ?thesis
      using w[of "Sending d"] queue_take[where q = "sl_q s", OF src take(2)] by (simp add: send_weight_def)
  qed
next
  case (waiter s s')
  then show ?case by (auto simp: waiter_turn_def send_weight_def split: if_splits)
next
  case (loop pick i s s')
  show ?case
  proof (cases "terminating s \<and> pick \<or> sl_mergedClosed s")
    case True
    then show ?thesis using loop(1) by (auto simp: loop_turn_def send_weight_def split: if_splits)
  next
    case False
    then obtain d where "i < length (sl_mergers s)" "sl_mergers s ! i = Sending d"
      and "sl_mergers s' = (sl_mergers s)[i := Receiving]" "sl_q s' = sl_q s" "sl_sources s' = sl_sources s"
        "sl_mergedClosed s' = sl_mergedClosed s" "sl_loopReturned s' = sl_loopReturned s"
      using loop(1) by (auto simp: loop_turn_def split: if_splits merger.splits prod.splits)
    then show ?thesis using weight_update[of i "sl_mergers s" merger_weight Receiving] by (simp add: send_weight_def)
  qed
qed

lemma send_turn_frame:
  assumes "send_turn nextPeers dial s s'"
  shows "cm_lc (sl_cm s') = cm_lc (sl_cm s)" "sl_closed s' = sl_closed s" "sl_produced s' = sl_produced s"
proof -
  have "cm_lc (sl_cm s') = cm_lc (sl_cm s) \<and> sl_closed s' = sl_closed s \<and> sl_produced s' = sl_produced s"
    using assms
  proof (induction rule: send_turn.induct)
    case (merger i s pick s')
    then show ?case by (auto simp: merger_turn_def Let_def split: merger.splits list.splits if_splits)
  next
    case (waiter s s')
    then show ?case by (auto simp: waiter_turn_def split: if_splits)
  next
    case (loop pick i s s')
    have "cm_lc cm = cm_lc (sl_cm s)" if "cm_send nextPeers dial d (sl_cm s) = (cm, out)" for d cm out
      using that cm_send_keeps_lc[of nextPeers dial d "sl_cm s"] by simp
    then show ?case
      using loop by (auto simp: loop_turn_def cm_send_terminate_def split: if_splits merger.splits prod.splits)
  qed
  then show "cm_lc (sl_cm s') = cm_lc (sl_cm s)" "sl_closed s' = sl_closed s" "sl_produced s' = sl_produced s"
    by simp_all
qed

text \<open>A loop that cannot move although its sources are closed, or it was told to end, has ended.\<close>

lemma stuck_has_returned:
  assumes inv: "send_inv nextPeers dial cm s" and stuck: "\<not> (\<exists>s'. send_turn nextPeers dial s s')"
    and ending: "terminating s \<or> (\<forall>ch \<in> set (cm_sendSources cm). sl_closed s ch)"
  shows "sl_loopReturned s"
proof (rule ccontr)
  assume running: "\<not> sl_loopReturned s"
  have returned: "sl_mergers s ! i = MergerReturned" if i: "i < length (sl_mergers s)" for i
  proof (rule ccontr)
    assume live: "sl_mergers s ! i \<noteq> MergerReturned"
    have src: "sl_sources s ! i \<in> set (cm_sendSources cm)" using inv i by (simp add: send_inv_def)
    have panics: "merger_turn True i s \<noteq> Some (Inl p)" for p
      using merged_open[OF inv i] live by (auto elim!: merger_turn_cases)
    have blocked: "merger_turn True i s = None"
      using stuck send_turn.merger[OF i] panics by (metis obj_sumE option.exhaust)
    have offers: "sl_mergers s ! i \<noteq> Sending d" for d
    proof
      assume m: "sl_mergers s ! i = Sending d"
      have "\<exists>s'. loop_turn nextPeers dial True i s = Some s'"
        using running i m by (auto simp: loop_turn_def split: prod.splits)
      then show False using stuck send_turn.loop by metis
    qed
    show False
      using blocked live offers ending src
      by (cases "sl_mergers s ! i") (auto simp: merger_turn_def Let_def split: list.splits if_splits)
  qed
  then have all: "list_all (\<lambda>m. m = MergerReturned) (sl_mergers s)" by (simp add: list_all_length)
  show False
  proof (cases "sl_mergedClosed s")
    case True
    then have "\<exists>s'. loop_turn nextPeers dial True 0 s = Some s'" using running by (simp add: loop_turn_def)
    then show False using stuck send_turn.loop by metis
  next
    case False
    then have "\<exists>s'. waiter_turn s = Some s'" using all by (simp add: waiter_turn_def)
    then show False using stuck send_turn.waiter by metis
  qed
qed

interpretation send_end: winding_down
  "\<lambda>s. send_inv nextPeers dial cm s \<and> distinct (cm_sendSources cm) \<and> sl_produced s = produced"
  "\<lambda>s. terminating s \<or> (\<forall>ch \<in> set (cm_sendSources cm). sl_closed s ch)"
  "\<lambda>s. sl_loopReturned s \<and> (terminating s \<or> (\<forall>ch \<in> set (cm_sendSources cm). handled_of s ch = produced ch))"
  "send_turn nextPeers dial" send_weight
  for nextPeers dial cm produced
proof
  fix s s'
  assume inv: "send_inv nextPeers dial cm s \<and> distinct (cm_sendSources cm) \<and> sl_produced s = produced"
  show "send_turn nextPeers dial s s' \<Longrightarrow>
      send_inv nextPeers dial cm s' \<and> distinct (cm_sendSources cm) \<and> sl_produced s' = produced"
    using inv send_step_inv[OF send_step.turn] send_turn_frame(3) by metis
  show "terminating s \<or> (\<forall>ch \<in> set (cm_sendSources cm). sl_closed s ch) \<Longrightarrow> send_turn nextPeers dial s s' \<Longrightarrow>
      terminating s' \<or> (\<forall>ch \<in> set (cm_sendSources cm). sl_closed s' ch)"
    using send_turn_frame by metis
  show "send_turn nextPeers dial s s' \<Longrightarrow> send_weight s' < send_weight s"
    using send_turn_weight inv by blast
  show "terminating s \<or> (\<forall>ch \<in> set (cm_sendSources cm). sl_closed s ch) \<Longrightarrow> \<nexists>s'. send_turn nextPeers dial s s' \<Longrightarrow>
      sl_loopReturned s \<and> (terminating s \<or> (\<forall>ch \<in> set (cm_sendSources cm). handled_of s ch = produced ch))"
    using stuck_has_returned[of nextPeers dial cm s] source_complete[of nextPeers dial cm s] inv by blast
qed


section \<open>Examples\<close>

text \<open>A multiplexer with one peer and one source, whose user sends a message and closes the source.\<close>

definition example_mux :: cluster_mux where
  "example_mux = (NewMux 1 (NewWatcherMux 10))
     \<lparr>cm_nodes := [(1, \<lparr>node_ID = 1, node_Addr = ''a''\<rparr>), (2, \<lparr>node_ID = 2, node_Addr = ''b''\<rparr>)],
      cm_sendSources := [5]\<rparr>"

abbreviation example_peers :: "uuid \<Rightarrow> nodes \<Rightarrow> cluster_node list \<times> err" where
  "example_peers \<equiv> fullyConnected_NextPeers (\<lambda>ns. ns)"

abbreviation example_dial :: "string \<Rightarrow> err" where
  "example_dial \<equiv> (\<lambda>_. None)"

lemma example_send:
  "cm_send example_peers example_dial [9] example_mux =
     (example_mux\<lparr>cm_conns := (cm_conns example_mux)(2 \<mapsto> ''b'')\<rparr>, [(''b'', [9])])"
  by (simp add: example_mux_def NewMux_def cm_send_def next_peers_filter cm_send_peer_def getOrDialConn_def)

definition example_state :: "merger \<Rightarrow> u8 list list \<Rightarrow> bool \<Rightarrow> bool \<Rightarrow> send_loop" where
  "example_state m q sent closed = (sendLoop example_mux)
     \<lparr>sl_cm := (if sent then example_mux\<lparr>cm_conns := (cm_conns example_mux)(2 \<mapsto> ''b'')\<rparr> else example_mux),
      sl_mergers := [m], sl_q := (\<lambda>_. [])(5 := q), sl_closed := (\<lambda>_. False)(5 := closed),
      sl_written := (if sent then [(''b'', [9])] else []), sl_produced := (\<lambda>_. [])(5 := [[9]]),
      sl_handled := (if sent then [(5, [9])] else [])\<rparr>"

lemma example_lc [simp]: "cm_lc example_mux = lc_new" "cm_sendSources example_mux = [5]"
  by (simp_all add: example_mux_def NewMux_def)

lemma example_run:
  "(send_step example_peers example_dial)\<^sup>*\<^sup>* (sendLoop example_mux)
     ((example_state MergerReturned [] True True)\<lparr>sl_mergedClosed := True, sl_loopReturned := True,
        sl_cm := cm_send_terminate (sl_cm (example_state MergerReturned [] True True))\<rparr>)"
  (is "?R\<^sup>*\<^sup>* _ ?end")
proof -
  note ev = example_state_def sendLoop_def lc_new_def fun_upd_def
  have "?R (sendLoop example_mux) (example_state Receiving [[9]] False False)"
    using send_step.produce[where ch = 5 and s = "sendLoop example_mux" and d = "[9]"] by (simp add: ev cong: if_cong)
  moreover have "?R (example_state Receiving [[9]] False False) (example_state (Sending [9]) [] False False)"
    by (rule send_step.turn, rule send_turn.merger[of 0 _ True]) (auto simp: ev merger_turn_def)
  moreover have "?R (example_state (Sending [9]) [] False False) (example_state Receiving [] True False)"
    by (rule send_step.turn, rule send_turn.loop[where pick = True and i = 0])
      (simp add: loop_turn_def example_state_def sendLoop_def lc_new_def example_send)
  moreover have "?R (example_state Receiving [] True False) (example_state Receiving [] True True)"
    using send_step.close_source[where ch = 5 and s = "example_state Receiving [] True False"]
    by (simp add: example_state_def sendLoop_def)
  moreover have "?R (example_state Receiving [] True True) (example_state MergerReturned [] True True)"
    by (rule send_step.turn, rule send_turn.merger[of 0 _ True]) (auto simp: ev merger_turn_def)
  moreover have "?R (example_state MergerReturned [] True True) ((example_state MergerReturned [] True True)\<lparr>sl_mergedClosed := True\<rparr>)"
    by (rule send_step.turn, rule send_turn.waiter) (simp add: ev waiter_turn_def)
  moreover have "?R ((example_state MergerReturned [] True True)\<lparr>sl_mergedClosed := True\<rparr>) ?end"
    by (rule send_step.turn, rule send_turn.loop[where pick = True and i = 0]) (simp add: loop_turn_def ev)
  ultimately show ?thesis by (meson rtranclp.rtrancl_refl converse_rtranclp_into_rtranclp)
qed



end
