(* ===== verification/Datagram.thy ===== *)
theory Datagram
  imports Core_Types
begin

text \<open>
  The datagrams of the load balancer at both ends: the traffic generator
  (\<open>cmd/udplb-traffic-gen/main.go\<close>) that builds and sends them and the echo backend
  (\<open>cmd/udplb-echo-backend/main.go\<close>) that checks, counts and returns them. The sockets,
  \<open>uuid.New\<close> and the text form of an identifier (\<open>UUID.String\<close>) are arguments.
\<close>

section \<open>Building and sending\<close>

definition PacketPrefix :: u32 where
  "PacketPrefix = 0x55554944"

definition PutUint32_le :: "u32 \<Rightarrow> u8 list" where
  "PutUint32_le v = map (\<lambda>i. ucast (drop_bit (8 * i) v)) [0..<4]"

text \<open>
  \<open>BuildPacket\<close> with its buffer of \<open>4 + 16 + payloadSize\<close> zero bytes: a negative length
  cannot be made, and a buffer shorter than the header cannot be sliced.
\<close>

definition BuildPacket :: "uuid \<Rightarrow> int \<Rightarrow> (u8 list) go" where
  "BuildPacket sessionID payloadSize =
     (if 4 + 16 + payloadSize < 0 then Inl MakeSliceLen
      else if 4 + 16 + payloadSize < 20 then Inl IndexOutOfRange
      else Inr (PutUint32_le PacketPrefix @ uuid_bytes sessionID @ replicate (nat payloadSize) 0))"

definition GenerateSessions :: "(nat \<Rightarrow> uuid) \<Rightarrow> nat \<Rightarrow> uuid list" where
  "GenerateSessions newUUID n = map newUUID [0..<n]"

record gen_report =
  rep_TotalSent :: nat
  rep_Sessions :: "string \<rightharpoonup> nat"

text \<open>One tick of the send loop; \<open>sent\<close> is what the socket does with the packet.\<close>

definition gen_tick :: "(uuid \<Rightarrow> string) \<Rightarrow> uuid list \<Rightarrow> u8 list list \<Rightarrow> (u8 list \<Rightarrow> err) \<Rightarrow>
      nat \<times> gen_report \<Rightarrow> (nat \<times> gen_report) go" where
  "gen_tick str sessionIDs packets sent s = (case s of (idx, report) \<Rightarrow>
     if sessionIDs = [] then Inl DivideByZero
     else
       let sessionIdx = idx mod length sessionIDs;
           name = str (sessionIDs ! sessionIdx)
       in if sent (packets ! sessionIdx) \<noteq> None then Inr (Suc idx, report)
          else (case rep_Sessions report name of
                  None \<Rightarrow> Inl NilDereference
                | Some n \<Rightarrow> Inr (Suc idx, report\<lparr>rep_TotalSent := Suc (rep_TotalSent report),
                                rep_Sessions := (rep_Sessions report)(name \<mapsto> Suc n)\<rparr>)))"

text \<open>
  \<open>main\<close> up to its report, for the ticks that come before the end of the duration or a signal. The
  ticker panics when the time between two packets, a second divided by the rate in whole
  nanoseconds, is zero.
  \<open>Inr (Inl 1)\<close> is \<open>os.Exit(1)\<close>; \<open>connect\<close> is the error of resolving or dialing the target.
\<close>

definition gen_main :: "(uuid \<Rightarrow> string) \<Rightarrow> (nat \<Rightarrow> uuid) \<Rightarrow> string \<Rightarrow> int \<Rightarrow> int \<Rightarrow> int \<Rightarrow> err \<Rightarrow> (u8 list \<Rightarrow> err) list \<Rightarrow>
      (nat + gen_report) go" where
  "gen_main str newUUID target sessions rate payloadSize connect ticks =
     (if target = [] \<or> sessions \<le> 0 \<or> rate \<le> 0 \<or> connect \<noteq> None then Inr (Inl 1)
      else
        let sessionIDs = GenerateSessions newUUID (nat sessions)
        in (case foldM (\<lambda>sid ps. case BuildPacket sid payloadSize of Inl e \<Rightarrow> Inl e | Inr p \<Rightarrow> Inr (ps @ [p]))
                   sessionIDs [] of
              Inl e \<Rightarrow> Inl e
            | Inr packets \<Rightarrow>
                if 10 ^ 9 < rate then Inl PanicCall
                else (case foldM (gen_tick str sessionIDs packets) ticks
                        (0, \<lparr>rep_TotalSent = 0,
                             rep_Sessions = fold (\<lambda>sid m. m(str sid \<mapsto> 0)) sessionIDs Map.empty\<rparr>) of
                   Inl e \<Rightarrow> Inl e
                 | Inr (_, report) \<Rightarrow> Inr (Inr report))))"

section \<open>Receiving\<close>

definition MinPacketSize :: nat where
  "MinPacketSize = 20"

definition ParsePacket :: "u8 list \<Rightarrow> uuid \<times> bool" where
  "ParsePacket bytes =
     (if length bytes < MinPacketSize then (0, False)
      else if uint32_of_bytes LittleEndian (bytes ! 0) (bytes ! 1) (bytes ! 2) (bytes ! 3) \<noteq> PacketPrefix
      then (0, False)
      else (uuid_of_bytes (take 16 (drop 4 bytes)), True))"

text \<open>A remote address is the text of its IP and a port; \<open>None\<close> is a nil address.\<close>

type_synonym addr = "string \<times> nat"

record stats =
  TotalReceived :: nat
  Sessions :: "(uuid \<times> nat) list"
  SourceIPs :: "string set"

definition NewStats :: stats where
  "NewStats = \<lparr>TotalReceived = 0, Sessions = [], SourceIPs = {}\<rparr>"

definition count_of :: "(uuid \<times> nat) list \<Rightarrow> uuid \<Rightarrow> nat" where
  "count_of m sid = (case map_of m sid of None \<Rightarrow> 0 | Some n \<Rightarrow> n)"

definition Record :: "uuid \<Rightarrow> addr option \<Rightarrow> stats \<Rightarrow> stats" where
  "Record sessionID sourceAddr s =
     s\<lparr>TotalReceived := Suc (TotalReceived s),
       Sessions := map_put sessionID (Suc (count_of (Sessions s) sessionID)) (Sessions s),
       SourceIPs := (case sourceAddr of None \<Rightarrow> SourceIPs s | Some (ip, _) \<Rightarrow> insert ip (SourceIPs s))\<rparr>"

record stats_report =
  report_TotalReceived :: nat
  report_UniqueSessions :: nat
  report_Sessions :: "string \<rightharpoonup> nat"

definition Snapshot :: "(uuid \<Rightarrow> string) \<Rightarrow> (uuid \<times> nat) map_order \<Rightarrow> stats \<Rightarrow> stats_report" where
  "Snapshot str ord s =
     \<lparr>report_TotalReceived = TotalReceived s, report_UniqueSessions = length (Sessions s),
      report_Sessions = fold (\<lambda>(sid, n) m. m(str sid \<mapsto> n)) (ord (Sessions s)) Map.empty\<rparr>"

text \<open>
  One round of the receive loop, before the shutdown: what the socket returned, and the packets
  that were echoed so far.
\<close>

definition echo_receive :: "go_error + u8 list \<times> addr option \<Rightarrow> stats \<times> (addr \<times> u8 list) list \<Rightarrow>
      stats \<times> (addr \<times> u8 list) list" where
  "echo_receive r w = (case w of (s, echoed) \<Rightarrow>
     (case r of
        Inl _ \<Rightarrow> (s, echoed)
      | Inr (bytes, remoteAddr) \<Rightarrow>
          (case ParsePacket bytes of
             (_, False) \<Rightarrow> (s, echoed)
           | (sid, True) \<Rightarrow>
               (Record sid remoteAddr s,
                (case remoteAddr of None \<Rightarrow> echoed | Some a \<Rightarrow> echoed @ [(a, bytes)])))))"

text \<open>
  \<open>main\<close>, for the reads up to the signal: the exit status 1, or the final report and what was
  echoed. The periodic reports only print other snapshots, but their ticker panics when the interval
  is not positive. \<open>resolve\<close> and \<open>listen\<close> are the errors of opening the socket.
\<close>

definition echo_main :: "(uuid \<Rightarrow> string) \<Rightarrow> (uuid \<times> nat) map_order \<Rightarrow> int \<Rightarrow> err \<Rightarrow> err \<Rightarrow>
      (go_error + u8 list \<times> addr option) list \<Rightarrow> (nat + stats_report \<times> (addr \<times> u8 list) list) go" where
  "echo_main str ord reportInterval resolve listen reads =
     (if resolve \<noteq> None \<or> listen \<noteq> None then Inr (Inl 1)
      else if reportInterval \<le> 0 then Inl PanicCall
      else (case fold echo_receive reads (NewStats, []) of
              (s, echoed) \<Rightarrow> Inr (Inr (Snapshot str ord s, echoed))))"

section \<open>The format\<close>

lemma uint32_le_roundtrip:
  "uint32_of_bytes LittleEndian (PutUint32_le v ! 0) (PutUint32_le v ! 1) (PutUint32_le v ! 2) (PutUint32_le v ! 3) = v"
proof (rule bit_word_eqI)
  fix k assume "k < LENGTH(32)"
  then consider "k < 8" | "8 \<le> k" "k < 16" | "16 \<le> k" "k < 24" | "24 \<le> k" "k < 32"
    by fastforce
  then show "bit (uint32_of_bytes LittleEndian (PutUint32_le v ! 0) (PutUint32_le v ! 1)
      (PutUint32_le v ! 2) (PutUint32_le v ! 3)) k = bit v k"
    by cases (auto simp: uint32_of_bytes_def PutUint32_le_def bit_simps not_le)
qed

lemma length_PutUint32_le [simp]: "length (PutUint32_le v) = 4"
  by (simp add: PutUint32_le_def)

lemma ParsePacket_header:
  "ParsePacket (PutUint32_le PacketPrefix @ uuid_bytes sid @ payload) = (sid, True)"
  using uint32_le_roundtrip[of PacketPrefix]
  by (simp add: ParsePacket_def MinPacketSize_def nth_append)

lemma uint32_le_bytes:
  "PutUint32_le (uint32_of_bytes LittleEndian b0 b1 b2 b3) = [b0, b1, b2, b3]"
proof -
  have "ucast (drop_bit (8 * i) (uint32_of_bytes LittleEndian b0 b1 b2 b3)) = [b0, b1, b2, b3] ! i"
    if i: "i < 4" for i
  proof (rule bit_word_eqI)
    fix k assume k: "k < LENGTH(8)"
    consider "i = 0" | "i = 1" | "i = 2" | "i = 3" using i by linarith
    then show "bit (ucast (drop_bit (8 * i) (uint32_of_bytes LittleEndian b0 b1 b2 b3)) :: u8) k =
        bit ([b0, b1, b2, b3] ! i) k"
      using k bit_imp_le_length[of b0] bit_imp_le_length[of b1] bit_imp_le_length[of b2] bit_imp_le_length[of b3]
      by cases (fastforce simp: uint32_of_bytes_def bit_simps)+
  qed
  then show ?thesis by (intro nth_equalityI) (simp_all add: PutUint32_le_def)
qed

lemma ParsePacket_accepts:
  assumes "ParsePacket p = (sid, True)"
  shows "\<exists>payload. p = PutUint32_le PacketPrefix @ uuid_bytes sid @ payload"
proof -
  have len: "20 \<le> length p" and pre: "uint32_of_bytes LittleEndian (p ! 0) (p ! 1) (p ! 2) (p ! 3) = PacketPrefix"
    and sid: "sid = uuid_of_bytes (take 16 (drop 4 p))"
    using assms by (auto simp: ParsePacket_def MinPacketSize_def split: if_splits)
  have "take 4 p = PutUint32_le PacketPrefix"
    using uint32_le_bytes[of "p ! 0" "p ! 1" "p ! 2" "p ! 3"] len unfolding pre
    by (intro nth_equalityI) (auto simp: numeral_eq_Suc less_Suc_eq)
  moreover have "take 16 (drop 4 p) = uuid_bytes sid" using sid len by simp
  moreover have "p = take 4 p @ take 16 (drop 4 p) @ drop 16 (drop 4 p)" by (metis append_take_drop_id)
  ultimately show ?thesis by metis
qed

text \<open>
  C34. The echo backend reads what the traffic generator writes: a packet with any payload parses to
  the session it was built for, and a datagram is accepted exactly when it starts with the prefix
  and an identifier laid out as \<open>BuildPacket\<close> lays them out. A negative payload size panics.
\<close>

theorem datagram_roundtrip:
  "(n \<ge> 0 \<longrightarrow> (\<exists>p. BuildPacket sid n = Inr p \<and> int (length p) = 20 + n \<and> ParsePacket p = (sid, True))) \<and>
   (n < 0 \<longrightarrow> (\<exists>e. BuildPacket sid n = Inl e)) \<and>
   (ParsePacket q = (sid, True) \<longleftrightarrow> (\<exists>hdr payload. BuildPacket sid 0 = Inr hdr \<and> q = hdr @ payload))"
proof -
  have "ParsePacket q = (sid, True) \<longleftrightarrow> (\<exists>hdr payload. BuildPacket sid 0 = Inr hdr \<and> q = hdr @ payload)"
    using ParsePacket_accepts[of q sid] ParsePacket_header[of sid] by (auto simp: BuildPacket_def)
  then show ?thesis using ParsePacket_header[of sid] by (auto simp: BuildPacket_def)
qed

theorem datagram_roundtrip_witness:
  "\<exists>p. BuildPacket 77 3 = Inr p \<and> int (length p) = 23 \<and> ParsePacket p = (77, True)"
  using datagram_roundtrip[of 3 77 "[]"] by force

section \<open>The counts of the echo backend\<close>

definition accepted :: "(go_error + u8 list \<times> addr option) list \<Rightarrow> (uuid \<times> u8 list \<times> addr option) list" where
  "accepted rs = concat (map (\<lambda>r. case r of
       Inl _ \<Rightarrow> []
     | Inr (bytes, a) \<Rightarrow> (case ParsePacket bytes of (sid, ok) \<Rightarrow> if ok then [(sid, bytes, a)] else [])) rs)"

lemma count_of_map_put [simp]:
  "count_of (map_put sid n m) sid' = (if sid' = sid then n else count_of m sid')"
  by (simp add: count_of_def)

lemma sum_map_put:
  assumes "distinct (map fst m)"
  shows "sum_list (map snd (map_put sid (Suc (count_of m sid)) m)) = Suc (sum_list (map snd m))"
  using assms
proof (induction m)
  case (Cons e m)
  obtain k v where e: "e = (k, v)" by fastforce
  have "count_of (e # m) sid = (if k = sid then v else count_of m sid)" by (simp add: count_of_def e)
  then show ?case using Cons e by simp
qed (simp add: count_of_def)

text \<open>What the loop has counted and echoed after the reads \<open>rs\<close>.\<close>

definition echo_counted :: "(go_error + u8 list \<times> addr option) list \<Rightarrow> stats \<times> (addr \<times> u8 list) list \<Rightarrow> bool" where
  "echo_counted rs w \<longleftrightarrow> (case w of (s, echoed) \<Rightarrow>
     distinct (map fst (Sessions s)) \<and> set (map fst (Sessions s)) = fst ` set (accepted rs) \<and>
     TotalReceived s = length (accepted rs) \<and>
     sum_list (map snd (Sessions s)) = TotalReceived s \<and>
     (\<forall>sid. count_of (Sessions s) sid = length (filter (\<lambda>(i, _). i = sid) (accepted rs))) \<and>
     echoed = concat (map (\<lambda>(_, bytes, a). case a of None \<Rightarrow> [] | Some r \<Rightarrow> [(r, bytes)]) (accepted rs)))"

lemma accepted_snoc:
  "accepted (rs @ [r]) = accepted rs @ (case r of
       Inl _ \<Rightarrow> []
     | Inr (bytes, a) \<Rightarrow> (case ParsePacket bytes of (sid, ok) \<Rightarrow> if ok then [(sid, bytes, a)] else []))"
  by (simp add: accepted_def)

lemma echo_receive_counted:
  assumes "echo_counted rs w"
  shows "echo_counted (rs @ [r]) (echo_receive r w)"
proof -
  obtain s echoed where w: "w = (s, echoed)" by fastforce
  consider (error) e where "r = Inl e" | (bad) bytes a sid where "r = Inr (bytes, a)" "ParsePacket bytes = (sid, False)"
    | (good) bytes a sid where "r = Inr (bytes, a)" "ParsePacket bytes = (sid, True)"
    by (metis (full_types) old.sum.exhaust surj_pair)
  then show ?thesis
  proof cases
    case good
    have step: "echo_receive r w = (Record sid a s, (case a of None \<Rightarrow> echoed | Some r \<Rightarrow> echoed @ [(r, bytes)]))"
      by (simp add: echo_receive_def w good)
    have acc: "accepted (rs @ [r]) = accepted rs @ [(sid, bytes, a)]"
      by (simp add: accepted_snoc good)
    show ?thesis
      unfolding step echo_counted_def acc
      using assms sum_map_put[of "Sessions s" sid]
      by (auto simp: echo_counted_def w Record_def keys_map_put[simplified] split: option.splits)
  qed (use assms in \<open>simp_all add: echo_counted_def accepted_snoc echo_receive_def w\<close>)
qed

lemma echo_loop_counted: "echo_counted rs (fold echo_receive rs (NewStats, []))"
proof (induction rs rule: rev_induct)
  case Nil
  then show ?case by (simp add: echo_counted_def NewStats_def accepted_def count_of_def)
next
  case (snoc r rs)
  then show ?case using echo_receive_counted[of rs _ r] by simp
qed

lemma Snapshot_lookup:
  assumes "inj str" and "distinct (map fst xs)"
  shows "fold (\<lambda>(sid, n) m. m(str sid \<mapsto> n)) xs m (str k) = (case map_of xs k of None \<Rightarrow> m (str k) | Some n \<Rightarrow> Some n)"
  using assms(2)
proof (induction xs arbitrary: m)
  case (Cons x xs)
  then have "map_of xs (fst x) = None" by (simp add: map_of_eq_None_iff)
  then show ?case using Cons assms(1) by (cases x) (auto simp: inj_eq split: option.splits)
qed simp

lemma map_order_map_of:
  assumes "is_map_order ord" and "distinct (map fst xs)"
  shows "distinct (map fst (ord xs))" "map_of (ord xs) = map_of xs"
proof -
  have perm: "mset (ord xs) = mset xs" using assms(1) by (simp add: is_map_order_def)
  then have "mset (map fst (ord xs)) = mset (map fst xs)" by simp
  then show d: "distinct (map fst (ord xs))" using assms(2) by (metis mset_eq_imp_distinct_iff)
  show "map_of (ord xs) = map_of xs"
    using d assms(2) mset_eq_setD[OF perm] by (simp add: map_of_inject_set)
qed



section \<open>The rotation of the traffic generator\<close>

lemma build_all:
  assumes "0 \<le> n"
  shows "foldM (\<lambda>sid ps. case BuildPacket sid n of Inl e \<Rightarrow> Inl e | Inr p \<Rightarrow> Inr (ps @ [p])) sids acc =
     Inr (acc @ map (\<lambda>sid. projr (BuildPacket sid n)) sids)"
  using assms by (induction sids arbitrary: acc) (simp_all add: BuildPacket_def)

lemma zero_counts:
  "fold (\<lambda>sid m. m(str sid \<mapsto> (0::nat))) sids m x = (if x \<in> str ` set sids then Some 0 else m x)"
  by (induction sids arbitrary: m) auto

lemma rounds_Suc:
  fixes k n i :: nat
  assumes "i < n"
  shows "(Suc k + n - 1 - i) div n = (k + n - 1 - i) div n + (if k mod n = i then 1 else 0)"
proof -
  have "Suc k + n - 1 - i = Suc (k + n - 1 - i)" using assms by simp
  moreover have "n dvd Suc (k + n - 1 - i) \<longleftrightarrow> k mod n = i"
  proof -
    have "Suc (k + n - 1 - i) = k + (n - i)" using assms by simp
    moreover have "n dvd k + (n - i) \<longleftrightarrow> n dvd (k mod n) + (n - i)" by (simp add: dvd_eq_mod_eq_0 mod_simps)
    moreover have "n dvd (k mod n) + (n - i) \<longleftrightarrow> k mod n = i"
    proof
      assume d: "n dvd (k mod n) + (n - i)"
      then obtain q where q: "k mod n + (n - i) = n * q" by (elim dvdE)
      have "0 < k mod n + (n - i)" "k mod n + (n - i) < n * 2" using assms mod_less_divisor[of n k] by linarith+
      then have "q = 1" using q by (metis One_nat_def Suc_1 less_Suc_eq mult_0_right mult_less_cancel1 nat_neq_iff less_one)
      then show "k mod n = i" using q assms by simp
    next
      assume "k mod n = i"
      then show "n dvd (k mod n) + (n - i)" using assms by simp
    qed
    ultimately show ?thesis by simp
  qed
  ultimately show ?thesis by (simp add: div_Suc dvd_eq_mod_eq_0)
qed

text \<open>The report after \<open>k\<close> successful sends.\<close>

definition rotated :: "(uuid \<Rightarrow> string) \<Rightarrow> uuid list \<Rightarrow> nat \<Rightarrow> gen_report \<Rightarrow> bool" where
  "rotated str ids k report \<longleftrightarrow>
     rep_TotalSent report = k \<and>
     (\<forall>i < length ids. rep_Sessions report (str (ids ! i)) =
        Some ((k + length ids - 1 - i) div length ids))"

lemma gen_tick_rotates:
  assumes "rotated str ids k report" and "ids \<noteq> []" and "distinct ids" and "inj str"
    and "\<And>p. sent p = None"
  shows "\<exists>report'. gen_tick str ids packets sent (k, report) = Inr (Suc k, report') \<and> rotated str ids (Suc k) report'"
proof -
  let ?n = "length ids" and ?j = "k mod length ids"
  have j: "?j < ?n" using assms(2) by simp
  have old: "rep_Sessions report (str (ids ! ?j)) = Some ((k + ?n - 1 - ?j) div ?n)"
    using assms(1) j by (auto simp: rotated_def)
  let ?report = "report\<lparr>rep_TotalSent := Suc (rep_TotalSent report),
      rep_Sessions := (rep_Sessions report)(str (ids ! ?j) \<mapsto> Suc ((k + ?n - 1 - ?j) div ?n))\<rparr>"
  have "gen_tick str ids packets sent (k, report) = Inr (Suc k, ?report)"
    using assms(2,5) old by (simp add: gen_tick_def Let_def)
  moreover have "rep_Sessions ?report (str (ids ! i)) = Some ((Suc k + ?n - 1 - i) div ?n)" if i: "i < ?n" for i
  proof (cases "i = ?j")
    case True
    then show ?thesis using rounds_Suc[OF i, of k] by simp
  next
    case False
    then have "str (ids ! i) \<noteq> str (ids ! ?j)"
      using assms(3,4) i j by (simp add: inj_eq nth_eq_iff_index_eq)
    then show ?thesis
      using False rounds_Suc[OF i, of k] assms(1) i by (simp add: rotated_def)
  qed
  ultimately show ?thesis using assms(1) by (simp add: rotated_def)
qed

lemma gen_ticks_rotate:
  assumes "rotated str ids k report" and "ids \<noteq> []" and "distinct ids" and "inj str"
    and "\<And>sent p. sent \<in> set ticks \<Longrightarrow> sent p = None"
  shows "\<exists>report'. foldM (gen_tick str ids packets) ticks (k, report) = Inr (k + length ticks, report') \<and>
           rotated str ids (k + length ticks) report'"
  using assms(1,5)
proof (induction ticks arbitrary: k report)
  case (Cons sent ticks)
  obtain report1 where tick: "gen_tick str ids packets sent (k, report) = Inr (Suc k, report1)"
    and rot: "rotated str ids (Suc k) report1"
    using gen_tick_rotates[OF Cons.prems(1) assms(2-4), of sent packets] Cons.prems(2) by auto
  obtain report' where "foldM (gen_tick str ids packets) ticks (Suc k, report1) = Inr (Suc k + length ticks, report')"
    "rotated str ids (Suc k + length ticks) report'"
    using Cons.IH[OF rot] Cons.prems(2) by auto
  then show ?case using tick by simp
qed simp

text \<open>
  The traffic generator spreads its packets evenly: with valid flags, distinct sessions and a
  socket that takes every packet, \<open>k\<close> ticks send \<open>k\<close> packets, and session \<open>i\<close> of \<open>n\<close> gets the
  \<open>\<lceil>(k - i) / n\<rceil>\<close> of them that a rotation gives it, so two sessions never differ by more than one.
\<close>

theorem generator_round_robin:
  assumes "target \<noteq> []" and "0 < sessions" and "0 < rate \<and> rate \<le> 10 ^ 9" and "0 \<le> payloadSize"
    and "distinct (GenerateSessions newUUID (nat sessions))" and "inj str"
    and "\<And>sent p. sent \<in> set ticks \<Longrightarrow> sent p = None"
  shows "\<exists>report. gen_main str newUUID target sessions rate payloadSize None ticks = Inr (Inr report) \<and>
           rep_TotalSent report = length ticks \<and>
           (\<forall>i < nat sessions. rep_Sessions report (str (newUUID i)) =
              Some ((length ticks + nat sessions - 1 - i) div nat sessions))"
proof -
  let ?ids = "GenerateSessions newUUID (nat sessions)"
  let ?report = "\<lparr>rep_TotalSent = 0, rep_Sessions = fold (\<lambda>sid m. m(str sid \<mapsto> 0)) ?ids Map.empty\<rparr>"
  have len: "length ?ids = nat sessions" by (simp add: GenerateSessions_def)
  have ids: "?ids ! i = newUUID i" if "i < nat sessions" for i
    using that by (simp add: GenerateSessions_def)
  have ne: "?ids \<noteq> []" using len assms(2) by auto
  have "rotated str ?ids 0 ?report"
    using zero_counts[of str ?ids Map.empty] by (simp add: rotated_def)
  from gen_ticks_rotate[OF this ne assms(5,6)]
  obtain report where "foldM (gen_tick str ?ids (map (\<lambda>sid. projr (BuildPacket sid payloadSize)) ?ids)) ticks (0, ?report) =
      Inr (length ticks, report)" "rotated str ?ids (length ticks) report"
    using assms(7) by force
  then show ?thesis
    using build_all[OF assms(4), of ?ids "[]"] assms(1-3) len ids
    by (auto simp: gen_main_def rotated_def Let_def)
qed

text \<open>
  Flags that are not checked make the tools panic: a rate above a thousand million, with an
  otherwise valid command line, and a report interval that is not positive.
\<close>

theorem unchecked_flags_panic:
  assumes "target \<noteq> []" and "0 < sessions" and "10 ^ 9 < rate" and "0 \<le> payloadSize" and "reportInterval \<le> 0"
  shows "gen_main str newUUID target sessions rate payloadSize None ticks = Inl PanicCall \<and>
         echo_main str ord reportInterval None None rs = Inl PanicCall"
  using assms build_all[OF assms(4), of "GenerateSessions newUUID (nat sessions)" "[]"]
  by (simp add: gen_main_def echo_main_def Let_def)

theorem unchecked_flags_panic_witness:
  "gen_main (\<lambda>_. []) of_nat ''vip:1'' 2 2000000000 0 None [] = Inl PanicCall \<and>
   echo_main (\<lambda>_. []) rev 0 None None [] = Inl PanicCall"
  by (rule unchecked_flags_panic) simp_all

theorem generator_round_robin_witness:
  "\<exists>report. gen_main (\<lambda>u. replicate (unat u) (CHR ''x'')) of_nat ''vip:1'' 2 100 0 None
       [\<lambda>_. None, \<lambda>_. None, \<lambda>_. None] = Inr (Inr report) \<and> rep_TotalSent report = 3"
proof -
  have inj: "inj (\<lambda>u :: uuid. replicate (unat u) (CHR ''x''))"
    by (rule injI) (metis length_replicate word_unat_eq_iff)
  have dist: "distinct (GenerateSessions (of_nat :: nat \<Rightarrow> uuid) (nat 2))"
    by (simp add: GenerateSessions_def numeral_eq_Suc)
  show ?thesis
    using generator_round_robin[OF _ _ _ _ dist inj, of "''vip:1''" 100 0 "[\<lambda>_. None, \<lambda>_. None, \<lambda>_. None]"]
    by force
qed

end
