(* ===== verification/Xdp.thy ===== *)
theory Xdp
  imports Bpf_Manager Datagram
begin

text \<open>
  The data plane: the XDP program \<open>internal/adapter/bpf/udplb_kern.c\<close> with its helpers
  (\<open>udplb_kern_helpers.c\<close>), on a little-endian machine. A frame is the list of its bytes; the
  headers are read and written at their fixed offsets: Ethernet 0, IPv4 14, UDP 34, the prefix 42,
  the session 46, the rest 62. The checksum helper \<open>bpf_csum_diff\<close> of the kernel is an argument,
  and so is whether the ring buffer and the session map have room.
\<close>

section \<open>Maps\<close>

text \<open>The pairs of buffers, the pointer that selects one of each pair, and the ring buffer.\<close>

record xdp_maps =
  active_pointer :: u8
  backend_list_a :: "backend_spec_t list"
  backend_list_b :: "backend_spec_t list"
  lookup_table_a :: "nat list"
  lookup_table_b :: "nat list"
  session_map_a :: session_map
  session_map_b :: session_map
  assignment_ringbuf :: "assignment list"

definition get_active_backend_list :: "xdp_maps \<Rightarrow> backend_spec_t list" where
  "get_active_backend_list m = (if active_pointer m = 0 then backend_list_a m else backend_list_b m)"

definition get_active_lookup_table :: "xdp_maps \<Rightarrow> nat list" where
  "get_active_lookup_table m = (if active_pointer m = 0 then lookup_table_a m else lookup_table_b m)"

definition get_active_sessions :: "xdp_maps \<Rightarrow> session_map" where
  "get_active_sessions m = (if active_pointer m = 0 then session_map_a m else session_map_b m)"

definition set_active_session :: "uuid \<Rightarrow> nat \<Rightarrow> xdp_maps \<Rightarrow> xdp_maps" where
  "set_active_session s i m =
     (if active_pointer m = 0 then m\<lparr>session_map_a := (session_map_a m)(s \<mapsto> i)\<rparr>
      else m\<lparr>session_map_b := (session_map_b m)(s \<mapsto> i)\<rparr>)"

text \<open>\<open>bpf_map_lookup_elem\<close> on an array map: every index below its size has a value.\<close>

definition lookup_elem :: "'a list \<Rightarrow> nat \<Rightarrow> 'a option" where
  "lookup_elem xs i = (if i < length xs then Some (xs ! i) else None)"

section \<open>Packet helpers\<close>

type_synonym packet = "u8 list"

definition UDPLB_PACKET_PREFIX :: u32 where
  "UDPLB_PACKET_PREFIX = push_bit 24 0x55 + push_bit 16 0x55 + push_bit 8 0x49 + 0x44"

definition read16 :: "packet \<Rightarrow> nat \<Rightarrow> u16" where
  "read16 p off = ucast (p ! off) OR push_bit 8 (ucast (p ! (off + 1)))"

definition read32 :: "packet \<Rightarrow> nat \<Rightarrow> u32" where
  "read32 p off = uint32_of_bytes LittleEndian (p ! off) (p ! (off + 1)) (p ! (off + 2)) (p ! (off + 3))"

definition bytes16 :: "u16 \<Rightarrow> u8 list" where
  "bytes16 v = [ucast v, ucast (drop_bit 8 v)]"

definition bpf_htons :: "u16 \<Rightarrow> u16" where
  "bpf_htons v = push_bit 8 v OR drop_bit 8 v"

definition write_bytes :: "nat \<Rightarrow> u8 list \<Rightarrow> packet \<Rightarrow> packet" where
  "write_bytes off bs p = take off p @ bs @ drop (off + length bs) p"

definition must_loadbalance :: "packet \<Rightarrow> u32 \<Rightarrow> u16 \<Rightarrow> bool" where
  "must_loadbalance p lb_addr lb_port \<longleftrightarrow>
     14 \<le> length p \<and> read16 p 12 = bpf_htons 0x0800 \<and>
     34 \<le> length p \<and> read32 p 30 = lb_addr \<and> p ! 23 = 17 \<and>
     42 \<le> length p \<and> read16 p 36 = bpf_htons lb_port \<and>
     62 \<le> length p \<and> read32 p 42 = UDPLB_PACKET_PREFIX"

text \<open>\<open>csum\<close>: the four rounds that fold the carries into 16 bits.\<close>

definition fold_carry :: "int \<Rightarrow> int" where
  "fold_carry c = c mod 65536 + c div 65536"

definition csum :: "(u8 list \<Rightarrow> int) \<Rightarrow> u8 list \<Rightarrow> u16" where
  "csum bpf_csum_diff hdr = NOT (word_of_int ((fold_carry ^^ 4) (bpf_csum_diff hdr)))"

text \<open>\<open>iph->check = iphdr_csum(iph)\<close>\<close>

definition iphdr_csum :: "(u8 list \<Rightarrow> int) \<Rightarrow> packet \<Rightarrow> packet" where
  "iphdr_csum bpf_csum_diff p =
     (let p = write_bytes 24 [0, 0] p
      in write_bytes 24 (bytes16 (csum bpf_csum_diff (take 20 (drop 14 p)))) p)"

text \<open>\<open>char\<close> is signed: a byte above 127 is extended with ones.\<close>

definition fast_hash :: "u8 list \<Rightarrow> u32" where
  "fast_hash str = fold (\<lambda>c hash. scast c + push_bit 6 hash + push_bit 16 hash - hash) str 0"

definition hash_modulo :: "uuid \<Rightarrow> nat \<Rightarrow> nat" where
  "hash_modulo s z = unat (fast_hash (uuid_bytes s)) mod z"

section \<open>The program\<close>

datatype xdp_action = XDP_PASS | XDP_DROP | XDP_TX

definition session_of :: "packet \<Rightarrow> uuid" where
  "session_of p = uuid_of_bytes (take 16 (drop 46 p))"

definition rewrite_packet :: "(u8 list \<Rightarrow> int) \<Rightarrow> udplb_config \<Rightarrow> backend_spec_t \<Rightarrow> packet \<Rightarrow> packet" where
  "rewrite_packet bpf_csum_diff config b p =
     (let p = write_bytes 6 (uc_Mac config) p;
          p = write_bytes 0 (bs_Mac b) p;
          p = write_bytes 30 (PutUint32_le (bs_Ip b)) p;
          p = write_bytes 36 (bytes16 (bpf_htons (bs_Port b))) p;
          p = iphdr_csum bpf_csum_diff p
      in write_bytes 40 [0, 0] p)"

text \<open>The record of a new session: \<open>reserved\<close> and \<open>mapped\<close> say whether there was room.\<close>

definition persist :: "bool \<Rightarrow> bool \<Rightarrow> uuid \<Rightarrow> nat \<Rightarrow> backend_spec_t \<Rightarrow> xdp_maps \<Rightarrow> xdp_maps" where
  "persist reserved mapped s i b m =
     (let m = (if reserved then m\<lparr>assignment_ringbuf := assignment_ringbuf m @ [\<lparr>BackendId = bs_Id b, SessionId = s\<rparr>]\<rparr> else m)
      in if mapped then set_active_session s i m else m)"

definition udplb :: "(u8 list \<Rightarrow> int) \<Rightarrow> udplb_config \<Rightarrow> bool \<Rightarrow> bool \<Rightarrow> packet \<Rightarrow> xdp_maps \<Rightarrow>
      xdp_action \<times> packet \<times> xdp_maps" where
  "udplb bpf_csum_diff config reserved mapped p m =
     (if \<not> must_loadbalance p (uc_Ip config) (uc_Port config) then (XDP_PASS, p, m)
      else if take 6 (drop 6 p) = uc_Mac config then (XDP_DROP, p, m)
      else if p ! 22 \<le> 1 then (XDP_DROP, p, m)
      else
        let p = p[22 := p ! 22 - 1];
            backends = get_active_backend_list m;
            lup = get_active_lookup_table m;
            sess = get_active_sessions m;
            session_id = session_of p;
            lup_key = hash_modulo session_id (uc_LookupTableSize config);
            new_session = (sess session_id = None)
        in (case (if new_session then lookup_elem lup lup_key else sess session_id) of
              None \<Rightarrow> (XDP_PASS, p, m)
            | Some backend_idx \<Rightarrow>
                (case lookup_elem backends backend_idx of
                   None \<Rightarrow> (XDP_PASS, p, m)
                 | Some backend \<Rightarrow>
                     (XDP_TX, rewrite_packet bpf_csum_diff config backend p,
                      if new_session then persist reserved mapped session_id backend_idx backend m else m))))"

section \<open>Reading and writing bytes\<close>

lemma length_write_bytes [simp]: "off + length bs \<le> length p \<Longrightarrow> length (write_bytes off bs p) = length p"
  by (simp add: write_bytes_def)

lemma nth_write_bytes:
  assumes "off + length bs \<le> length p" and "i < length p"
  shows "write_bytes off bs p ! i = (if off \<le> i \<and> i < off + length bs then bs ! (i - off) else p ! i)"
  using assms by (auto simp: write_bytes_def nth_append min_def)

lemma length_bytes16 [simp]: "length (bytes16 v) = 2"
  by (simp add: bytes16_def)

lemma read16_bytes16: "read16 (bytes16 v) 0 = v"
proof (rule bit_word_eqI)
  fix k assume "k < LENGTH(16)"
  then consider "k < 8" | "8 \<le> k" "k < 16" by fastforce
  then show "bit (read16 (bytes16 v) 0) k = bit v k"
    by cases (auto simp: read16_def bytes16_def bit_simps not_le)
qed

lemma read16_bpf_htons: "read16 [a, b] 0 = bpf_htons v \<longleftrightarrow> a = ucast (drop_bit 8 v) \<and> b = ucast v"
proof -
  have "read16 [a, b] 0 = bpf_htons v \<longleftrightarrow> bytes16 (read16 [a, b] 0) = bytes16 (bpf_htons v)"
    by (metis read16_bytes16)
  moreover have "bytes16 (read16 [a, b] 0) = [a, b]"
    using bit_imp_le_length[of a] bit_imp_le_length[of b]
    by (fastforce simp: bytes16_def read16_def bit_simps intro!: bit_word_eqI)
  moreover have "bytes16 (bpf_htons v) = [ucast (drop_bit 8 v), ucast v]"
    by (auto simp: bytes16_def bpf_htons_def bit_simps intro!: bit_word_eqI dest: bit_imp_le_length)
  ultimately show ?thesis by auto
qed

section \<open>The rewritten packet\<close>

lemma length_iphdr_csum [simp]: "62 \<le> length p \<Longrightarrow> length (iphdr_csum f p) = length p"
  by (simp add: iphdr_csum_def Let_def)

lemma length_rewrite_packet [simp]:
  assumes "62 \<le> length p" and "length (uc_Mac config) = 6" and "length (bs_Mac b) = 6"
  shows "length (rewrite_packet f config b p) = length p"
  using assms by (simp add: rewrite_packet_def Let_def)

text \<open>Every byte of the packet that leaves, the two bytes of the IP checksum apart.\<close>

lemma nth_rewrite_packet:
  assumes "62 \<le> length p" and "length (uc_Mac config) = 6" and "length (bs_Mac b) = 6" 
    and "i < length p" and "i \<noteq> 24" and "i \<noteq> 25"
  shows "rewrite_packet f config b p ! i =
     (if i < 6 then bs_Mac b ! i
      else if i < 12 then uc_Mac config ! (i - 6)
      else if 30 \<le> i \<and> i < 34 then PutUint32_le (bs_Ip b) ! (i - 30)
      else if 36 \<le> i \<and> i < 38 then bytes16 (bpf_htons (bs_Port b)) ! (i - 36)
      else if 40 \<le> i \<and> i < 42 then 0
      else p ! i)"
proof -
  have two: "[0, 0] ! (i - 40) = (0 :: u8)" if "40 \<le> i" "i < 42"
    using that by (cases "i = 40") (auto simp: nth_Cons')
  show ?thesis
    using assms two by (auto simp: rewrite_packet_def iphdr_csum_def nth_write_bytes Let_def)
qed

section \<open>Checksums\<close>

text \<open>The sums of the 16-bit words of a header, in the order of the network and of the machine.\<close>

fun be_sum :: "u8 list \<Rightarrow> int" where
  "be_sum (a # b # xs) = 256 * uint a + uint b + be_sum xs"
| "be_sum _ = 0"

fun le_sum :: "u8 list \<Rightarrow> int" where
  "le_sum (a # b # xs) = uint a + 256 * uint b + le_sum xs"
| "le_sum _ = 0"

text \<open>
  What the program relies on: the helper returns the one's complement sum of the header, as 32-bit
  words in the order of the machine.
\<close>

definition ones_complement_sum :: "(u8 list \<Rightarrow> int) \<Rightarrow> bool" where
  "ones_complement_sum f \<longleftrightarrow>
     (\<forall>hdr. length hdr mod 4 = 0 \<longrightarrow>
        0 \<le> f hdr \<and> f hdr < 2 ^ 32 \<and> f hdr mod 65535 = le_sum hdr mod 65535 \<and> (f hdr = 0 \<longrightarrow> le_sum hdr = 0))"

text \<open>A receiver accepts a header whose words, the checksum included, add up to all ones.\<close>

definition checksum_valid :: "u8 list \<Rightarrow> bool" where
  "checksum_valid hdr \<longleftrightarrow> (fold_carry ^^ 4) (be_sum hdr) = 0xffff"

lemma fold_carry_mod: "fold_carry c mod 65535 = c mod 65535"
proof -
  have "c = fold_carry c + (c div 65536) * 65535" by (simp add: fold_carry_def)
  then show ?thesis by (metis mod_mult_self3 add.commute mod_mult_self1)
qed

lemma fold_carry_bounds:
  assumes "0 \<le> c" and "c < 65536 * m"
  shows "0 \<le> fold_carry c" and "fold_carry c \<le> 65534 + m" and "fold_carry c = 0 \<longleftrightarrow> c = 0"
    and "c \<le> 131070 \<Longrightarrow> fold_carry c \<le> 65535"
proof -
  define q r where "q = c div 65536" and "r = c mod 65536"
  have c: "c = 65536 * q + r" and r: "0 \<le> r" "r < 65536" and q: "0 \<le> q"
    and f: "fold_carry c = r + q"
    using assms(1) by (simp_all add: q_def r_def fold_carry_def)
  show "0 \<le> fold_carry c" "fold_carry c \<le> 65534 + m" "fold_carry c = 0 \<longleftrightarrow> c = 0"
    "c \<le> 131070 \<Longrightarrow> fold_carry c \<le> 65535"
    unfolding f using c r q assms(2) by linarith+
qed

lemma fold_carry_range:
  assumes "0 \<le> c" and "c < 2 ^ 32"
  shows "0 \<le> (fold_carry ^^ 4) c" and "(fold_carry ^^ 4) c \<le> 65535"
    and "(fold_carry ^^ 4) c mod 65535 = c mod 65535" and "(fold_carry ^^ 4) c = 0 \<longleftrightarrow> c = 0"
proof -
  define c1 c2 c3 where "c1 = fold_carry c" and "c2 = fold_carry c1" and "c3 = fold_carry c2"
  have c4: "(fold_carry ^^ 4) c = fold_carry c3" by (simp add: numeral_eq_Suc c1_def c2_def c3_def)
  have b1: "0 \<le> c1" "c1 \<le> 131070" "c1 = 0 \<longleftrightarrow> c = 0"
    using fold_carry_bounds[of c 65536] assms by (simp_all add: c1_def)
  have b2: "0 \<le> c2" "c2 \<le> 65535" "c2 = 0 \<longleftrightarrow> c = 0"
    using fold_carry_bounds[of c1 2] b1 by (simp_all add: c2_def)
  have b3: "0 \<le> c3" "c3 \<le> 65535" "c3 = 0 \<longleftrightarrow> c = 0"
    using fold_carry_bounds[of c2 2] b2 by (simp_all add: c3_def)
  show "0 \<le> (fold_carry ^^ 4) c" "(fold_carry ^^ 4) c \<le> 65535" "(fold_carry ^^ 4) c = 0 \<longleftrightarrow> c = 0"
    using fold_carry_bounds[of c3 2] b3 by (simp_all add: c4)
  show "(fold_carry ^^ 4) c mod 65535 = c mod 65535"
    by (simp add: c4 c3_def c2_def c1_def fold_carry_mod)
qed

lemma be_le_sum: "be_sum hdr mod 65535 = (256 * le_sum hdr) mod 65535"
proof (induction hdr rule: be_sum.induct)
  case (1 a b xs)
  have "256 * le_sum (a # b # xs) = (256 * uint a + uint b + 256 * le_sum xs) + uint b * 65535"
    by (simp add: algebra_simps)
  then have "(256 * le_sum (a # b # xs)) mod 65535 = (256 * uint a + uint b + 256 * le_sum xs) mod 65535"
    by (simp only: mod_mult_self1)
  also have "\<dots> = (256 * uint a + uint b + be_sum xs) mod 65535"
    using 1 by (metis mod_add_cong)
  finally show ?case by simp
qed simp_all

lemma le_sum_nonneg: "0 \<le> le_sum hdr" "le_sum hdr \<le> 65535 * int (length hdr)"
proof (induction hdr rule: le_sum.induct)
  case (1 a b xs)
  { case 1 then show ?case using "1.IH" by simp }
  { case 2 then show ?case using "1.IH"(2) uint_bounded[of a] uint_bounded[of b] by simp }
qed simp_all

lemma be_sum_pos: "be_sum hdr = 0 \<longleftrightarrow> le_sum hdr = 0" "0 \<le> be_sum hdr" "be_sum hdr \<le> 65535 * int (length hdr)"
proof (induction hdr rule: be_sum.induct)
  case (1 a b xs)
  { case 1 then show ?case using "1.IH" le_sum_nonneg(1)[of xs] by (simp add: add_nonneg_eq_0_iff) }
  { case 2 then show ?case using "1.IH" by simp }
  { case 3 then show ?case using "1.IH"(3) uint_bounded[of a] uint_bounded[of b] by simp }
qed simp_all

lemma checksum_valid_iff:
  assumes "length hdr \<le> 60"
  shows "checksum_valid hdr \<longleftrightarrow> le_sum hdr mod 65535 = 0 \<and> le_sum hdr \<noteq> 0"
proof -
  let ?y = "(fold_carry ^^ 4) (be_sum hdr)"
  have "0 \<le> be_sum hdr" "be_sum hdr < 2 ^ 32" using be_sum_pos(2,3)[of hdr] assms by simp_all
  note y = fold_carry_range[OF this]
  have "?y = 65535 \<longleftrightarrow> ?y mod 65535 = 0 \<and> ?y \<noteq> 0"
    using y(1,2) mod_pos_pos_trivial[of ?y 65535] by auto
  then have "checksum_valid hdr \<longleftrightarrow> be_sum hdr mod 65535 = 0 \<and> be_sum hdr \<noteq> 0"
    using y(3,4) by (simp add: checksum_valid_def)
  moreover have "be_sum hdr mod 65535 = 0 \<longleftrightarrow> le_sum hdr mod 65535 = 0"
  proof -
    have "coprime (65535 :: int) 256" by code_simp
    then have "65535 dvd 256 * le_sum hdr \<longleftrightarrow> 65535 dvd le_sum hdr"
      by (rule coprime_dvd_mult_right_iff)
    then show ?thesis using be_le_sum[of hdr] by (simp add: dvd_eq_mod_eq_0)
  qed
  ultimately show ?thesis using be_sum_pos(1)[of hdr] by simp
qed

lemma le_sum_append: "even (length xs) \<Longrightarrow> le_sum (xs @ ys) = le_sum xs + le_sum ys"
  by (induction xs rule: le_sum.induct) simp_all

lemma le_sum_bytes16: "le_sum (bytes16 v) = uint v"
proof -
  have "uint (ucast v :: u8) = uint v mod 256"
    by (simp add: unsigned_ucast_eq take_bit_eq_mod)
  moreover have "uint (ucast (drop_bit 8 v) :: u8) = uint v div 256 mod 256"
    by (simp add: unsigned_ucast_eq take_bit_eq_mod drop_bit_eq_div uint_div)
  moreover have "uint v div 256 mod 256 = uint v div 256"
    using uint_bounded[of v] by (intro mod_pos_pos_trivial) (auto simp: pos_imp_zdiv_nonneg_iff)
  ultimately show ?thesis by (simp add: bytes16_def)
qed

lemma le_sum_write16:
  assumes "even off" and "off + 2 \<le> length hdr"
  shows "le_sum (write_bytes off (bytes16 v) hdr) = le_sum (write_bytes off [0, 0] hdr) + uint v"
  using assms by (simp add: write_bytes_def le_sum_append le_sum_bytes16)

lemma csum_complements:
  assumes "ones_complement_sum f" and "length hdr = 20" and "hdr0 = write_bytes 10 [0, 0] hdr" and "le_sum hdr0 \<noteq> 0"
  shows "checksum_valid (write_bytes 10 (bytes16 (csum f hdr0)) hdr0)"
proof -
  have len: "length hdr0 = 20" using assms(2,3) by simp
  have f: "0 \<le> f hdr0" "f hdr0 < 2 ^ 32" "f hdr0 mod 65535 = le_sum hdr0 mod 65535" "f hdr0 \<noteq> 0"
    using assms(1)[unfolded ones_complement_sum_def, rule_format, of hdr0] assms(4) len by auto
  define y where "y = (fold_carry ^^ 4) (f hdr0)"
  note r = fold_carry_range[OF f(1,2), folded y_def]
  have "NOT y = 65535 - y + (- 1) * 65536" by (simp add: not_int_def)
  then have "NOT y mod 65536 = (65535 - y + (- 1) * 65536) mod 65536" by (rule arg_cong)
  also have "\<dots> = 65535 - y" using r(1,2) by (simp only: mod_mult_self1) simp
  finally have v: "uint (csum f hdr0) = 65535 - y"
    by (simp add: csum_def y_def[symmetric] unsigned_not_eq unsigned_of_int take_bit_eq_mod)
  have idem: "write_bytes 10 [0, 0] hdr0 = hdr0"
    using assms(2,3) by (simp add: write_bytes_def)
  have sum: "le_sum (write_bytes 10 (bytes16 (csum f hdr0)) hdr0) = le_sum hdr0 + (65535 - y)"
    using le_sum_write16[of 10 hdr0 "csum f hdr0"] len v idem by simp
  have "65535 dvd le_sum hdr0 - y"
    using f(3) r(3) by (simp add: mod_eq_dvd_iff[symmetric])
  then have "65535 dvd (le_sum hdr0 - y) + 65535" by (rule dvd_add) simp
  then have "(le_sum hdr0 + (65535 - y)) mod 65535 = 0" by (simp add: algebra_simps)
  moreover have "le_sum hdr0 + (65535 - y) \<noteq> 0"
    using le_sum_nonneg(1)[of hdr0] assms(4) r(2) by linarith
  ultimately show ?thesis
    using checksum_valid_iff[of "write_bytes 10 (bytes16 (csum f hdr0)) hdr0"] sum len by simp
qed

lemma iphdr_write: 
  assumes "34 \<le> length p" and "length bs = 2"
  shows "take 20 (drop 14 (write_bytes 24 bs p)) = write_bytes 10 bs (take 20 (drop 14 p))"
  using assms by (intro nth_equalityI) (auto simp: nth_write_bytes)

lemma iphdr_csum_valid:
  assumes "ones_complement_sum f" and "62 \<le> length p" and "p ! 22 \<noteq> 0"
  shows "checksum_valid (take 20 (drop 14 (iphdr_csum f p)))"
proof -
  define hdr0 where "hdr0 = write_bytes 10 [0, 0] (take 20 (drop 14 p))"
  have len: "length (take 20 (drop 14 p)) = 20" using assms(2) by simp
  have "hdr0 ! 8 = p ! 22" "hdr0 ! 9 = p ! 23" "length hdr0 = 20"
    using len assms(2) by (simp_all add: hdr0_def nth_write_bytes)
  then have "hdr0 = take 8 hdr0 @ [p ! 22, p ! 23] @ drop 10 hdr0"
    using id_take_nth_drop[of 8 hdr0] id_take_nth_drop[of 0 "drop 9 hdr0"] by simp
  then have "le_sum hdr0 = le_sum (take 8 hdr0) + (uint (p ! 22) + 256 * uint (p ! 23) + le_sum (drop 10 hdr0))"
    using le_sum_append[of "take 8 hdr0" "[p ! 22, p ! 23] @ drop 10 hdr0"] len by (simp add: hdr0_def)
  moreover have "0 < uint (p ! 22)" using assms(3) word_gt_0[of "p ! 22"] by (simp add: word_less_def)
  ultimately have pos: "le_sum hdr0 \<noteq> 0"
    using le_sum_nonneg(1)[of "take 8 hdr0"] le_sum_nonneg(1)[of "drop 10 hdr0"] uint_ge_0[of "p ! 23"] by linarith
  have "take 20 (drop 14 (iphdr_csum f p)) = write_bytes 10 (bytes16 (csum f hdr0)) hdr0"
    using assms(2) by (simp add: iphdr_csum_def Let_def iphdr_write hdr0_def)
  then show ?thesis using csum_complements[OF assms(1) len hdr0_def pos] by simp
qed

lemma rewrite_checksum:
  assumes "ones_complement_sum f" and "62 \<le> length p" and "length (uc_Mac config) = 6"
    and "length (bs_Mac b) = 6" and "p ! 22 \<noteq> 0"
  shows "checksum_valid (take 20 (drop 14 (rewrite_packet f config b p)))"
proof -
  define q where "q = write_bytes 36 (bytes16 (bpf_htons (bs_Port b)))
      (write_bytes 30 (PutUint32_le (bs_Ip b)) (write_bytes 0 (bs_Mac b) (write_bytes 6 (uc_Mac config) p)))"
  have q: "length q = length p" "q ! 22 = p ! 22"
    using assms(2-4) by (simp_all add: q_def nth_write_bytes)
  have "rewrite_packet f config b p = write_bytes 40 [0, 0] (iphdr_csum f q)"
    by (simp add: rewrite_packet_def q_def Let_def)
  moreover have "take 20 (drop 14 (write_bytes 40 [0, 0] r)) = take 20 (drop 14 r)" if "62 \<le> length r" for r
    using that by (intro nth_equalityI) (simp_all add: nth_write_bytes)
  ultimately show ?thesis
    using iphdr_csum_valid[OF assms(1), of q] assms(2,5) q by simp
qed

section \<open>Routing\<close>

text \<open>The index the program uses for a session, and the packets it does not pass or drop at once.\<close>

definition route :: "udplb_config \<Rightarrow> xdp_maps \<Rightarrow> uuid \<Rightarrow> nat option" where
  "route config m s =
     (case get_active_sessions m s of
        None \<Rightarrow> lookup_elem (get_active_lookup_table m) (hash_modulo s (uc_LookupTableSize config))
      | Some i \<Rightarrow> Some i)"

definition eligible :: "udplb_config \<Rightarrow> packet \<Rightarrow> bool" where
  "eligible config p \<longleftrightarrow>
     must_loadbalance p (uc_Ip config) (uc_Port config) \<and> take 6 (drop 6 p) \<noteq> uc_Mac config \<and> 1 < p ! 22"

abbreviation ttl_decremented :: "packet \<Rightarrow> packet" where
  "ttl_decremented p \<equiv> p[22 := p ! 22 - 1]"

lemma session_of_ttl [simp]: "session_of (p[22 := x]) = session_of p"
  by (simp add: session_of_def drop_update_cancel)

lemma eligible_length: "eligible config p \<Longrightarrow> 62 \<le> length p"
  by (simp add: eligible_def must_loadbalance_def)

lemma persist_maps [simp]:
  "get_active_backend_list (persist r w s i b m) = get_active_backend_list m"
  "get_active_lookup_table (persist r w s i b m) = get_active_lookup_table m"
  "get_active_sessions (persist r w s i b m) =
     (if w then (get_active_sessions m)(s \<mapsto> i) else get_active_sessions m)"
  by (simp_all add: persist_def set_active_session_def get_active_backend_list_def
      get_active_lookup_table_def get_active_sessions_def Let_def)

lemma udplb_forward:
  assumes "eligible config p" and "route config m (session_of p) = Some i"
    and "lookup_elem (get_active_backend_list m) i = Some b"
  shows "udplb f config r w p m =
     (XDP_TX, rewrite_packet f config b (ttl_decremented p),
      if get_active_sessions m (session_of p) = None then persist r w (session_of p) i b m else m)"
  using assms
  by (auto simp: udplb_def eligible_def route_def Let_def linorder_not_le split: option.splits)

lemma udplb_cases:
  obtains (pass) "\<not> eligible config p" "fst (udplb f config r w p m) \<noteq> XDP_TX"
      "snd (udplb f config r w p m) = (p, m)"
  | (lost) "eligible config p" "udplb f config r w p m = (XDP_PASS, ttl_decremented p, m)"
      "\<forall>i. route config m (session_of p) = Some i \<longrightarrow> lookup_elem (get_active_backend_list m) i = None"
  | (sent) i b where "eligible config p" "route config m (session_of p) = Some i"
      "lookup_elem (get_active_backend_list m) i = Some b"
proof (cases "eligible config p")
  case False
  then show ?thesis by (intro pass) (auto simp: udplb_def eligible_def linorder_not_le)
next
  case True
  show ?thesis
  proof (cases "\<exists>i b. route config m (session_of p) = Some i \<and> lookup_elem (get_active_backend_list m) i = Some b")
    case found: True
    then show ?thesis using True sent by blast
  next
    case none: False
    then have "udplb f config r w p m = (XDP_PASS, ttl_decremented p, m)"
      using True
      by (auto simp: udplb_def eligible_def route_def Let_def linorder_not_le split: option.splits)
    then show ?thesis using True none by (intro lost) auto
  qed
qed

text \<open>No packet changes the route of any session.\<close>

lemma udplb_keeps_routes:
  assumes "udplb f config r w p m = (a, p', m')"
  shows "route config m' s = route config m s \<and> get_active_backend_list m' = get_active_backend_list m"
proof (cases rule: udplb_cases[of config p f r w m])
  case (sent i b)
  then have "m' = (if get_active_sessions m (session_of p) = None then persist r w (session_of p) i b m else m)"
    using udplb_forward[OF sent] assms by simp
  then show ?thesis using sent(2) by (auto simp: route_def split: option.splits)
qed (use assms in auto)

text \<open>A burst of packets, each with the room its maps had.\<close>

definition udplb_all :: "(u8 list \<Rightarrow> int) \<Rightarrow> udplb_config \<Rightarrow> (bool \<times> bool \<times> packet) list \<Rightarrow> xdp_maps \<Rightarrow> xdp_maps" where
  "udplb_all f config ps m = fold (\<lambda>(r, w, p) m. snd (snd (udplb f config r w p m))) ps m"

lemma udplb_all_keeps_routes:
  "route config (udplb_all f config ps m) s = route config m s \<and>
   get_active_backend_list (udplb_all f config ps m) = get_active_backend_list m"
proof (induction ps arbitrary: m)
  case Nil
  then show ?case by (simp add: udplb_all_def)
next
  case (Cons x ps)
  obtain r w p where x: "x = (r, w, p)" by (metis prod.exhaust)
  obtain a p' m' where u: "udplb f config r w p m = (a, p', m')" by (metis prod.exhaust)
  have "udplb_all f config (x # ps) m = udplb_all f config ps m'" by (simp add: udplb_all_def x u)
  then show ?case using Cons.IH[of m'] udplb_keeps_routes[OF u, of s] by simp
qed

text \<open>
  C5. Session affinity of the data plane: between two updates by the control plane every eligible
  packet of a session is sent to the same backend, whatever other packets came in between and
  even when neither the ring buffer nor the session map had room for the session.
\<close>

theorem xdp_affinity:
  assumes "route config m s = Some i" and "lookup_elem (get_active_backend_list m) i = Some b"
    and "eligible config p" and "session_of p = s"
  shows "\<exists>m'. udplb f config r w p (udplb_all f config ps m) =
           (XDP_TX, rewrite_packet f config b (ttl_decremented p), m')"
  using udplb_forward[of config p "udplb_all f config ps m" i b f r w]
    udplb_all_keeps_routes[of config f ps m s] assms
  by simp

text \<open>
  C6. A packet that is sent on reaches its backend: the frame has the length it had, the addresses
  and the port of the backend, the load balancer's own hardware address as source and a time to
  live one smaller; its IP header has a valid checksum, its UDP checksum is zero, and everything
  else, the payload and the source address included, is unchanged.
\<close>

theorem xdp_forwards_to_backend:
  assumes "ones_complement_sum f" and "length (uc_Mac config) = 6" and "length (bs_Mac b) = 6"
    and "eligible config p" and "route config m (session_of p) = Some i"
    and "lookup_elem (get_active_backend_list m) i = Some b"
  shows "\<exists>q m'. udplb f config r w p m = (XDP_TX, q, m') \<and> length q = length p \<and>
           take 6 q = bs_Mac b \<and> take 6 (drop 6 q) = uc_Mac config \<and>
           read32 q 30 = bs_Ip b \<and> read16 q 36 = bpf_htons (bs_Port b) \<and>
           q ! 22 = p ! 22 - 1 \<and> checksum_valid (take 20 (drop 14 q)) \<and> read16 q 40 = 0 \<and>
           (\<forall>j < length p. j \<notin> {0..<12} \<union> {22, 24, 25} \<union> {30..<34} \<union> {36, 37, 40, 41} \<longrightarrow> q ! j = p ! j)"
proof -
  define p1 where "p1 = ttl_decremented p"
  define q where "q = rewrite_packet f config b p1"
  have len: "62 \<le> length p1" using eligible_length[OF assms(4)] by (simp add: p1_def)
  have ttl: "p1 ! 22 \<noteq> 0"
    using assms(4) len by (simp add: p1_def eligible_def) (metis less_irrefl)
  note nth = nth_rewrite_packet[OF len assms(2,3), of _ f, folded q_def]
  have q: "length q = length p1" using len assms(2,3) by (simp add: q_def)
  have "take 6 q = bs_Mac b" "take 6 (drop 6 q) = uc_Mac config"
    using len q assms(2,3) by (auto intro!: nth_equalityI simp: nth)
  moreover have "read32 q 30 = bs_Ip b"
    using uint32_le_roundtrip[of "bs_Ip b"] len by (simp add: read32_def nth)
  moreover have "read16 q 36 = bpf_htons (bs_Port b)" "read16 q 40 = 0"
    using read16_bytes16[of "bpf_htons (bs_Port b)"] len by (simp_all add: read16_def nth)
  moreover have "q ! 22 = p ! 22 - 1" using len by (simp add: nth) (simp add: p1_def)
  moreover have "checksum_valid (take 20 (drop 14 q))"
    using rewrite_checksum[OF assms(1) len assms(2,3) ttl] by (simp add: q_def)
  moreover have "q ! j = p ! j" if "j < length p" "j \<notin> {0..<12} \<union> {22, 24, 25} \<union> {30..<34} \<union> {36, 37, 40, 41}" for j
    using that len by (simp add: nth p1_def) auto
  ultimately show ?thesis
    using udplb_forward[OF assms(4-6), of f r w] q by (auto simp: q_def p1_def)
qed

text \<open>
  C31. A packet the program has sent is never sent again: when a bridge reflects the frame, whatever
  the maps hold by then, the program drops it or passes it on.
\<close>

theorem xdp_never_forwards_twice:
  assumes "length (uc_Mac config) = 6" and "\<forall>b \<in> set (get_active_backend_list m). length (bs_Mac b) = 6"
    and "udplb f config r w p m = (XDP_TX, q, m')"
  shows "fst (udplb f config r' w' q m'') \<noteq> XDP_TX"
proof (cases rule: udplb_cases[of config p f r w m])
  case (sent i b)
  have b: "length (bs_Mac b) = 6"
    using sent(3) assms(2) by (auto simp: lookup_elem_def split: if_splits)
  have len: "62 \<le> length (ttl_decremented p)" using eligible_length[OF sent(1)] by simp
  have "q = rewrite_packet f config b (ttl_decremented p)"
    using udplb_forward[OF sent, of f r w] assms(3) by simp
  then have "take 6 (drop 6 q) = uc_Mac config"
    using len assms(1) b by (auto intro!: nth_equalityI simp: nth_rewrite_packet)
  then show ?thesis by (simp add: udplb_def)
qed (use assms(3) in auto)


text \<open>
  C33. The program and the echo backend read the same datagrams: a frame whose headers are those of
  the load balancer is balanced exactly when the echo backend would accept its UDP payload, and
  for the session the echo backend would count it for.
\<close>

theorem xdp_agrees_with_echo_backend:
  assumes "length headers = 42" and "read16 headers 12 = bpf_htons 0x0800" and "read32 headers 30 = addr"
    and "headers ! 23 = 17" and "read16 headers 36 = bpf_htons port"
  shows "(must_loadbalance (headers @ payload) addr port \<longleftrightarrow> snd (ParsePacket payload)) \<and>
         (snd (ParsePacket payload) \<longrightarrow> session_of (headers @ payload) = fst (ParsePacket payload))"
proof -
  have hd: "read16 (headers @ payload) 12 = bpf_htons 0x0800" "read32 (headers @ payload) 30 = addr"
    "(headers @ payload) ! 23 = 17" "read16 (headers @ payload) 36 = bpf_htons port"
    using assms by (simp_all add: read16_def read32_def nth_append)
  have prefix: "UDPLB_PACKET_PREFIX = PacketPrefix" by code_simp
  have "read32 (headers @ payload) 42 =
      uint32_of_bytes LittleEndian (payload ! 0) (payload ! 1) (payload ! 2) (payload ! 3)"
    using assms(1) by (simp add: read32_def nth_append)
  then have "must_loadbalance (headers @ payload) addr port \<longleftrightarrow> snd (ParsePacket payload)"
    using hd assms(1) prefix by (auto simp: must_loadbalance_def ParsePacket_def MinPacketSize_def)
  moreover have "session_of (headers @ payload) = fst (ParsePacket payload)" if "snd (ParsePacket payload)"
    using that assms(1) by (auto simp: session_of_def ParsePacket_def split: if_splits)
  ultimately show ?thesis by blast
qed

text \<open>
  What the control plane has written, as the program sees it: the arrays start with the list and
  the table (what lies behind is left open), the session map is the one that was set.
\<close>

definition reads :: "xdp_maps \<Rightarrow> event_objects \<Rightarrow> bool" where
  "reads m K \<longleftrightarrow>
     (\<forall>i < length (eo_BackendList K). lookup_elem (get_active_backend_list m) i = Some (eo_BackendList K ! i)) \<and>
     (\<forall>i < length (eo_LookupTable K). lookup_elem (get_active_lookup_table m) i = Some (eo_LookupTable K ! i)) \<and>
     get_active_sessions m = eo_SessionMap K"

lemma reads_route:
  assumes "reads m K" and "0 < length (eo_LookupTable K)"
    and "uc_LookupTableSize config = length (eo_LookupTable K)"
    and "\<forall>x \<in> set (eo_LookupTable K). x < length (eo_BackendList K)"
    and "\<forall>s j. eo_SessionMap K s = Some j \<longrightarrow> j < length (eo_BackendList K)"
  shows "\<exists>i < length (eo_BackendList K). route config m s = Some i \<and>
           lookup_elem (get_active_backend_list m) i = Some (eo_BackendList K ! i) \<and>
           (\<forall>j. eo_SessionMap K s = Some j \<longrightarrow> i = j)"
proof (cases "eo_SessionMap K s")
  case None
  let ?k = "hash_modulo s (uc_LookupTableSize config)"
  have "?k < length (eo_LookupTable K)" using assms(2,3) by (simp add: hash_modulo_def)
  then show ?thesis using None assms(1,4) by (auto simp: route_def reads_def)
next
  case (Some j)
  then show ?thesis using assms(1,5) by (auto simp: route_def reads_def)
qed

section \<open>Packets that are passed on\<close>

lemma le_sum_ttl:
  assumes "length p \<ge> 62" and "p ! 22 > 0"
  shows "le_sum (take 20 (drop 14 (ttl_decremented p))) = le_sum (take 20 (drop 14 p)) - 1"
proof -
  have split: "take 20 (drop 14 q) = take 8 (drop 14 q) @ [q ! 22, q ! 23] @ take 10 (drop 24 q)" if "62 \<le> length q" for q :: packet
  proof (intro nth_equalityI)
    show "take 20 (drop 14 q) ! i = (take 8 (drop 14 q) @ [q ! 22, q ! 23] @ take 10 (drop 24 q)) ! i"
      if "i < length (take 20 (drop 14 q))" for i
      using that \<open>62 \<le> length q\<close> by (cases "i < 8"; cases "i = 8"; cases "i = 9") (auto simp: nth_append nth_Cons')
  qed (use that in simp)
  have "1 \<le> p ! 22" using assms(2) by (simp add: word_le_def word_less_def)
  then have u: "uint (p ! 22 - 1) = uint (p ! 22) - 1" by (simp add: uint_minus_simple_alt)
  have sum: "le_sum (take 20 (drop 14 q)) =
      le_sum (take 8 (drop 14 q)) + (uint (q ! 22) + 256 * uint (q ! 23) + le_sum (take 10 (drop 24 q)))"
    if "62 \<le> length q" for q :: packet
    unfolding split[OF that] using that by (subst le_sum_append) simp_all
  show ?thesis
    using sum[of p] sum[of "ttl_decremented p"] assms(1) u by (simp add: drop_update_cancel take_drop)
qed

text \<open>
  An eligible packet without a backend is passed to the network stack of the host damaged: the
  time to live has been decremented already and the checksum has not been brought up to date, so
  a header that was valid is not valid any more.
\<close>

theorem xdp_pass_breaks_checksum:
  assumes "eligible config p" and "route config m (session_of p) = Some i"
    and "lookup_elem (get_active_backend_list m) i = None" and "checksum_valid (take 20 (drop 14 p))"
  shows "\<exists>q. udplb f config r w p m = (XDP_PASS, q, m) \<and> \<not> checksum_valid (take 20 (drop 14 q))"
proof -
  let ?S = "le_sum (take 20 (drop 14 p))"
  have u: "udplb f config r w p m = (XDP_PASS, ttl_decremented p, m)"
    using udplb_cases[of config p f r w m] assms(1-3) by (metis not_None_eq option.inject)
  have ttl: "0 < p ! 22" using assms(1) by (auto simp: eligible_def word_gt_0)
  have "65535 dvd ?S" using assms(4) by (simp add: checksum_valid_iff dvd_eq_mod_eq_0)
  then have "\<not> 65535 dvd ?S - 1" using dvd_diff[of 65535 ?S "?S - 1"] by auto
  then have "(?S - 1) mod 65535 \<noteq> 0" by (simp add: dvd_eq_mod_eq_0)
  then have "\<not> checksum_valid (take 20 (drop 14 (ttl_decremented p)))"
    using le_sum_ttl[OF eligible_length[OF assms(1)] ttl] by (simp add: checksum_valid_iff)
  then show ?thesis using u by blast
qed

section \<open>Witnesses\<close>

text \<open>A checksum helper, a frame to the load balancer at 10.0.0.1:8080, and maps with one backend.\<close>

definition folded_sum :: "u8 list \<Rightarrow> int" where
  "folded_sum hdr = (if le_sum hdr = 0 then 0 else (le_sum hdr - 1) mod 65535 + 1)"

lemma folded_sum_ok: "ones_complement_sum folded_sum"
proof -
  have "0 \<le> (x - 1) mod 65535 + 1" "(x - 1) mod 65535 + 1 < 4294967296" "(x - 1) mod 65535 + 1 \<noteq> 0" for x :: int
    using pos_mod_bound[of 65535 "x - 1"] pos_mod_sign[of 65535 "x - 1"] by linarith+
  moreover have "(x - 1) mod 65535 < 4294967295" for x :: int
    using pos_mod_bound[of 65535 "x - 1"] by linarith
  moreover have "((x - 1) mod 65535 + 1) mod 65535 = x mod 65535" for x :: int by (simp add: mod_simps)
  ultimately show ?thesis by (simp add: ones_complement_sum_def folded_sum_def)
qed

definition example_headers :: packet where
  "example_headers =
     [2, 0, 0, 0, 0, 1, 2, 0, 0, 0, 0, 7, 0x08, 0x00,
      0x45, 0, 0, 0x30, 0, 0, 0, 0, 0x40, 17, 0x66, 0xb8, 10, 0, 0, 5, 10, 0, 0, 1,
      0x30, 0x39, 0x1f, 0x90, 0, 0x1c, 0, 0]"

definition example_payload :: packet where
  "example_payload = [0x44, 0x49, 0x55, 0x55, 1, 2, 3, 4, 5, 6, 7, 8, 9, 10, 11, 12, 13, 14, 15, 200]"

definition example_frame :: packet where
  "example_frame = example_headers @ example_payload"

definition example_config :: udplb_config where
  "example_config = \<lparr>uc_Ip = 0x0100000a, uc_Port = 8080, uc_LookupTableSize = 7, uc_Mac = [2, 0, 0, 0, 0, 1]\<rparr>"

definition example_backend_spec :: backend_spec_t where
  "example_backend_spec = \<lparr>bs_Id = 9, bs_Ip = 0x0200000a, bs_Port = 9000, bs_Mac = [2, 0, 0, 0, 0, 9]\<rparr>"

definition maps_to :: "nat \<Rightarrow> xdp_maps" where
  "maps_to i =
     \<lparr>active_pointer = 0, backend_list_a = [example_backend_spec], backend_list_b = [],
      lookup_table_a = replicate 7 i, lookup_table_b = [], session_map_a = Map.empty,
      session_map_b = Map.empty, assignment_ringbuf = []\<rparr>"

lemma example_eligible: "eligible example_config example_frame"
  by code_simp

lemma example_macs: "length (uc_Mac example_config) = 6" "length (bs_Mac example_backend_spec) = 6"
  by (simp_all add: example_config_def example_backend_spec_def)

lemma maps_to_route: "route example_config (maps_to i) s = Some i"
  by (simp add: route_def maps_to_def get_active_sessions_def get_active_lookup_table_def lookup_elem_def
      hash_modulo_def example_config_def)

lemma maps_to_backends: "get_active_backend_list (maps_to i) = [example_backend_spec]"
  by (simp add: maps_to_def get_active_backend_list_def)

lemma maps_to_0: "lookup_elem (get_active_backend_list (maps_to 0)) 0 = Some example_backend_spec"
  by (simp add: maps_to_backends lookup_elem_def)

text \<open>Maps that hold exactly what the control plane has written.\<close>

definition maps_of :: "event_objects \<Rightarrow> xdp_maps" where
  "maps_of K =
     \<lparr>active_pointer = 1, backend_list_a = [], backend_list_b = eo_BackendList K, lookup_table_a = [],
      lookup_table_b = eo_LookupTable K, session_map_a = Map.empty, session_map_b = eo_SessionMap K,
      assignment_ringbuf = []\<rparr>"

lemma reads_maps_of: "reads (maps_of K) K"
  by (simp add: reads_def maps_of_def get_active_backend_list_def get_active_lookup_table_def
      get_active_sessions_def lookup_elem_def)

theorem xdp_affinity_witness:
  "\<exists>m'. udplb folded_sum example_config False False example_frame
        (udplb_all folded_sum example_config [(False, False, example_frame), (True, True, [])] (maps_to 0)) =
      (XDP_TX, rewrite_packet folded_sum example_config example_backend_spec (ttl_decremented example_frame), m')"
  by (rule xdp_affinity[OF maps_to_route maps_to_0 example_eligible refl])

theorem xdp_forwards_to_backend_witness:
  "\<exists>q m'. udplb folded_sum example_config True True example_frame (maps_to 0) = (XDP_TX, q, m') \<and>
     read32 q 30 = 0x0200000a \<and> checksum_valid (take 20 (drop 14 q))"
  using xdp_forwards_to_backend[OF folded_sum_ok example_macs example_eligible maps_to_route maps_to_0, of True True]
  by (auto simp: example_backend_spec_def)

theorem xdp_never_forwards_twice_witness:
  "\<exists>q m'. udplb folded_sum example_config True True example_frame (maps_to 0) = (XDP_TX, q, m') \<and>
     fst (udplb folded_sum example_config True True q m') \<noteq> XDP_TX"
proof -
  obtain q m' where u: "udplb folded_sum example_config True True example_frame (maps_to 0) = (XDP_TX, q, m')"
    using udplb_forward[OF example_eligible maps_to_route maps_to_0] by blast
  have "\<forall>b \<in> set (get_active_backend_list (maps_to 0)). length (bs_Mac b) = 6"
    using example_macs(2) by (simp add: maps_to_backends)
  then show ?thesis using xdp_never_forwards_twice[OF example_macs(1) _ u] u by blast
qed


theorem xdp_agrees_with_echo_backend_witness:
  "must_loadbalance (example_headers @ example_payload) 0x0100000a 8080 \<and> snd (ParsePacket example_payload)"
proof -
  have "length example_headers = 42" "read16 example_headers 12 = bpf_htons 0x0800"
    "read32 example_headers 30 = 0x0100000a" "example_headers ! 23 = 17"
    "read16 example_headers 36 = bpf_htons 8080" "snd (ParsePacket example_payload)"
    by code_simp+
  then show ?thesis using xdp_agrees_with_echo_backend[of example_headers "0x0100000a" 8080 example_payload] by blast
qed

theorem xdp_pass_breaks_checksum_witness:
  "\<exists>q. udplb folded_sum example_config True True example_frame (maps_to 64) = (XDP_PASS, q, maps_to 64) \<and>
     \<not> checksum_valid (take 20 (drop 14 q))"
proof -
  have "lookup_elem (get_active_backend_list (maps_to 64)) 64 = None"
    by (simp add: maps_to_backends lookup_elem_def)
  moreover have "checksum_valid (take 20 (drop 14 example_frame))" by code_simp
  ultimately show ?thesis using xdp_pass_breaks_checksum[OF example_eligible maps_to_route] by blast
qed

end
