(* ===== verification/Api_Validation.thy ===== *)
theory Api_Validation
  imports Core_Types
begin

text \<open>
  \<open>pkg/apis/common/v1alpha1/common.validation.go\<close>: validation of the messages of the API. A
  message is a pointer, \<open>None\<close> is nil; of the messages only the fields that are read are kept.
  An enumeration of protocol buffers is any 32-bit number. \<open>uuid.Parse\<close> is an argument: the
  error it returns for a text, if any.
\<close>

section \<open>Messages\<close>

record request_metadata =
  req_RequestId :: string
  req_TraceId :: string

record response_metadata =
  resp_TraceId :: string

record typed_error =
  te_Type :: "32 word"
  te_Error :: string

record api_error =
  ae_Errors :: "typed_error option list"
  ae_Metadata :: "response_metadata option"

section \<open>Validation\<close>

definition RequestMetadata_Validate :: "(string \<Rightarrow> err) \<Rightarrow> request_metadata option \<Rightarrow> err go" where
  "RequestMetadata_Validate uuid_Parse m =
     (case m of
        None \<Rightarrow> Inl NilDereference
      | Some m \<Rightarrow> Inr
          (case uuid_Parse (req_RequestId m) of
             Some e \<Rightarrow> errors_join [Some e, Some errInvalidRequestMetadata]
           | None \<Rightarrow>
               if req_TraceId m = [] then errors_join [Some errATraceIdMustBeSpecified, Some errInvalidRequestMetadata]
               else None))"

definition ResponseMetadata_Validate :: "response_metadata option \<Rightarrow> err go" where
  "ResponseMetadata_Validate m =
     (case m of
        None \<Rightarrow> Inl NilDereference
      | Some m \<Rightarrow> Inr
          (if resp_TraceId m = [] then errors_join [Some errATraceIdMustBeSpecified, Some errInvalidResponseMetadata]
           else None))"

text \<open>The loop over the errors: it returns at the first that is not valid.\<close>

fun validate_errors :: "typed_error option list \<Rightarrow> err go" where
  "validate_errors [] = Inr None"
| "validate_errors (None # _) = Inl NilDereference"
| "validate_errors (Some derr # rest) =
     (if te_Type derr = 0 then Inr (errors_join [Some errUnknownErrorType, Some errInvalidDistributedError])
      else if te_Error derr = [] then Inr (errors_join [Some errAnErrorMustBeSpecified, Some errInvalidDistributedError])
      else validate_errors rest)"

definition Error_Validate :: "api_error option \<Rightarrow> err go" where
  "Error_Validate m =
     (case m of
        None \<Rightarrow> Inl NilDereference
      | Some e \<Rightarrow>
          if ae_Errors e = [] then Inr (errors_join [Some errAnErrorMustBeSpecified, Some errInvalidDistributedError])
          else (case validate_errors (ae_Errors e) of
                  Inl p \<Rightarrow> Inl p
                | Inr (Some err) \<Rightarrow> Inr (Some err)
                | Inr None \<Rightarrow>
                    (case ResponseMetadata_Validate (ae_Metadata e) of
                       Inl p \<Rightarrow> Inl p
                     | Inr (Some err) \<Rightarrow> Inr (errors_join [Some err, Some errInvalidDistributedError])
                     | Inr None \<Rightarrow> Inr None)))"

section \<open>What is valid\<close>

definition valid_typed_error :: "typed_error \<Rightarrow> bool" where
  "valid_typed_error derr \<longleftrightarrow> te_Type derr \<noteq> 0 \<and> te_Error derr \<noteq> []"

lemma validate_errors_cases:
  "(validate_errors es = Inr None \<longleftrightarrow> (\<forall>x \<in> set es. \<exists>derr. x = Some derr \<and> valid_typed_error derr)) \<and>
   (validate_errors es = Inl p \<longrightarrow> p = NilDereference \<and> None \<in> set es) \<and>
   (validate_errors es = Inr (Some err) \<longrightarrow> (\<exists>cause. err = Joined [cause, errInvalidDistributedError]))"
  by (induction es rule: validate_errors.induct)
    (auto simp: valid_typed_error_def errors_join_def split: if_splits)

text \<open>
  Validation of an error message accepts exactly the messages that have at least one typed error,
  only typed errors with a known type and a text, and metadata with a trace identifier. Every
  refusal is marked as an invalid distributed error. The only other outcome is the panic on a
  missing part: a missing typed error, or the metadata that the message does not have.
\<close>

theorem Error_Validate_decides:
  "(Error_Validate (Some e) = Inr None \<longleftrightarrow>
      ae_Errors e \<noteq> [] \<and> (\<forall>x \<in> set (ae_Errors e). \<exists>derr. x = Some derr \<and> valid_typed_error derr) \<and>
      (\<exists>md. ae_Metadata e = Some md \<and> resp_TraceId md \<noteq> [])) \<and>
   (\<forall>err. Error_Validate (Some e) = Inr (Some err) \<longrightarrow> (\<exists>cause. err = Joined [cause, errInvalidDistributedError])) \<and>
   (\<forall>p. Error_Validate (Some e) = Inl p \<longrightarrow>
      p = NilDereference \<and> (None \<in> set (ae_Errors e) \<or> ae_Metadata e = None))"
proof (cases "validate_errors (ae_Errors e)")
  case (Inl p)
  then show ?thesis
    using validate_errors_cases[of "ae_Errors e" p undefined] by (auto simp: Error_Validate_def errors_join_def)
next
  case (Inr r)
  then show ?thesis
    using validate_errors_cases[of "ae_Errors e" undefined "the r"]
    by (cases r) (auto simp: Error_Validate_def ResponseMetadata_Validate_def errors_join_def
        split: option.splits if_splits)
qed

theorem Error_Validate_decides_witness:
  "Error_Validate (Some \<lparr>ae_Errors = [Some \<lparr>te_Type = 4, te_Error = ''bad port''\<rparr>],
     ae_Metadata = Some \<lparr>resp_TraceId = ''t''\<rparr>\<rparr>) = Inr None"
  using Error_Validate_decides[of "\<lparr>ae_Errors = [Some \<lparr>te_Type = 4, te_Error = ''bad port''\<rparr>],
     ae_Metadata = Some \<lparr>resp_TraceId = ''t''\<rparr>\<rparr>"]
  by (simp add: valid_typed_error_def)

text \<open>
  A well-formed list of errors without metadata is not refused: its validation panics. Metadata is
  optional in the message format, so such a message can be received.
\<close>

theorem Error_without_metadata_panics:
  assumes "es \<noteq> []" and "\<forall>derr \<in> set es. valid_typed_error derr"
  shows "Error_Validate (Some \<lparr>ae_Errors = map Some es, ae_Metadata = None\<rparr>) = Inl NilDereference"
proof -
  have "validate_errors (map Some es) = Inr None"
    using validate_errors_cases[of "map Some es" undefined undefined] assms(2) by auto
  then show ?thesis using assms(1) by (simp add: Error_Validate_def ResponseMetadata_Validate_def)
qed

theorem Error_without_metadata_panics_witness:
  "Error_Validate (Some \<lparr>ae_Errors = [Some \<lparr>te_Type = 1, te_Error = ''x''\<rparr>], ae_Metadata = None\<rparr>) = Inl NilDereference"
  using Error_without_metadata_panics[of "[\<lparr>te_Type = 1, te_Error = ''x''\<rparr>]"] by (simp add: valid_typed_error_def)

text \<open>
  An error type that the system does not know passes: only the number 0 is refused, although the
  format defines the types 1 to 6.
\<close>

theorem unrecognised_error_type_is_valid:
  assumes "t \<noteq> 0" and "text \<noteq> []" and "trace \<noteq> []"
  shows "Error_Validate (Some \<lparr>ae_Errors = [Some \<lparr>te_Type = t, te_Error = text\<rparr>],
           ae_Metadata = Some \<lparr>resp_TraceId = trace\<rparr>\<rparr>) = Inr None"
  using assms by (simp add: Error_Validate_def ResponseMetadata_Validate_def)

theorem unrecognised_error_type_is_valid_witness:
  "Error_Validate (Some \<lparr>ae_Errors = [Some \<lparr>te_Type = 99, te_Error = ''x''\<rparr>],
     ae_Metadata = Some \<lparr>resp_TraceId = ''t''\<rparr>\<rparr>) = Inr None"
  by (rule unrecognised_error_type_is_valid) simp_all

text \<open>Validation of a request refuses exactly a request without an identifier or without a trace.\<close>

theorem RequestMetadata_Validate_decides:
  "RequestMetadata_Validate uuid_Parse (Some m) = Inr None \<longleftrightarrow>
     uuid_Parse (req_RequestId m) = None \<and> req_TraceId m \<noteq> []"
  by (auto simp: RequestMetadata_Validate_def errors_join_def split: option.splits)

end
