(* ===== verification/Testenv_Config.thy ===== *)
theory Testenv_Config
  imports Net_Util
begin

text \<open>
  \<open>pkg/test/e2e\<close>: the configuration of the end-to-end tests (\<open>testenv_config.go\<close>) and the
  port of the connectivity tests (\<open>ports.go\<close>), with what they use of the packages \<open>strings\<close>,
  \<open>path/filepath\<close> and \<open>strconv\<close>. The environment is a function from names to texts, an unset
  variable has the empty text; the directory, the files and the JSON decoder are arguments. A file
  is read twice, and may change in between, so the reader takes the number of the read.
\<close>

section \<open>Texts and paths\<close>

fun join_with :: "string \<Rightarrow> string list \<Rightarrow> string" where
  "join_with sep [] = []"
| "join_with sep [p] = p"
| "join_with sep (p # ps) = p @ sep @ join_with sep ps"

definition HasPrefix :: "string \<Rightarrow> string \<Rightarrow> bool" where
  "HasPrefix s p \<longleftrightarrow> take (length p) s = p"

definition HasSuffix :: "string \<Rightarrow> string \<Rightarrow> bool" where
  "HasSuffix s p \<longleftrightarrow> length p \<le> length s \<and> drop (length s - length p) s = p"

text \<open>\<open>filepath.Clean\<close> on a slash-separated path, and \<open>filepath.Join\<close>.\<close>

definition clean_component :: "bool \<Rightarrow> string \<Rightarrow> string list \<Rightarrow> string list" where
  "clean_component rooted c out =
     (if c = [] \<or> c = ''.'' then out
      else if c = ''..'' then
        (if out \<noteq> [] \<and> last out \<noteq> ''..'' then butlast out
         else if rooted then out else out @ [c])
      else out @ [c])"

definition path_Clean :: "string \<Rightarrow> string" where
  "path_Clean p =
     (let rooted = (p \<noteq> [] \<and> hd p = CHR ''/'');
          out = join_with ''/'' (fold (clean_component rooted) (split_on (CHR ''/'') p) [])
      in if rooted then CHR ''/'' # out else if out = [] then ''.'' else out)"

definition path_Join :: "string list \<Rightarrow> string" where
  "path_Join elems =
     (let es = dropWhile (\<lambda>e. e = []) elems
      in if es = [] then [] else path_Clean (join_with ''/'' es))"

text \<open>\<open>strconv.Atoi\<close> on a 64-bit machine: an optional sign and digits, in the range of \<open>int\<close>.\<close>

definition Atoi :: "string \<Rightarrow> int option" where
  "Atoi s =
     (let neg = (s \<noteq> [] \<and> hd s = CHR ''-'');
          digits = (if s \<noteq> [] \<and> (hd s = CHR ''-'' \<or> hd s = CHR ''+'') then tl s else s);
          v = foldl (\<lambda>a c. 10 * a + (of_char c - 48)) (0::int) digits;
          r = (if neg then - v else v)
      in if digits = [] \<or> \<not> list_all is_digit digits \<or> r < - (2 ^ 63) \<or> 2 ^ 63 \<le> r then None else Some r)"

section \<open>The configuration\<close>

record testenv_config =
  RouterIP :: string
  ClientIP :: string
  LB0IP :: string
  LB1IP :: string
  LB2IP :: string
  BE0IP :: string
  BE1IP :: string
  BE2IP :: string
  SSHKeyPath :: string
  BridgeIP :: string
  VIP :: string

definition defaultVIPSuffix :: string where
  "defaultVIPSuffix = ''200''"

text \<open>The static addresses, with no key, no bridge and no virtual address yet.\<close>

definition default_config :: testenv_config where
  "default_config =
     \<lparr>RouterIP = ''10.100.0.2'', ClientIP = ''10.100.0.100'', LB0IP = ''10.100.0.10'', LB1IP = ''10.100.0.11'',
      LB2IP = ''10.100.0.12'', BE0IP = ''10.100.0.20'', BE1IP = ''10.100.0.21'', BE2IP = ''10.100.0.22'',
      SSHKeyPath = [], BridgeIP = ''10.100.0.1'', VIP = []\<rparr>"

definition computeVIP :: "string \<Rightarrow> string" where
  "computeVIP bridgeIP =
     (let parts = split_on (CHR ''.'') bridgeIP
      in if length parts = 4 then join_with ''.'' (take 3 parts) @ ''.'' @ defaultVIPSuffix
         else ''10.100.0.'' @ defaultVIPSuffix)"

definition env_or :: "(string \<Rightarrow> string) \<Rightarrow> string \<Rightarrow> string \<Rightarrow> string" where
  "env_or getenv name fallback = (if getenv name = [] then fallback else getenv name)"

definition loadFromEnv :: "(string \<Rightarrow> string) \<Rightarrow> go_error + testenv_config" where
  "loadFromEnv getenv =
     (let key = getenv ''TESTENV_KEY_VMSSH_PRIVATE_PATH'';
          missing = (if key = [] then [''TESTENV_KEY_VMSSH_PRIVATE_PATH''] else [])
      in if 0 < length missing
         then Inl (Joined [ErrEnvVarNotSet, ErrorText (''missing: '' @ join_with '', '' missing)])
         else
           let bridge = env_or getenv ''TESTENV_NETWORK_UDPLBNET_IP'' (BridgeIP default_config)
           in Inr \<lparr>RouterIP = env_or getenv ''TESTENV_VM_ROUTER_IP'' (RouterIP default_config),
                   ClientIP = env_or getenv ''TESTENV_VM_CLIENT_IP'' (ClientIP default_config),
                   LB0IP = env_or getenv ''TESTENV_VM_LB_0_IP'' (LB0IP default_config),
                   LB1IP = env_or getenv ''TESTENV_VM_LB_1_IP'' (LB1IP default_config),
                   LB2IP = env_or getenv ''TESTENV_VM_LB_2_IP'' (LB2IP default_config),
                   BE0IP = env_or getenv ''TESTENV_VM_BE_0_IP'' (BE0IP default_config),
                   BE1IP = env_or getenv ''TESTENV_VM_BE_1_IP'' (BE1IP default_config),
                   BE2IP = env_or getenv ''TESTENV_VM_BE_2_IP'' (BE2IP default_config),
                   SSHKeyPath = key, BridgeIP = bridge, VIP = computeVIP bridge\<rparr>)"

text \<open>Of a state file only the stage, the status, the keys and the networks are read.\<close>

record testenv_state =
  st_Stage :: string
  st_Status :: string
  st_Keys :: "string \<rightharpoonup> string"
  st_Networks :: "string \<rightharpoonup> string"

type_synonym reader = "nat \<Rightarrow> string \<Rightarrow> go_error + u8 list"

definition is_state_file :: "string \<Rightarrow> bool" where
  "is_state_file name \<longleftrightarrow> HasPrefix name ''testenv-'' \<and> HasSuffix name ''.json''"

text \<open>The search for a state file: the first entry that reads, decodes and is ready for the stage.\<close>

definition is_ready :: "reader \<Rightarrow> (u8 list \<Rightarrow> go_error + testenv_state) \<Rightarrow> string \<Rightarrow> bool" where
  "is_ready readFile decode path \<longleftrightarrow>
     (case readFile 0 path of
        Inl _ \<Rightarrow> False
      | Inr bytes \<Rightarrow>
          (case decode bytes of
             Inl _ \<Rightarrow> False
           | Inr st \<Rightarrow> st_Stage st = ''e2e'' \<and> st_Status st = ''ready''))"

fun find_state_file :: "reader \<Rightarrow> (u8 list \<Rightarrow> go_error + testenv_state) \<Rightarrow> string \<Rightarrow> string list \<Rightarrow> string" where
  "find_state_file readFile decode dir [] = []"
| "find_state_file readFile decode dir (name # entries) =
     (let path = path_Join [dir, name]
      in if is_state_file name \<and> is_ready readFile decode path then path
         else find_state_file readFile decode dir entries)"

definition config_of_state :: "testenv_state \<Rightarrow> go_error + testenv_config" where
  "config_of_state st =
     (let cfg = default_config;
          cfg = (case st_Keys st ''VmSsh'' of None \<Rightarrow> cfg | Some p \<Rightarrow> cfg\<lparr>SSHKeyPath := p\<rparr>);
          cfg = (case st_Networks st ''UdplbNet'' of None \<Rightarrow> cfg | Some ip \<Rightarrow> cfg\<lparr>BridgeIP := ip\<rparr>)
      in if SSHKeyPath cfg = []
         then Inl (Joined [ErrStateFileNotFound, ErrorText ''SSH key path not found in state file''])
         else Inr (cfg\<lparr>VIP := computeVIP (BridgeIP cfg)\<rparr>))"

definition loadFromStateFile :: "(string \<Rightarrow> string) \<Rightarrow> (string \<Rightarrow> go_error + string list) \<Rightarrow> reader \<Rightarrow>
      (u8 list \<Rightarrow> go_error + testenv_state) \<Rightarrow> go_error + testenv_config" where
  "loadFromStateFile getenv readDir readFile decode =
     (let stateDir = (let d = getenv ''TESTENV_VM_STATE_DIR'' in if d = [] then ''/tmp/udplb-testenv-vm'' else d);
          stateFilesDir = path_Join [stateDir, ''state'']
      in (case readDir stateFilesDir of
            Inl e \<Rightarrow> Inl (Joined [ErrStateFileNotFound, e])
          | Inr entries \<Rightarrow>
              let stateFile = find_state_file readFile decode stateFilesDir entries
              in if stateFile = []
                 then Inl (Joined [ErrStateFileNotFound, ErrorText (''no e2e state file found in '' @ stateFilesDir)])
                 else (case readFile 1 stateFile of
                         Inl e \<Rightarrow> Inl (Joined [ErrStateFileNotFound, e])
                       | Inr bytes \<Rightarrow>
                           (case decode bytes of
                              Inl e \<Rightarrow> Inl (Joined [ErrStateFileNotFound, e])
                            | Inr st \<Rightarrow> config_of_state st))))"

definition LoadTestenvConfig :: "(string \<Rightarrow> string) \<Rightarrow> (string \<Rightarrow> go_error + string list) \<Rightarrow> reader \<Rightarrow>
      (u8 list \<Rightarrow> go_error + testenv_state) \<Rightarrow> go_error + testenv_config" where
  "LoadTestenvConfig getenv readDir readFile decode =
     (case loadFromEnv getenv of
        Inr cfg \<Rightarrow> Inr cfg
      | Inl envErr \<Rightarrow>
          (case loadFromStateFile getenv readDir readFile decode of
             Inr cfg \<Rightarrow> Inr cfg
           | Inl stateErr \<Rightarrow> Inl (Joined [envErr, stateErr])))"

definition MustLoadTestenvConfig :: "(string \<Rightarrow> string) \<Rightarrow> (string \<Rightarrow> go_error + string list) \<Rightarrow> reader \<Rightarrow>
      (u8 list \<Rightarrow> go_error + testenv_state) \<Rightarrow> testenv_config go" where
  "MustLoadTestenvConfig getenv readDir readFile decode =
     (case LoadTestenvConfig getenv readDir readFile decode of Inl _ \<Rightarrow> Inl PanicCall | Inr cfg \<Rightarrow> Inr cfg)"

definition GetUDPTestPort :: "(string \<Rightarrow> string) \<Rightarrow> int" where
  "GetUDPTestPort getenv =
     (let v = getenv ''PORTALLOC_UDPLB_E2E_UDP''
      in if v = [] then 12345 else (case Atoi v of Some port \<Rightarrow> port | None \<Rightarrow> 12345))"

section \<open>The virtual address\<close>

lemma split_on_part_free: "f \<in> set (split_on d s) \<Longrightarrow> d \<notin> set f"
  by (induction d s arbitrary: f rule: split_on.induct) (auto split: if_splits list.splits)

lemma all_some_map:
  "all_some (map g xs) = Some ys \<Longrightarrow> length ys = length xs \<and> (\<forall>i < length xs. g (xs ! i) = Some (ys ! i))"
proof (induction xs arbitrary: ys)
  case (Cons x xs)
  obtain y zs where "g x = Some y" "all_some (map g xs) = Some zs" "ys = y # zs"
    using Cons.prems by (cases "g x") auto
  then show ?case using Cons.IH[of zs] by (auto simp: nth_Cons split: nat.splits)
qed simp

lemma parse_ipv4_parts:
  assumes "parse_ipv4 s = Some [a, b, c, d]"
  obtains p q r t where "split_on (CHR ''.'') s = [p, q, r, t]" "parse_octet p = Some a" "parse_octet q = Some b"
    "parse_octet r = Some c" "parse_octet t = Some d"
proof -
  let ?fs = "split_on (CHR ''.'') s"
  have "length ?fs = 4" and all: "all_some (map parse_octet ?fs) = Some [a, b, c, d]"
    using assms by (simp_all add: parse_ipv4_def Let_def split: if_splits)
  then obtain p q r t where fs: "?fs = [p, q, r, t]" by (auto simp: length_Suc_conv numeral_eq_Suc)
  then have "parse_octet p = Some a" "parse_octet q = Some b" "parse_octet r = Some c" "parse_octet t = Some d"
    using all_some_map[OF all] by (auto simp: fs nth_Cons numeral_eq_Suc All_less_Suc)
  with fs that show thesis by blast
qed

lemma parse_octet_chars:
  "parse_octet p = Some a \<Longrightarrow> p \<noteq> [] \<and> CHR ''.'' \<notin> set p \<and> CHR '':'' \<notin> set p \<and> CHR ''%'' \<notin> set p"
  by (auto simp: parse_octet_def Let_def list_all_iff is_digit_def char_in_def split: if_splits)

lemma find_append_none: "\<forall>x \<in> set xs. \<not> P x \<Longrightarrow> find P (xs @ ys) = find P ys"
  by (induction xs) auto

lemma computeVIP_network:
  assumes "parse_ipv4 bridge = Some [a, b, c, d]"
  shows "To4 (ParseIP (computeVIP bridge)) = Some [a, b, c, 200]"
proof -
  obtain p q r t where parts: "split_on (CHR ''.'') bridge = [p, q, r, t]"
    and oct: "parse_octet p = Some a" "parse_octet q = Some b" "parse_octet r = Some c"
    by (rule parse_ipv4_parts[OF assms])
  have vip: "computeVIP bridge = p @ CHR ''.'' # q @ CHR ''.'' # r @ CHR ''.'' # ''200''"
    by (simp add: computeVIP_def parts defaultVIPSuffix_def numeral_eq_Suc)
  note chars = parse_octet_chars[OF oct(1)] parse_octet_chars[OF oct(2)] parse_octet_chars[OF oct(3)]
  have "parse_octet ''200'' = Some 200" by (simp add: parse_octet_def is_digit_def char_in_def Let_def)
  then have v4: "parse_ipv4 (computeVIP bridge) = Some [a, b, c, 200]"
    using chars oct by (simp add: parse_ipv4_def vip split_on_append)
  have "find (\<lambda>c. c = CHR ''.'' \<or> c = CHR '':'' \<or> c = CHR ''%'') (computeVIP bridge) = Some (CHR ''.'')"
    unfolding vip using chars(1) by (subst find_append_none) auto
  then show ?thesis using v4 by (simp add: ParseIP_def v4_mapped_def To4_def nth_append)
qed

section \<open>Loading\<close>

lemma loadFromEnv_ok:
  "loadFromEnv getenv = Inr cfg \<Longrightarrow> SSHKeyPath cfg \<noteq> [] \<and> VIP cfg = computeVIP (BridgeIP cfg)"
  by (auto simp: loadFromEnv_def Let_def split: if_splits)

lemma config_of_state_ok:
  "config_of_state st = Inr cfg \<Longrightarrow> SSHKeyPath cfg \<noteq> [] \<and> VIP cfg = computeVIP (BridgeIP cfg)"
  by (auto simp: config_of_state_def Let_def split: if_splits)

lemma loadFromStateFile_ok:
  assumes "loadFromStateFile getenv readDir readFile decode = Inr cfg"
  shows "SSHKeyPath cfg \<noteq> [] \<and> VIP cfg = computeVIP (BridgeIP cfg)"
  using assms config_of_state_ok
  by (auto simp: loadFromStateFile_def Let_def split: sum.splits if_splits)

text \<open>
  A configuration that loads is usable: it has the path of a key, and its virtual address is the
  address 200 of the network of its bridge. With the path of the key in the environment, the state
  files are not consulted. Loading fails only when both sources do, with both errors.
\<close>

theorem testenv_config_usable:
  "(\<forall>cfg. LoadTestenvConfig getenv readDir readFile decode = Inr cfg \<longrightarrow>
      SSHKeyPath cfg \<noteq> [] \<and>
      (\<forall>a b c d. parse_ipv4 (BridgeIP cfg) = Some [a, b, c, d] \<longrightarrow>
         To4 (ParseIP (VIP cfg)) = Some [a, b, c, 200])) \<and>
   (getenv ''TESTENV_KEY_VMSSH_PRIVATE_PATH'' \<noteq> [] \<longrightarrow>
      (\<exists>cfg. \<forall>readDir readFile decode. LoadTestenvConfig getenv readDir readFile decode = Inr cfg)) \<and>
   (\<forall>e. LoadTestenvConfig getenv readDir readFile decode = Inl e \<longrightarrow>
      (\<exists>envErr stateErr. loadFromEnv getenv = Inl envErr \<and>
         loadFromStateFile getenv readDir readFile decode = Inl stateErr \<and> e = Joined [envErr, stateErr]))"
proof -
  have env: "\<exists>cfg. loadFromEnv getenv = Inr cfg" if "getenv ''TESTENV_KEY_VMSSH_PRIVATE_PATH'' \<noteq> []"
    using that by (simp add: loadFromEnv_def Let_def)
  show ?thesis
    using env loadFromEnv_ok[of getenv] loadFromStateFile_ok[of getenv readDir readFile decode]
    by (auto simp: LoadTestenvConfig_def computeVIP_network split: sum.splits)
qed

theorem testenv_config_usable_witness:
  "\<exists>cfg. LoadTestenvConfig (\<lambda>name. if name = ''TESTENV_KEY_VMSSH_PRIVATE_PATH'' then ''k'' else [])
       (\<lambda>_. Inr []) (\<lambda>_ _. Inr []) (\<lambda>_. Inl ErrNotFound) = Inr cfg \<and> SSHKeyPath cfg \<noteq> []"
  using testenv_config_usable[of "\<lambda>name. if name = ''TESTENV_KEY_VMSSH_PRIVATE_PATH'' then ''k'' else []"
      "\<lambda>_. Inr []" "\<lambda>_ _. Inr []" "\<lambda>_. Inl ErrNotFound"] by (auto split: if_splits)

end
