(* ===== verification/Test_Harness.thy ===== *)
theory Test_Harness
  imports Net_Util
begin

text \<open>
  \<open>cmd/udplb_test\<close>: the harness that prepares the network of the end-to-end tests (\<open>main.go\<close>,
  \<open>setup.go\<close>), opens a tap device, reads frames from it and starts the load balancer (\<open>run.go\<close>).
  The package netlink is an argument: a function from a call and the state of the kernel to the
  error of the call and the next state, and a parser of CIDR addresses. Of a configuration only the
  fields that are read are kept; the names that error texts quote are left out.
\<close>

unbundle bit_operations_syntax

section \<open>The configuration\<close>

record netdev_spec =
  nd_Name :: string
  nd_IP :: string
  nd_Type :: string
  nd_Link :: string

record harness_config =
  HostNetdevs :: "netdev_spec list"
  VMs_Specs :: "string list"

definition Bridges :: "harness_config \<Rightarrow> netdev_spec list" where
  "Bridges c = fold (\<lambda>nd bridges. if nd_Type nd = ''bridge'' then bridges @ [nd] else bridges) (HostNetdevs c) []"

definition Taps :: "harness_config \<Rightarrow> netdev_spec list" where
  "Taps c = fold (\<lambda>nd taps. if nd_Type nd = ''tap'' then taps @ [nd] else taps) (HostNetdevs c) []"

section \<open>The network\<close>

type_synonym cidr = "u8 list \<times> nat"

datatype nl_call =
    LinkByName string
  | LinkSetUp string
  | LinkAddBridge string
  | LinkAddTap string
  | AddrAdd string cidr
  | LinkSetMaster string string
  | RouteAdd cidr "(u8 list) option list"

text \<open>A bridge is added with the flag that brings it up. A call whose error ends the function, joined with a text; a loop whose body can return.\<close>

definition nl_do :: "(nl_call \<Rightarrow> 'k \<Rightarrow> err \<times> 'k) \<Rightarrow> nl_call \<Rightarrow> string \<Rightarrow> ('k \<Rightarrow> err \<times> 'k) \<Rightarrow> 'k \<Rightarrow> err \<times> 'k" where
  "nl_do nl call msg cont k =
     (case nl call k of
        (Some e, k') \<Rightarrow> (Some (Joined [e, ErrorText msg]), k')
      | (None, k') \<Rightarrow> cont k')"

fun each :: "('a \<Rightarrow> 's \<Rightarrow> err \<times> 's) \<Rightarrow> 'a list \<Rightarrow> 's \<Rightarrow> err \<times> 's" where
  "each f [] s = (None, s)"
| "each f (x # xs) s = (case f x s of (Some e, s') \<Rightarrow> (Some e, s') | (None, s') \<Rightarrow> each f xs s')"

definition set_addr :: "(nl_call \<Rightarrow> 'k \<Rightarrow> err \<times> 'k) \<Rightarrow> (string \<Rightarrow> go_error + cidr) \<Rightarrow> netdev_spec \<Rightarrow> 'k \<Rightarrow> err \<times> 'k" where
  "set_addr nl parseAddr nd k =
     (if nd_IP nd = [] then (None, k)
      else (case parseAddr (nd_IP nd) of
              Inl e \<Rightarrow> (Some (Joined [e, ErrorText ''cannot parse cidr'']), k)
            | Inr a \<Rightarrow> nl_do nl (AddrAdd (nd_Name nd) a) ''cannot set ip'' (\<lambda>k. (None, k)) k))"

definition add_bridge :: "(nl_call \<Rightarrow> 'k \<Rightarrow> err \<times> 'k) \<Rightarrow> (string \<Rightarrow> go_error + cidr) \<Rightarrow> netdev_spec \<Rightarrow> 'k \<Rightarrow> err \<times> 'k" where
  "add_bridge nl parseAddr br k =
     nl_do nl (LinkAddBridge (nd_Name br)) ''cannot add link'' (set_addr nl parseAddr br) k"

text \<open>
  A tap device is put under the bridge it names, or under the first; a name that is no bridge is
  ignored. Its address becomes a next hop of the anycast route.
\<close>

definition set_master :: "(nl_call \<Rightarrow> 'k \<Rightarrow> err \<times> 'k) \<Rightarrow> netdev_spec list \<Rightarrow> netdev_spec \<Rightarrow> 'k \<Rightarrow> err \<times> 'k" where
  "set_master nl bridges tap k =
     (let masterName = (if nd_Link tap = [] then nd_Name (hd bridges) else nd_Link tap)
      in if masterName \<in> set (map nd_Name bridges)
         then nl_do nl (LinkSetMaster (nd_Name tap) masterName) ''cannot set link b/w'' (\<lambda>k. (None, k)) k
         else (None, k))"

definition next_hops :: "(string \<Rightarrow> go_error + cidr) \<Rightarrow> netdev_spec \<Rightarrow> (u8 list) option list" where
  "next_hops parseAddr tap =
     (if nd_IP tap = [] then []
      else (case parseAddr (nd_IP tap) of Inl _ \<Rightarrow> [] | Inr (ip, _) \<Rightarrow> [To4 (Some ip)]))"

definition add_tap :: "(nl_call \<Rightarrow> 'k \<Rightarrow> err \<times> 'k) \<Rightarrow> (string \<Rightarrow> go_error + cidr) \<Rightarrow> netdev_spec list \<Rightarrow> netdev_spec \<Rightarrow>
      (u8 list) option list \<times> 'k \<Rightarrow> err \<times> (u8 list) option list \<times> 'k" where
  "add_tap nl parseAddr bridges tap s = (case s of (multiPath, k) \<Rightarrow>
     (case nl_do nl (LinkAddTap (nd_Name tap)) ''cannot create tap device''
             (nl_do nl (LinkSetUp (nd_Name tap)) ''cannot set link up'' (set_addr nl parseAddr tap)) k of
        (Some e, k) \<Rightarrow> (Some e, multiPath, k)
      | (None, k) \<Rightarrow>
          let multiPath = multiPath @ next_hops parseAddr tap
          in (case set_master nl bridges tap k of (e, k) \<Rightarrow> (e, multiPath, k))))"

definition anycast :: cidr where
  "anycast = (v4_mapped [10, 0, 0, 123], 32)"

definition setupNetwork :: "(nl_call \<Rightarrow> 'k \<Rightarrow> err \<times> 'k) \<Rightarrow> (string \<Rightarrow> go_error + cidr) \<Rightarrow> harness_config \<Rightarrow> 'k \<Rightarrow>
      err \<times> 'k" where
  "setupNetwork nl parseAddr cfg k =
     (case nl (LinkByName ''lo'') k of
        (Some _, k) \<Rightarrow> (Some (ErrorText ''cannot get loopback interface by name''), k)
      | (None, k) \<Rightarrow>
          nl_do nl (LinkSetUp ''lo'') ''cannot set link up'' (\<lambda>k.
            let bridges = Bridges cfg
            in if bridges = [] then (Some (ErrorText ''no bridges defined in config''), k)
               else (case each (add_bridge nl parseAddr) bridges k of
                       (Some e, k) \<Rightarrow> (Some e, k)
                     | (None, k) \<Rightarrow>
                         (case each (add_tap nl parseAddr bridges) (Taps cfg) ([], k) of
                            (Some e, _, k) \<Rightarrow> (Some e, k)
                          | (None, multiPath, k) \<Rightarrow>
                              if multiPath = [] then (None, k)
                              else nl_do nl (RouteAdd anycast multiPath) ''cannot add route'' (\<lambda>k. (None, k)) k))) k)"

definition prepareVMs :: "harness_config \<Rightarrow> err" where
  "prepareVMs cfg = None"

definition Setup :: "(nl_call \<Rightarrow> 'k \<Rightarrow> err \<times> 'k) \<Rightarrow> (string \<Rightarrow> go_error + cidr) \<Rightarrow> harness_config \<Rightarrow> 'k \<Rightarrow> err \<times> 'k" where
  "Setup nl parseAddr cfg k =
     (case setupNetwork nl parseAddr cfg k of
        (Some _, k) \<Rightarrow> (None, k)
      | (None, k) \<Rightarrow> (prepareVMs cfg, k))"

definition Teardown :: "harness_config \<Rightarrow> err" where
  "Teardown cfg = None"

definition RunVMAgent :: err where
  "RunVMAgent = None"

text \<open>The stub of the agent, \<open>internal/adapter/vmagent\<close>: both functions panic.\<close>

definition vmagent_New :: "unit go" where
  "vmagent_New = Inl PanicCall"

definition vmagent_RunVMAgent :: "err go" where
  "vmagent_RunVMAgent = Inl PanicCall"

section \<open>The command line\<close>

definition harness_GetConfig :: "(string \<Rightarrow> go_error + u8 list) \<Rightarrow> (u8 list \<Rightarrow> go_error + harness_config) \<Rightarrow> string list \<Rightarrow>
      (go_error + harness_config) go" where
  "harness_GetConfig readFile unmarshal args =
     (if length args \<noteq> 3 then (if args = [] then Inl IndexOutOfRange else Inr (Inl (ErrorText ''incorrect arguments'')))
      else (case readFile (args ! 1) of
              Inl e \<Rightarrow> Inr (Inl e)
            | Inr b \<Rightarrow> Inr (unmarshal b)))"

text \<open>\<open>main\<close>: its exit status; \<open>run\<close> is the run of the tests.\<close>

definition harness_main :: "(nl_call \<Rightarrow> 'k \<Rightarrow> err \<times> 'k) \<Rightarrow> (string \<Rightarrow> go_error + cidr) \<Rightarrow> (harness_config \<Rightarrow> 'k \<Rightarrow> err \<times> 'k) \<Rightarrow>
      (string \<Rightarrow> go_error + u8 list) \<Rightarrow> (u8 list \<Rightarrow> go_error + harness_config) \<Rightarrow> string list \<Rightarrow> 'k \<Rightarrow> (nat \<times> 'k) go" where
  "harness_main nl parseAddr run readFile unmarshal args k =
     (case harness_GetConfig readFile unmarshal args of
        Inl p \<Rightarrow> Inl p
      | Inr (Inl _) \<Rightarrow> Inr (1, k)
      | Inr (Inr cfg) \<Rightarrow>
          (case (if args ! 2 = ''setup'' then Setup nl parseAddr cfg k
                 else if args ! 2 = ''teardown'' then (Teardown cfg, k)
                 else if args ! 2 = ''run'' then run cfg k
                 else if args ! 2 = ''vm-agent'' then (RunVMAgent, k)
                 else (None, k)) of
             (Some _, k) \<Rightarrow> Inr (1, k)
           | (None, k) \<Rightarrow> Inr (0, k)))"

section \<open>The tap device\<close>

definition htons :: "u16 \<Rightarrow> u16" where
  "htons i =
     (let b0 = (ucast i :: u8); b1 = (ucast (drop_bit 8 i) :: u8)
      in ucast b1 OR push_bit 8 (ucast b0))"

text \<open>The request of the ioctl: the name copied into sixteen bytes, and the flags.\<close>

definition ifreq :: "string \<Rightarrow> u8 list \<times> u16" where
  "ifreq name =
     (let bytes = map (\<lambda>c. of_char c) name
      in (take 16 (bytes @ replicate 16 0), 0x0002 OR 0x1000))"

text \<open>
  \<open>OpenTapFd\<close>: each argument is the outcome of a system call. The result has the descriptors that
  the function has opened and not closed.
\<close>

definition OpenTapFd :: "go_error + nat \<Rightarrow> (nat \<Rightarrow> u8 list \<times> u16 \<Rightarrow> err) \<Rightarrow> (u16 \<Rightarrow> go_error + nat) \<Rightarrow>
      (string \<Rightarrow> go_error + nat) \<Rightarrow> (nat \<Rightarrow> u16 \<Rightarrow> nat \<Rightarrow> err) \<Rightarrow> string \<Rightarrow> (go_error + nat \<times> nat) \<times> nat list" where
  "OpenTapFd openTun ioctl socket interfaceByName bind name =
     (case openTun of
        Inl e \<Rightarrow> (Inl e, [])
      | Inr fd \<Rightarrow>
          (case ioctl fd (ifreq name) of
             Some e \<Rightarrow> (Inl e, [fd])
           | None \<Rightarrow>
               (case socket (htons 0x0003) of
                  Inl e \<Rightarrow> (Inl e, [fd])
                | Inr sockfd \<Rightarrow>
                    (case interfaceByName name of
                       Inl e \<Rightarrow> (Inl e, [fd, sockfd])
                     | Inr index \<Rightarrow>
                         (case bind sockfd (htons 0x0003) index of
                            Some e \<Rightarrow> (Inl e, [fd, sockfd])
                          | None \<Rightarrow> (Inr (sockfd, index), [fd, sockfd]))))))"

section \<open>The run\<close>

definition sk_Recv :: "(nat \<Rightarrow> go_error + nat) \<Rightarrow> nat \<times> nat \<Rightarrow> nat \<times> err" where
  "sk_Recv recvfrom sk = (case recvfrom (fst sk) of Inl e \<Rightarrow> (0, Some e) | Inr n \<Rightarrow> (n, None))"

definition sk_Sendto :: "(nat \<Rightarrow> u8 list \<Rightarrow> nat \<Rightarrow> err) \<Rightarrow> nat \<times> nat \<Rightarrow> u8 list \<Rightarrow> err" where
  "sk_Sendto sendto sk frame =
     (case sendto (fst sk) frame (snd sk) of
        Some e \<Rightarrow> Some (Joined [e, ErrorText ''cannot write to socket''])
      | None \<Rightarrow> None)"

text \<open>
  The frame: a buffer of 1500 bytes that begins with a word. The receiving loop goes through the
  outcomes of the system call, \<open>None\<close> while it waits for the next; \<open>Run\<close> returns what the loop
  returns. The two goroutines it starts only log their errors.
\<close>

definition test_frame :: "u8 list" where
  "test_frame = map of_char ''yolo'' @ replicate 1496 0"

fun recv_loop :: "nat \<times> nat \<Rightarrow> (nat \<Rightarrow> go_error + nat) list \<Rightarrow> err option" where
  "recv_loop sk [] = None"
| "recv_loop sk (r # rs) =
     (case sk_Recv r sk of (_, Some e) \<Rightarrow> Some (Some e) | (_, None) \<Rightarrow> recv_loop sk rs)"

definition harness_Run :: "(string \<Rightarrow> go_error + nat \<times> nat) \<Rightarrow> (nat \<Rightarrow> u8 list \<Rightarrow> nat \<Rightarrow> err) \<Rightarrow>
      (nat \<Rightarrow> go_error + nat) list \<Rightarrow> harness_config \<Rightarrow> err option" where
  "harness_Run openTapFd sendto recvs cfg =
     (let taps = Taps cfg
      in if length taps = 0 then Some (Some (ErrorText ''no TAP devices defined in config''))
         else (case openTapFd (nd_Name (taps ! 0)) of
                 Inl e \<Rightarrow> Some (Some e)
               | Inr sk \<Rightarrow>
                   (case sk_Sendto sendto sk test_frame of
                      Some e \<Rightarrow> Some (Some e)
                    | None \<Rightarrow> recv_loop sk recvs)))"

text \<open>
  \<open>fmt.Sprintf\<close> with one string, for the verbs \<open>%s\<close> and \<open>%%\<close>: a verb too many is
  reported in the result, and so is an argument that no verb takes.
\<close>

fun sprintf_s :: "string \<Rightarrow> string option \<Rightarrow> string" where
  "sprintf_s [] None = []"
| "sprintf_s [] (Some a) = ''%!(EXTRA string='' @ a @ '')''"
| "sprintf_s (c # r) a =
     (if c = CHR ''%'' \<and> r \<noteq> [] \<and> hd r = CHR ''s''
      then (case a of Some x \<Rightarrow> x | None \<Rightarrow> ''%!s(MISSING)'') @ sprintf_s (tl r) None
      else if c = CHR ''%'' \<and> r \<noteq> [] \<and> hd r = CHR ''%'' then CHR ''%'' # sprintf_s (tl r) a
      else c # sprintf_s r a)"

text \<open>
  \<open>startUDPLB\<close>: the outcomes of the calls in their order. The result is the command with what has
  been written to its standard input before it starts.
\<close>

record start_env =
  se_StdinPipe :: err
  se_ReadFile :: "string \<Rightarrow> go_error + string"
  se_Write :: "string \<Rightarrow> err"
  se_StdoutPipe :: err
  se_StderrPipe :: err
  se_Start :: err

record command =
  cmd_path :: string
  cmd_args :: "string list"
  cmd_stdin :: string

definition startUDPLB :: "start_env \<Rightarrow> string \<Rightarrow> go_error + command" where
  "startUDPLB env ifname =
     (let fail = (\<lambda>e. Inl (Joined [e, ErrorText ''starting udplb on if'']))
      in case se_StdinPipe env of
           Some e \<Rightarrow> fail e
         | None \<Rightarrow>
             (case se_ReadFile env ''./test/udplb.yaml'' of
                Inl e \<Rightarrow> fail e
              | Inr template \<Rightarrow>
                  let cfgFile = sprintf_s template (Some ifname)
                  in (case se_Write env cfgFile of
                        Some e \<Rightarrow> fail e
                      | None \<Rightarrow>
                          (case se_StdoutPipe env of
                             Some e \<Rightarrow> fail e
                           | None \<Rightarrow>
                               (case se_StderrPipe env of
                                  Some e \<Rightarrow> fail e
                                | None \<Rightarrow>
                                    (case se_Start env of
                                       Some e \<Rightarrow> fail e
                                     | None \<Rightarrow> Inr \<lparr>cmd_path = ''./udplb.o'', cmd_args = [''-''],
                                                    cmd_stdin = cfgFile\<rparr>))))))"

section \<open>What the harness builds\<close>

lemma Bridges_filter: "Bridges c = filter (\<lambda>nd. nd_Type nd = ''bridge'') (HostNetdevs c)"
  by (simp add: Bridges_def fold_collect)

lemma Taps_filter: "Taps c = filter (\<lambda>nd. nd_Type nd = ''tap'') (HostNetdevs c)"
  by (simp add: Taps_def fold_collect)

text \<open>A kernel that accepts every call and records it; the calls a configuration asks for.\<close>

definition recording :: "nl_call \<Rightarrow> nl_call list \<Rightarrow> err \<times> nl_call list" where
  "recording call k = (None, k @ [call])"

definition addr_calls :: "(string \<Rightarrow> go_error + cidr) \<Rightarrow> netdev_spec \<Rightarrow> nl_call list" where
  "addr_calls parseAddr nd =
     (if nd_IP nd = [] then []
      else (case parseAddr (nd_IP nd) of Inl _ \<Rightarrow> [] | Inr a \<Rightarrow> [AddrAdd (nd_Name nd) a]))"

definition master_calls :: "netdev_spec list \<Rightarrow> netdev_spec \<Rightarrow> nl_call list" where
  "master_calls bridges tap =
     (let m = (if nd_Link tap = [] then nd_Name (hd bridges) else nd_Link tap)
      in if m \<in> nd_Name ` set bridges then [LinkSetMaster (nd_Name tap) m] else [])"

definition network_calls :: "(string \<Rightarrow> go_error + cidr) \<Rightarrow> netdev_spec list \<Rightarrow> netdev_spec list \<Rightarrow> nl_call list" where
  "network_calls parseAddr bridges taps =
     [LinkByName ''lo'', LinkSetUp ''lo''] @
     concat (map (\<lambda>br. LinkAddBridge (nd_Name br) # addr_calls parseAddr br) bridges) @
     concat (map (\<lambda>tap. [LinkAddTap (nd_Name tap), LinkSetUp (nd_Name tap)] @ addr_calls parseAddr tap @
                        master_calls bridges tap) taps) @
     (let hops = concat (map (next_hops parseAddr) taps) in if hops = [] then [] else [RouteAdd anycast hops])"

definition parses :: "(string \<Rightarrow> go_error + cidr) \<Rightarrow> netdev_spec \<Rightarrow> bool" where
  "parses parseAddr nd \<longleftrightarrow> nd_IP nd = [] \<or> (\<exists>a. parseAddr (nd_IP nd) = Inr a)"

lemma set_addr_recording:
  "parses parseAddr nd \<Longrightarrow> set_addr recording parseAddr nd k = (None, k @ addr_calls parseAddr nd)"
  by (auto simp: parses_def set_addr_def addr_calls_def nl_do_def recording_def)

lemma each_bridge_recording:
  "\<forall>nd \<in> set nds. parses parseAddr nd \<Longrightarrow> each (add_bridge recording parseAddr) nds k =
     (None, k @ concat (map (\<lambda>br. LinkAddBridge (nd_Name br) # addr_calls parseAddr br) nds))"
  by (induction nds arbitrary: k) (simp_all add: add_bridge_def nl_do_def recording_def[of "LinkAddBridge _"] set_addr_recording)

lemma set_master_recording: "set_master recording bridges tap k = (None, k @ master_calls bridges tap)"
  by (simp add: set_master_def master_calls_def nl_do_def recording_def Let_def)

lemma each_tap_recording:
  assumes "\<forall>nd \<in> set nds. parses parseAddr nd"
  shows "each (add_tap recording parseAddr bridges) nds (hops, k) =
     (None, hops @ concat (map (next_hops parseAddr) nds),
      k @ concat (map (\<lambda>tap. [LinkAddTap (nd_Name tap), LinkSetUp (nd_Name tap)] @ addr_calls parseAddr tap @
                        master_calls bridges tap) nds))"
  using assms
proof (induction nds arbitrary: hops k)
  case (Cons tap nds)
  have "add_tap recording parseAddr bridges tap (hops, k) = (None, hops @ next_hops parseAddr tap,
      k @ [LinkAddTap (nd_Name tap), LinkSetUp (nd_Name tap)] @ addr_calls parseAddr tap @ master_calls bridges tap)"
    using Cons.prems
    by (simp add: add_tap_def nl_do_def recording_def[of "LinkAddTap _"] recording_def[of "LinkSetUp _"]
        set_addr_recording set_master_recording Let_def)
  then show ?case using Cons by simp
qed simp

text \<open>
  The harness builds the network of its configuration. When there is a bridge and every address
  parses, the calls it makes are: the loopback device up, every bridge with its address, every tap
  device up with its address and under its bridge, and one anycast route over the addresses of the
  tap devices, if any has one. Bridges come before the tap devices that are put under them.
\<close>

theorem setup_builds_network:
  assumes "bridges = filter (\<lambda>nd. nd_Type nd = ''bridge'') (HostNetdevs cfg)" and "bridges \<noteq> []"
    and "taps = filter (\<lambda>nd. nd_Type nd = ''tap'') (HostNetdevs cfg)"
    and "\<forall>nd \<in> set (bridges @ taps). parses parseAddr nd"
  shows "setupNetwork recording parseAddr cfg [] = (None, network_calls parseAddr bridges taps)"
proof -
  have dev: "Bridges cfg = bridges" "Taps cfg = taps" using assms(1,3) by (simp_all add: Bridges_filter Taps_filter)
  have ok: "\<forall>nd \<in> set bridges. parses parseAddr nd" "\<forall>nd \<in> set taps. parses parseAddr nd" using assms(4) by auto
  show ?thesis
    unfolding setupNetwork_def dev network_calls_def
    using assms(2)
    by (simp add: nl_do_def recording_def[of "LinkByName _"] recording_def[of "LinkSetUp _"] recording_def[of "RouteAdd _ _"]
        each_bridge_recording[OF ok(1)] each_tap_recording[OF ok(2)] Let_def del: concat_eq_Nil_conv)
qed

theorem setup_builds_network_witness:
  "setupNetwork recording (\<lambda>_. Inr ([10, 0, 0, 1], 24))
     \<lparr>HostNetdevs = [\<lparr>nd_Name = ''t'', nd_IP = ''10.0.0.1/24'', nd_Type = ''tap'', nd_Link = []\<rparr>,
                     \<lparr>nd_Name = ''b'', nd_IP = [], nd_Type = ''bridge'', nd_Link = []\<rparr>], VMs_Specs = []\<rparr> [] =
   (None, [LinkByName ''lo'', LinkSetUp ''lo'', LinkAddBridge ''b'', LinkAddTap ''t'', LinkSetUp ''t'',
           AddrAdd ''t'' ([10, 0, 0, 1], 24), LinkSetMaster ''t'' ''b'', RouteAdd anycast [Some [10, 0, 0, 1]]])"
  by (subst setup_builds_network[OF refl _ refl])
    (simp_all add: parses_def network_calls_def addr_calls_def master_calls_def next_hops_def To4_def Let_def)

section \<open>What goes wrong\<close>

text \<open>
  A setup that fails is reported as a success: whatever the kernel refuses, \<open>Setup\<close> returns no
  error and the command exits with status 0.
\<close>

theorem setup_hides_errors:
  assumes "readFile path = Inr b" and "unmarshal b = Inr cfg"
  shows "fst (Setup nl parseAddr cfg k) = None \<and>
         (\<exists>k'. harness_main nl parseAddr run readFile unmarshal [prog, path, ''setup''] k = Inr (0, k'))"
proof -
  have "fst (Setup nl parseAddr cfg k) = None" by (simp add: Setup_def prepareVMs_def split: prod.splits option.splits)
  then show ?thesis
    using assms by (cases "Setup nl parseAddr cfg k") (simp add: harness_main_def harness_GetConfig_def)
qed

theorem setup_hides_errors_witness:
  "fst (setupNetwork (\<lambda>_ _. (Some ErrNotFound, ())) (\<lambda>_. Inl ErrNotFound) \<lparr>HostNetdevs = [], VMs_Specs = []\<rparr> ()) \<noteq> None \<and>
   fst (Setup (\<lambda>_ _. (Some ErrNotFound, ())) (\<lambda>_. Inl ErrNotFound) \<lparr>HostNetdevs = [], VMs_Specs = []\<rparr> ()) = None"
  using setup_hides_errors[of "\<lambda>_. Inr []" "[]" "[]" "\<lambda>_. Inr \<lparr>HostNetdevs = [], VMs_Specs = []\<rparr>"
      "\<lparr>HostNetdevs = [], VMs_Specs = []\<rparr>" "\<lambda>_ _. (Some ErrNotFound, ())" "\<lambda>_. Inl ErrNotFound" "()"]
  by (simp add: setupNetwork_def)

text \<open>
  The documented order of the arguments does not work: invoked with the command first and the path
  of the configuration second, the harness takes the command for a path, and does nothing when the
  word after it is not one of its commands.
\<close>

theorem documented_arguments_do_nothing:
  assumes "path \<notin> {''setup'', ''teardown'', ''run'', ''vm-agent''}"
  shows "\<exists>status. harness_main nl parseAddr run readFile unmarshal [prog, command, path] k = Inr (status, k)"
  using assms by (auto simp: harness_main_def harness_GetConfig_def split: sum.splits)

theorem documented_arguments_do_nothing_witness:
  "\<exists>status. harness_main recording (\<lambda>_. Inl ErrNotFound) (\<lambda>_ k. (None, k)) (\<lambda>_. Inl ErrNotFound) (\<lambda>_. Inl ErrNotFound)
     [''udplb_test'', ''setup'', ''test.yaml''] [] = Inr (status, [])"
  by (rule documented_arguments_do_nothing) simp

text \<open>
  \<open>htons\<close> swaps the two bytes, on either byte order, and is its own inverse. A tap device that does
  not open keeps its descriptors: every failure after the first call leaves at least one open.
\<close>

lemma htons_involution: "htons (htons i) = i"
proof (rule bit_word_eqI)
  fix n assume "n < LENGTH(16)"
  then show "bit (htons (htons i)) n = bit i n"
    by (cases "n < 8") (auto simp: htons_def Let_def bit_simps)
qed

theorem OpenTapFd_leaks:
  assumes "fst (OpenTapFd (Inr fd) ioctl socket interfaceByName bind name) = Inl e"
  shows "fd \<in> set (snd (OpenTapFd (Inr fd) ioctl socket interfaceByName bind name))"
  using assms by (auto simp: OpenTapFd_def split: option.splits sum.splits)

theorem OpenTapFd_leaks_witness:
  "fst (OpenTapFd (Inr 5) (\<lambda>_ _. Some ErrNotFound) (\<lambda>_. Inr 6) (\<lambda>_. Inr 1) (\<lambda>_ _ _. None) ''tap0'') = Inl ErrNotFound \<and>
   5 \<in> set (snd (OpenTapFd (Inr 5) (\<lambda>_ _. Some ErrNotFound) (\<lambda>_. Inr 6) (\<lambda>_. Inr 1) (\<lambda>_ _ _. None) ''tap0''))"
  using OpenTapFd_leaks[of 5 "\<lambda>_ _. Some ErrNotFound" "\<lambda>_. Inr 6" "\<lambda>_. Inr 1" "\<lambda>_ _ _. None" "''tap0''" ErrNotFound]
  by (simp add: OpenTapFd_def)

text \<open>
  The run has no end that succeeds: when \<open>Run\<close> returns at all it returns an error, and the command
  \<open>run\<close> of the harness exits with status 1.
\<close>

lemma recv_loop_error: "recv_loop sk rs = Some r \<Longrightarrow> r \<noteq> None"
  by (induction rs) (auto split: prod.splits option.splits)

theorem run_never_succeeds:
  assumes "harness_Run openTapFd sendto recvs cfg = Some r"
    and "readFile path = Inr b" and "unmarshal b = Inr cfg"
  shows "r \<noteq> None \<and> harness_main nl parseAddr (\<lambda>_ k. (r, k)) readFile unmarshal [prog, path, ''run''] k = Inr (1, k)"
proof -
  have "r \<noteq> None"
  proof
    assume "r = None"
    with assms(1) show False
      using recv_loop_error by (auto simp: harness_Run_def Let_def split: if_splits sum.splits option.splits)
  qed
  then show ?thesis using assms(2,3) by (auto simp: harness_main_def harness_GetConfig_def)
qed

theorem run_never_succeeds_witness:
  "harness_Run (\<lambda>_. Inr (3, 1)) (\<lambda>_ _ _. None) [\<lambda>_. Inr 60, \<lambda>_. Inl ErrNotFound]
     \<lparr>HostNetdevs = [\<lparr>nd_Name = ''tap0'', nd_IP = [], nd_Type = ''tap'', nd_Link = []\<rparr>], VMs_Specs = []\<rparr> = Some (Some ErrNotFound) \<and>
   harness_main (\<lambda>_ _. (None, ())) (\<lambda>_. Inl ErrNotFound) (\<lambda>_ k. (Some ErrNotFound, k)) (\<lambda>_. Inr [])
     (\<lambda>_. Inr \<lparr>HostNetdevs = [\<lparr>nd_Name = ''tap0'', nd_IP = [], nd_Type = ''tap'', nd_Link = []\<rparr>], VMs_Specs = []\<rparr>)
     [''udplb_test'', ''config.yaml'', ''run''] () = Inr (1, ())"
proof -
  have run: "harness_Run (\<lambda>_. Inr (3, 1)) (\<lambda>_ _ _. None) [\<lambda>_. Inr 60, \<lambda>_. Inl ErrNotFound]
     \<lparr>HostNetdevs = [\<lparr>nd_Name = ''tap0'', nd_IP = [], nd_Type = ''tap'', nd_Link = []\<rparr>], VMs_Specs = []\<rparr> = Some (Some ErrNotFound)"
    by (simp add: harness_Run_def Taps_def sk_Sendto_def sk_Recv_def)
  then show ?thesis
    using run_never_succeeds[OF run, of "\<lambda>_. Inr []" "''config.yaml''" "[]"
        "\<lambda>_. Inr \<lparr>HostNetdevs = [\<lparr>nd_Name = ''tap0'', nd_IP = [], nd_Type = ''tap'', nd_Link = []\<rparr>], VMs_Specs = []\<rparr>"
        "\<lambda>_ _. (None, ())" "\<lambda>_. Inl ErrNotFound" "''udplb_test''" "()"] by simp
qed

text \<open>
  A load balancer that starts has the template on its standard input with the name of the interface
  in place of the verb, for a template with one verb \<open>%s\<close>.
\<close>

lemma sprintf_plain: "CHR ''%'' \<notin> set t \<Longrightarrow> sprintf_s (t @ r) a = t @ sprintf_s r a"
  by (induction t) auto

theorem startUDPLB_config:
  assumes "startUDPLB env ifname = Inr cmd" and "se_ReadFile env ''./test/udplb.yaml'' = Inr (pre @ ''%s'' @ post)"
    and "CHR ''%'' \<notin> set pre" and "CHR ''%'' \<notin> set post"
  shows "cmd_stdin cmd = pre @ ifname @ post \<and> cmd_args cmd = [''-'']"
proof -
  have "sprintf_s (pre @ ''%s'' @ post) (Some ifname) = pre @ ifname @ post"
    using assms(3,4) sprintf_plain[of post "[]" None] by (simp add: sprintf_plain)
  then show ?thesis
    using assms(1,2) by (auto simp: startUDPLB_def Let_def split: option.splits)
qed

theorem startUDPLB_config_witness:
  "\<exists>cmd. startUDPLB \<lparr>se_StdinPipe = None, se_ReadFile = (\<lambda>_. Inr ''ifname: %s''), se_Write = (\<lambda>_. None),
      se_StdoutPipe = None, se_StderrPipe = None, se_Start = None\<rparr> ''tap0'' = Inr cmd \<and> cmd_stdin cmd = ''ifname: tap0''"
proof -
  let ?env = "\<lparr>se_StdinPipe = None, se_ReadFile = (\<lambda>_. Inr ''ifname: %s''), se_Write = (\<lambda>_. None),
      se_StdoutPipe = None, se_StderrPipe = None, se_Start = None\<rparr>"
  obtain cmd where "startUDPLB ?env ''tap0'' = Inr cmd" by (simp add: startUDPLB_def)
  then show ?thesis using startUDPLB_config[of ?env "''tap0''" cmd "''ifname: ''" "[]"] by simp
qed

end
