(* ===== verification/Benchmark_Parser.thy ===== *)
theory Benchmark_Parser
  imports Net_Util
begin

text \<open>
  \<open>analysis/rlt/cmd/parse/main.go\<close>: the tool that turns the log of the lookup table benchmarks
  into comma separated values. Its regular expression is a sequence of literals and repeated
  character classes, some in groups. The package \<open>regexp\<close> matches it with backtracking
  semantics; the model matches greedily, and the reference \<open>piece_matches\<close> says which strings the
  expression denotes. The two agree because no class contains a character with which the next
  part can begin.
\<close>

section \<open>Matching\<close>

datatype tok = Lit string | Many "char \<Rightarrow> bool"

datatype piece = Plain tok | Group "tok list"

fun match_tok :: "tok \<Rightarrow> string \<Rightarrow> (string \<times> string) option" where
  "match_tok (Lit l) s = (if take (length l) s = l then Some (l, drop (length l) s) else None)"
| "match_tok (Many P) s = (if takeWhile P s = [] then None else Some (takeWhile P s, dropWhile P s))"

fun match_toks :: "tok list \<Rightarrow> string \<Rightarrow> (string \<times> string) option" where
  "match_toks [] s = Some ([], s)"
| "match_toks (t # ts) s =
     (case match_tok t s of
        None \<Rightarrow> None
      | Some (p, r) \<Rightarrow> map_option (\<lambda>(q, r'). (p @ q, r')) (match_toks ts r))"

fun match_pieces :: "piece list \<Rightarrow> string \<Rightarrow> (string list \<times> string) option" where
  "match_pieces [] s = Some ([], s)"
| "match_pieces (Plain t # ps) s =
     (case match_tok t s of None \<Rightarrow> None | Some (_, r) \<Rightarrow> match_pieces ps r)"
| "match_pieces (Group ts # ps) s =
     (case match_toks ts s of
        None \<Rightarrow> None
      | Some (g, r) \<Rightarrow> map_option (\<lambda>(gs, r'). (g # gs, r')) (match_pieces ps r))"

text \<open>
  \<open>FindAllSubmatch\<close>: the leftmost match, then the matches after its end. An expression that
  can match the empty string is not searched for here.
\<close>

function find_all :: "piece list \<Rightarrow> string \<Rightarrow> string list list" where
  "find_all ps [] = []"
| "find_all ps (c # s) =
     (case match_pieces ps (c # s) of
        None \<Rightarrow> find_all ps s
      | Some (gs, r) \<Rightarrow> if length r \<le> length s then gs # find_all ps r else find_all ps s)"
  by pat_completeness auto
termination by (relation "measure (length \<circ> snd)") auto

section \<open>The expression\<close>

definition is_letter :: "char \<Rightarrow> bool" where
  "is_letter c \<longleftrightarrow> char_in 97 122 c \<or> char_in 65 90 c"

definition is_blank :: "char \<Rightarrow> bool" where
  "is_blank c \<longleftrightarrow> c = CHR 0x20 \<or> c = CHR 0x09"

definition bmLupTableRegex :: "piece list" where
  "bmLupTableRegex = [Plain (Lit ''BenchmarkLookupTable'')]"

definition slashDelimiter :: "piece list" where
  "slashDelimiter = [Plain (Lit ''/'')]"

definition funcRegex :: "piece list" where
  "funcRegex = [Plain (Lit ''func=''), Group [Many is_letter]]"

definition primeRegex :: "piece list" where
  "primeRegex = [Plain (Lit ''prime=''), Group [Many is_digit]]"

definition nBeforeRegex :: "piece list" where
  "nBeforeRegex = [Plain (Lit ''nBefore=''), Group [Many is_digit]]"

definition nAfterRegex :: "piece list" where
  "nAfterRegex = [Plain (Lit ''nAfter=''), Group [Many is_digit]]"

definition spaceTabDelimiter :: "piece list" where
  "spaceTabDelimiter = [Plain (Many is_blank)]"

definition numbersRegex :: "piece list" where
  "numbersRegex = [Plain (Many is_digit)]"

definition execTimeRegex :: "piece list" where
  "execTimeRegex = [Group [Many is_digit], Plain (Lit '' ns/op'')]"

definition unchangedEntriesRegex :: "piece list" where
  "unchangedEntriesRegex = [Group [Many is_digit, Lit ''.'', Many is_digit], Plain (Lit '' %unchangedEntries/op'')]"

definition allocatedBytesRegex :: "piece list" where
  "allocatedBytesRegex = [Group [Many is_digit], Plain (Lit '' B/op'')]"

definition allocationsRegex :: "piece list" where
  "allocationsRegex = [Group [Many is_digit], Plain (Lit '' allocs/op'')]"

definition bm_regex :: "piece list" where
  "bm_regex =
     bmLupTableRegex @ slashDelimiter @ funcRegex @ slashDelimiter @ primeRegex @ slashDelimiter @
     nBeforeRegex @ slashDelimiter @ nAfterRegex @ [Plain (Lit ''-''), Plain (Many is_digit)] @ spaceTabDelimiter @
     numbersRegex @ spaceTabDelimiter @
     execTimeRegex @ spaceTabDelimiter @ unchangedEntriesRegex @ spaceTabDelimiter @
     allocatedBytesRegex @ spaceTabDelimiter @ allocationsRegex"

section \<open>The program\<close>

text \<open>The output and the exit code; the files are an argument.\<close>

definition newline :: string where
  "newline = [CHR 0x0A]"

definition parse_usage :: "string \<Rightarrow> string" where
  "parse_usage prog = ''USAGE:'' @ newline @ [CHR 0x09] @ prog @ '' <BENCHMARK LOG PATH>'' @ newline"

definition fmtExit :: "string \<Rightarrow> string \<times> nat" where
  "fmtExit msg = (msg, 1)"

fun csv_row :: "string list \<Rightarrow> string" where
  "csv_row [] = newline"
| "csv_row [m] = m @ newline"
| "csv_row (m # ms) = m @ '','' @ csv_row ms"

definition csv_header :: string where
  "csv_header = ''algorithm,prime,nBefore,nAfter,execTime,unchangedEntries,allocatedBytes,allocations'' @ newline"

definition parse_main :: "string list \<Rightarrow> (string \<Rightarrow> string option) \<Rightarrow> (string \<times> nat) go" where
  "parse_main args files =
     (if length args \<noteq> 2
      then (case slice_get args 0 of Inl p \<Rightarrow> Inl p | Inr prog \<Rightarrow> Inr (fmtExit (parse_usage prog)))
      else let logPath = args ! 1
           in Inr (case files logPath of
                     None \<Rightarrow> fmtExit (''error reading benchmark log file: '' @ logPath)
                   | Some b \<Rightarrow>
                       let m = find_all bm_regex b
                       in if m = [] then fmtExit (''cannot match any records'' @ newline)
                          else (csv_header @ concat (map csv_row m), 0)))"

section \<open>The strings an expression denotes\<close>

fun tok_matches :: "tok \<Rightarrow> string \<Rightarrow> bool" where
  "tok_matches (Lit l) w \<longleftrightarrow> w = l"
| "tok_matches (Many P) w \<longleftrightarrow> w \<noteq> [] \<and> list_all P w"

inductive toks_match :: "tok list \<Rightarrow> string \<Rightarrow> bool" where
  toks_Nil: "toks_match [] []"
| toks_Cons: "tok_matches t v \<Longrightarrow> toks_match ts w \<Longrightarrow> toks_match (t # ts) (v @ w)"

inductive piece_matches :: "piece list \<Rightarrow> string \<Rightarrow> string list \<Rightarrow> bool" where
  pieces_Nil: "piece_matches [] [] []"
| pieces_Plain: "tok_matches t v \<Longrightarrow> piece_matches ps w gs \<Longrightarrow> piece_matches (Plain t # ps) (v @ w) gs"
| pieces_Group: "toks_match ts v \<Longrightarrow> piece_matches ps w gs \<Longrightarrow> piece_matches (Group ts # ps) (v @ w) (v # gs)"

inductive_cases toks_match_elims: "toks_match [] w" "toks_match (t # ts) w"
inductive_cases piece_matches_elims: "piece_matches [] w gs" "piece_matches (Plain t # ps) w gs"
  "piece_matches (Group ts # ps) w gs"

text \<open>With which characters a part can begin, and that every class is cut off by what follows.\<close>

fun starts :: "tok \<Rightarrow> char \<Rightarrow> bool" where
  "starts (Lit l) c \<longleftrightarrow> l \<noteq> [] \<and> hd l = c"
| "starts (Many P) c \<longleftrightarrow> P c"

fun cut_off :: "tok list \<Rightarrow> bool" where
  "cut_off [] \<longleftrightarrow> True"
| "cut_off [t] \<longleftrightarrow> (case t of Lit l \<Rightarrow> l \<noteq> [] | Many _ \<Rightarrow> False)"
| "cut_off (t # u # ts) \<longleftrightarrow>
     (case t of Lit l \<Rightarrow> l \<noteq> [] | Many P \<Rightarrow> (\<forall>c. P c \<longrightarrow> \<not> starts u c)) \<and> cut_off (u # ts)"

definition flatten :: "piece list \<Rightarrow> tok list" where
  "flatten ps = concat (map (\<lambda>p. case p of Plain t \<Rightarrow> [t] | Group ts \<Rightarrow> ts) ps)"

lemma flatten_simps [simp]:
  "flatten [] = []" "flatten (Plain t # ps) = t # flatten ps" "flatten (Group ts # ps) = ts @ flatten ps"
  by (simp_all add: flatten_def)

lemma toks_match_append: "toks_match ts v \<Longrightarrow> toks_match us w \<Longrightarrow> toks_match (ts @ us) (v @ w)"
  by (induction rule: toks_match.induct) (auto intro: toks_match.intros)

lemma flatten_matches: "piece_matches ps w gs \<Longrightarrow> toks_match (flatten ps) w"
  by (induction rule: piece_matches.induct) (auto intro: toks_match.intros toks_match_append)

lemma cut_off_tl: "cut_off (t # ts) \<Longrightarrow> cut_off ts"
  by (cases ts) auto

lemma cut_off_append: "cut_off (ts @ us) \<Longrightarrow> cut_off us"
  by (induction ts) (auto dest: cut_off_tl)

lemma match_starts:
  assumes "toks_match (u # us) w" and "cut_off (u # us)"
  shows "w \<noteq> []" and "starts u (hd w)"
proof -
  obtain v w' where w: "w = v @ w'" "tok_matches u v" using assms(1) by (auto elim: toks_match_elims)
  moreover have "\<And>l. u = Lit l \<Longrightarrow> l \<noteq> []" using assms(2) by (cases us) auto
  ultimately have "v \<noteq> []" "starts u (hd v)" by (cases u; cases v; auto)+
  then show "w \<noteq> []" "starts u (hd w)" using w(1) by simp_all
qed

lemma match_tok_cut:
  assumes "cut_off (t # us)" and "tok_matches t v" and "toks_match us w"
  shows "match_tok t (v @ w @ r) = Some (v, w @ r)"
proof (cases t)
  case (Many P)
  then obtain u us' where us: "us = u # us'" using assms(1) by (cases us) auto
  have "w \<noteq> []" "starts u (hd w)" using match_starts[of u us' w] assms(1,3) us cut_off_tl by auto
  then obtain c w' where w: "w = c # w'" "\<not> P c" using assms(1) us Many by (cases w) auto
  have "takeWhile P (v @ w @ r) = v" "dropWhile P (v @ w @ r) = w @ r"
    using assms(2) Many w by (auto simp: list_all_iff takeWhile_append dropWhile_append)
  then show ?thesis using Many assms(2) by simp
qed (use assms(2) in simp)

lemma match_toks_cut:
  assumes "toks_match ts v" and "cut_off (ts @ us)" and "toks_match us w"
  shows "match_toks ts (v @ w @ r) = Some (v, w @ r)"
  using assms
proof (induction rule: toks_match.induct)
  case (toks_Cons t v ts v')
  have "match_tok t (v @ (v' @ w) @ r) = Some (v, (v' @ w) @ r)"
    using match_tok_cut[of t "ts @ us" v "v' @ w" r] toks_Cons toks_match_append[of ts v' us w] by simp
  then show ?case using toks_Cons cut_off_tl[of t "ts @ us"] by simp
qed simp

lemma match_pieces_cut:
  assumes "piece_matches ps w gs" and "cut_off (flatten ps)"
  shows "match_pieces ps (w @ r) = Some (gs, r)"
  using assms
proof (induction rule: piece_matches.induct)
  case (pieces_Plain t v ps w gs)
  have "match_tok t (v @ w @ r) = Some (v, w @ r)"
    using match_tok_cut[of t "flatten ps" v w r] pieces_Plain flatten_matches by simp
  then show ?case using pieces_Plain cut_off_tl[of t "flatten ps"] by simp
next
  case (pieces_Group ts v ps w gs)
  have "match_toks ts (v @ w @ r) = Some (v, w @ r)"
    using match_toks_cut[of ts v "flatten ps" w r] pieces_Group flatten_matches by simp
  then show ?case using pieces_Group cut_off_append[of ts "flatten ps"] by simp
qed simp

lemma match_tok_sound: "match_tok t s = Some (v, r) \<Longrightarrow> s = v @ r \<and> tok_matches t v"
  by (cases t) (auto split: if_splits simp: list_all_iff dest: set_takeWhileD, metis append_take_drop_id)

lemma match_toks_sound: "match_toks ts s = Some (v, r) \<Longrightarrow> s = v @ r \<and> toks_match ts v"
proof (induction ts arbitrary: s v)
  case (Cons t ts)
  then show ?case
    by (auto split: option.splits dest!: match_tok_sound Cons.IH intro: toks_match.intros)
qed (auto intro: toks_match.intros)

lemma match_pieces_sound: "match_pieces ps s = Some (gs, r) \<Longrightarrow> \<exists>w. s = w @ r \<and> piece_matches ps w gs"
proof (induction ps s arbitrary: gs rule: match_pieces.induct)
  case (2 t ps s)
  then obtain v r' where v: "match_tok t s = Some (v, r')" "match_pieces ps r' = Some (gs, r)"
    by (auto split: option.splits)
  then obtain w where "r' = w @ r" "piece_matches ps w gs" using 2 by blast
  then show ?case using match_tok_sound[OF v(1)] piece_matches.pieces_Plain by (metis append_assoc)
next
  case (3 ts ps s)
  then obtain v r' gs' where v: "match_toks ts s = Some (v, r')" "match_pieces ps r' = Some (gs', r)" "gs = v # gs'"
    by (auto split: option.splits)
  then obtain w where "r' = w @ r" "piece_matches ps w gs'" using 3 by blast
  then show ?case using match_toks_sound[OF v(1)] v(3) piece_matches.pieces_Group by (metis append_assoc)
qed (auto intro: piece_matches.intros)

lemmas regex_defs = bm_regex_def bmLupTableRegex_def slashDelimiter_def funcRegex_def primeRegex_def nBeforeRegex_def
  nAfterRegex_def spaceTabDelimiter_def numbersRegex_def execTimeRegex_def unchangedEntriesRegex_def
  allocatedBytesRegex_def allocationsRegex_def

lemma class_apart: "is_digit c \<Longrightarrow> c \<noteq> CHR ''/'' \<and> c \<noteq> CHR ''-'' \<and> c \<noteq> CHR ''.'' \<and> c \<noteq> CHR '' ''"
  "is_letter c \<Longrightarrow> c \<noteq> CHR ''/''" "is_blank c \<Longrightarrow> \<not> is_digit c"
  by (auto simp: is_digit_def is_letter_def is_blank_def char_in_def)

lemma bm_regex_cut_off: "cut_off (flatten bm_regex)"
  using class_apart by (auto simp: regex_defs)

text \<open>
  The greedy matcher is exact on the expression of the benchmark log: it finds a match at the
  front of a string, with these groups and this rest, if and only if the expression denotes the
  part before the rest with these groups.
\<close>

theorem benchmark_regex_exact:
  "match_pieces bm_regex s = Some (gs, r) \<longleftrightarrow> (\<exists>w. s = w @ r \<and> piece_matches bm_regex w gs)"
  using match_pieces_sound match_pieces_cut[OF _ bm_regex_cut_off] by blast

section \<open>Logs of the benchmark\<close>

text \<open>A line of the log, as the benchmark of the lookup tables prints it, and its eight values.\<close>

record bench_line =
  bl_func :: string
  bl_prime :: string
  bl_nBefore :: string
  bl_nAfter :: string
  bl_procs :: string
  bl_n :: string
  bl_execTime :: string
  bl_whole :: string
  bl_fraction :: string
  bl_bytes :: string
  bl_allocs :: string
  bl_blanks :: "string list"

definition bench_text :: "bench_line \<Rightarrow> string" where
  "bench_text b =
     ''BenchmarkLookupTable/func='' @ bl_func b @ ''/prime='' @ bl_prime b @ ''/nBefore='' @ bl_nBefore b @
     ''/nAfter='' @ bl_nAfter b @ ''-'' @ bl_procs b @ bl_blanks b ! 0 @ bl_n b @ bl_blanks b ! 1 @
     bl_execTime b @ '' ns/op'' @ bl_blanks b ! 2 @ bl_whole b @ ''.'' @ bl_fraction b @ '' %unchangedEntries/op'' @
     bl_blanks b ! 3 @ bl_bytes b @ '' B/op'' @ bl_blanks b ! 4 @ bl_allocs b @ '' allocs/op''"

definition bench_values :: "bench_line \<Rightarrow> string list" where
  "bench_values b = [bl_func b, bl_prime b, bl_nBefore b, bl_nAfter b, bl_execTime b,
     bl_whole b @ ''.'' @ bl_fraction b, bl_bytes b, bl_allocs b]"

definition number :: "string \<Rightarrow> bool" where
  "number w \<longleftrightarrow> w \<noteq> [] \<and> list_all is_digit w"

definition bench_ok :: "bench_line \<Rightarrow> bool" where
  "bench_ok b \<longleftrightarrow>
     bl_func b \<noteq> [] \<and> list_all is_letter (bl_func b) \<and>
     list_all number [bl_prime b, bl_nBefore b, bl_nAfter b, bl_procs b, bl_n b, bl_execTime b, bl_whole b,
                      bl_fraction b, bl_bytes b, bl_allocs b] \<and>
     length (bl_blanks b) = 5 \<and> list_all (\<lambda>w. w \<noteq> [] \<and> list_all is_blank w) (bl_blanks b)"

lemma piece_matches_append:
  "piece_matches ps v gs \<Longrightarrow> piece_matches qs w hs \<Longrightarrow> piece_matches (ps @ qs) (v @ w) (gs @ hs)"
  by (induction rule: piece_matches.induct) (auto intro: piece_matches.intros)

lemma plain_matches: "tok_matches t w \<Longrightarrow> piece_matches [Plain t] w []"
  using piece_matches.pieces_Plain[OF _ piece_matches.pieces_Nil] by fastforce

lemma group_matches: "toks_match ts w \<Longrightarrow> piece_matches [Group ts] w [w]"
  using piece_matches.pieces_Group[OF _ piece_matches.pieces_Nil] by fastforce

lemma toks_match_one: "tok_matches t v \<Longrightarrow> toks_match [t] v"
  using toks_Cons[OF _ toks_Nil] by fastforce

lemma toks_match_decimal:
  "number v \<Longrightarrow> number w \<Longrightarrow> toks_match [Many is_digit, Lit ''.'', Many is_digit] (v @ ''.'' @ w)"
  using toks_Cons[of "Many is_digit" v, OF _ toks_Cons[of "Lit ''.''" "''.''", OF _ toks_match_one[of "Many is_digit" w]]]
  by (simp add: number_def)

lemma labelled_matches:
  "toks_match ts w \<Longrightarrow> piece_matches [Plain (Lit l), Group ts] (l @ w) [w]"
  "toks_match ts w \<Longrightarrow> piece_matches [Group ts, Plain (Lit l)] (w @ l) [w]"
  using piece_matches_append[OF plain_matches[of "Lit l" l] group_matches[of ts w]]
    piece_matches_append[OF group_matches[of ts w] plain_matches[of "Lit l" l]] by simp_all

lemma number_toks: "number w \<Longrightarrow> toks_match [Many is_digit] w"
  by (rule toks_match_one) (simp add: number_def)

lemma func_matches: "w \<noteq> [] \<Longrightarrow> list_all is_letter w \<Longrightarrow> piece_matches funcRegex (''func='' @ w) [w]"
  unfolding funcRegex_def by (rule labelled_matches(1), rule toks_match_one) simp

lemma number_matches:
  assumes "number w"
  shows "piece_matches primeRegex (''prime='' @ w) [w]" "piece_matches nBeforeRegex (''nBefore='' @ w) [w]"
    "piece_matches nAfterRegex (''nAfter='' @ w) [w]" "piece_matches execTimeRegex (w @ '' ns/op'') [w]"
    "piece_matches allocatedBytesRegex (w @ '' B/op'') [w]" "piece_matches allocationsRegex (w @ '' allocs/op'') [w]"
  unfolding primeRegex_def nBeforeRegex_def nAfterRegex_def execTimeRegex_def allocatedBytesRegex_def allocationsRegex_def
  by (rule labelled_matches, rule number_toks, rule assms)+

lemma unchanged_matches:
  "number v \<Longrightarrow> number w \<Longrightarrow>
     piece_matches unchangedEntriesRegex ((v @ ''.'' @ w) @ '' %unchangedEntries/op'') [v @ ''.'' @ w]"
  unfolding unchangedEntriesRegex_def by (rule labelled_matches(2), rule toks_match_decimal)

lemma separator_matches:
  "piece_matches bmLupTableRegex ''BenchmarkLookupTable'' []" "piece_matches slashDelimiter ''/'' []"
  "w \<noteq> [] \<Longrightarrow> list_all is_blank w \<Longrightarrow> piece_matches spaceTabDelimiter w []"
  "number w \<Longrightarrow> piece_matches numbersRegex w []"
  unfolding bmLupTableRegex_def slashDelimiter_def spaceTabDelimiter_def numbersRegex_def
  by (rule plain_matches, simp add: number_def)+

lemma procs_matches: "number w \<Longrightarrow> piece_matches [Plain (Lit ''-''), Plain (Many is_digit)] (''-'' @ w) []"
  using piece_matches_append[OF plain_matches[of "Lit ''-''" "''-''"] plain_matches[of "Many is_digit" w]]
  by (simp add: number_def)

lemmas value_matches = func_matches number_matches unchanged_matches separator_matches procs_matches

lemma bench_text_matches:
  assumes "bench_ok b"
  shows "piece_matches bm_regex (bench_text b) (bench_values b)"
proof -
  obtain s0 s1 s2 s3 s4 where blanks: "bl_blanks b = [s0, s1, s2, s3, s4]"
    using assms by (auto simp: bench_ok_def numeral_eq_Suc length_Suc_conv)
  have "piece_matches bm_regex
     (''BenchmarkLookupTable'' @ ''/'' @ (''func='' @ bl_func b) @ ''/'' @ (''prime='' @ bl_prime b) @ ''/'' @
      (''nBefore='' @ bl_nBefore b) @ ''/'' @ (''nAfter='' @ bl_nAfter b) @ (''-'' @ bl_procs b) @ s0 @
      bl_n b @ s1 @ (bl_execTime b @ '' ns/op'') @ s2 @
      ((bl_whole b @ ''.'' @ bl_fraction b) @ '' %unchangedEntries/op'') @ s3 @
      (bl_bytes b @ '' B/op'') @ s4 @ (bl_allocs b @ '' allocs/op''))
     ([] @ [] @ [bl_func b] @ [] @ [bl_prime b] @ [] @ [bl_nBefore b] @ [] @ [bl_nAfter b] @ [] @ [] @
      [] @ [] @ [bl_execTime b] @ [] @ [bl_whole b @ ''.'' @ bl_fraction b] @ [] @ [bl_bytes b] @ [] @ [bl_allocs b])"
    unfolding bm_regex_def
    by (intro piece_matches_append value_matches) (use assms blanks in \<open>simp_all add: bench_ok_def\<close>)
  then show ?thesis by (simp add: bench_text_def bench_values_def blanks)
qed

lemma bench_line_found:
  assumes "bench_ok b"
  shows "find_all bm_regex (bench_text b @ s) = bench_values b # find_all bm_regex s"
proof -
  obtain c t where t: "bench_text b = c # t" by (cases "bench_text b") (simp_all add: bench_text_def)
  have "match_pieces bm_regex (bench_text b @ s) = Some (bench_values b, s)"
    by (rule match_pieces_cut[OF bench_text_matches[OF assms] bm_regex_cut_off])
  then show ?thesis by (simp add: t)
qed

text \<open>Text between the lines: no line begins in it, since every line begins with a \<open>B\<close>.\<close>

lemma other_text_skipped:
  assumes "CHR ''B'' \<notin> set j"
  shows "find_all bm_regex (j @ s) = find_all bm_regex s"
  using assms
proof (induction j)
  case (Cons c j)
  have "c \<noteq> CHR ''B''" using Cons.prems by auto
  then have "match_pieces bm_regex (c # j @ s) = None" by (simp add: bm_regex_def bmLupTableRegex_def)
  then show ?case using Cons by simp
qed simp

lemma log_found:
  assumes "\<forall>(j, b) \<in> set lines. CHR ''B'' \<notin> set j \<and> bench_ok b" and "CHR ''B'' \<notin> set after"
  shows "find_all bm_regex (concat (map (\<lambda>(j, b). j @ bench_text b) lines) @ after) = map (bench_values \<circ> snd) lines"
  using assms
proof (induction lines)
  case Nil
  then show ?case using other_text_skipped[of after "[]"] by simp
next
  case (Cons l lines)
  obtain j b where "l = (j, b)" by fastforce
  then show ?case using Cons by (simp add: other_text_skipped bench_line_found)
qed

text \<open>
  C37. The tool reads back what the benchmark prints: for a log with at least one benchmark line,
  whatever other text without a capital \<open>B\<close> stands between, before and after the lines, it prints the
  header and then, for every line in order, its eight values separated by commas, and succeeds.
\<close>

theorem benchmark_log_roundtrip:
  assumes "files path = Some (concat (map (\<lambda>(j, b). j @ bench_text b) lines) @ after)" and "lines \<noteq> []"
    and "\<forall>(j, b) \<in> set lines. CHR ''B'' \<notin> set j \<and> bench_ok b" and "CHR ''B'' \<notin> set after"
  shows "parse_main [prog, path] files = Inr (csv_header @ concat (map (csv_row \<circ> bench_values \<circ> snd) lines), 0)"
  using log_found[OF assms(3,4)] assms(1,2) by (simp add: parse_main_def Let_def comp_assoc)

definition example_line :: bench_line where
  "example_line = \<lparr>bl_func = ''RobustSimple'', bl_prime = ''65497'', bl_nBefore = ''255'', bl_nAfter = ''299'',
     bl_procs = ''16'', bl_n = ''10'', bl_execTime = ''298616768'', bl_whole = ''59'', bl_fraction = ''91'',
     bl_bytes = ''16534052'', bl_allocs = ''132515'', bl_blanks = ['' '', '' '', '' '', [CHR 0x09], ''  '']\<rparr>"

theorem benchmark_log_roundtrip_witness:
  "parse_main [''parse'', ''log''] (\<lambda>_. Some (''goos: linux'' @ newline @ bench_text example_line @ newline @ ''PASS'' @ newline)) =
     Inr (csv_header @ ''RobustSimple,65497,255,299,298616768,59.91,16534052,132515'' @ newline, 0)"
proof -
  have "bench_ok example_line"
    by (simp add: bench_ok_def example_line_def number_def is_digit_def is_letter_def is_blank_def char_in_def)
  then show ?thesis
    using benchmark_log_roundtrip[of "\<lambda>_. Some (''goos: linux'' @ newline @ bench_text example_line @ newline @ ''PASS'' @ newline)"
        "''log''" "[(''goos: linux'' @ newline, example_line)]" "newline @ ''PASS'' @ newline" "''parse''"]
    by (simp add: newline_def) (simp add: bench_values_def example_line_def newline_def)
qed

end
