(* ===== verification/Spec2Isabelle.thy ===== *)
theory Spec2Isabelle
  imports Robust_Lookup_Table Dvds Control_Shutdown Mux_Steps Send_Loop Linked_List Xdp
    Api_Validation Testenv_Config Test_Harness Benchmark_Parser
begin

text \<open>
  UDPLB: a layer-2 load balancer for UDP sessions, verified beside its sources.

  \<^bold>\<open>The program.\<close> Datagrams carry a prefix and a session identifier. On every load balancer an XDP
  program in the kernel looks a session up in a map, or hashes it into a lookup table, and rewrites
  the frame for the backend it finds. User space keeps the maps of the kernel: the controller builds
  the backends of the configuration, a monitor probes them, and whenever the health of a backend
  changes the controller recomputes the lookup table, remaps the sessions it knows and hands all
  three objects to the manager of the BPF data structures. New sessions come back through a ring
  buffer. Around it stand a write-ahead log with replicated state machines, a cluster layer, the
  concurrent helpers they share, a traffic generator, an echo backend and the harness of the tests.

  \<^bold>\<open>Conventions.\<close> A run-time panic is \<open>Inl\<close> of \<open>go_panic\<close>; a Go error is a value of \<open>go_error\<close>, nil is
  \<open>None\<close>; a call that never returns is \<open>None\<close> of type \<open>comp\<close>. Words keep their width; \<open>uint32\<close> counters
  of the lookup tables are natural numbers with the wrap-around written out. The order of a Go map
  and the choice of a \<open>select\<close> are arguments. Code outside the repository (\<open>ebpfstruct\<close>, \<open>uuid\<close>, JSON,
  SHA-256, sockets, the checksum helper of the kernel) is an argument too, with what is relied on
  stated as a predicate (\<open>double_buffered\<close>, \<open>ones_complement_sum\<close>) and a concrete instance of it.

  \<^bold>\<open>The theories.\<close>
  \<^item> \<open>Prelude\<close>: panics, checked slices, panicking and diverging loops with their invariant rules,
    unsigned arithmetic, map orders, and the contract of goroutines that wind down (locale
    \<open>winding_down\<close>, interpreted for the worker pool, the dispatches of a multiplexer, the event loop of
    the manager, the loops of the controller and the send loop).
  \<^item> \<open>Core_Types\<close> (\<open>internal/types\<close>): backends, states (a linear order), errors, identifiers and bytes.
  \<^item> \<open>Lookup_Table\<close>, \<open>Robust_Lookup_Table\<close> (\<open>internal/adapter/rlt\<close>): the six tables. Shown: totality and
    the range of the entries, fairness, equality of the naive Fibonacci table with the simple one,
    what does not depend on the map order and what does, and where the probe never ends.
  \<^item> \<open>Ring_Buffer\<close>, \<open>Linked_List\<close>, \<open>Watcher_Mux\<close>, \<open>Worker_Pool\<close> (\<open>internal/util\<close>): refinement of a bounded
    queue that drops its oldest element (locale \<open>drop_oldest_queue\<close>), the last elements of a capped list,
    delivery and cancellation, every submitted job runs once and a closed pool comes to its end; and
    the panics of closed channels.
  \<^item> \<open>Mux_Steps\<close> (\<open>watchermux.go\<close>): dispatches in flight from several goroutines, with watchers that come,
    receive and go. Shown: no panic, no endless wait and no value twice as long as a watcher is only
    cancelled between dispatches; the panic otherwise, and that dispatches overtake each other.
  \<^item> \<open>Net_Util\<close> (\<open>internal/util/net.go\<close>): addresses, with a model of the parsers of the \<open>net\<close> package.
  \<^item> \<open>Lifecycle\<close>: the contract of \<open>Run\<close> and \<open>Close\<close> (locale \<open>runnable\<close>), interpreted for the log, the two
    monitors and the cluster multiplexer.
  \<^item> \<open>State_Machines\<close> (\<open>internal/adapter/statemachine\<close>): array, counter, map and set behind one interface
    (locales \<open>state_machine\<close> and \<open>forkable_machine\<close>).
  \<^item> \<open>Wal\<close>, \<open>Dvds\<close> (\<open>internal/adapter/wal\<close>, \<open>internal/controller/dvds\<close>): commands reach the state machine in
    the order of the proposals, some may be lost, none is doubled.
  \<^item> \<open>Bpf_Manager\<close> (\<open>internal/adapter/bpf\<close>): events, the translation of backends, and that a set of the three
    objects is all or nothing.
  \<^item> \<open>Event_Loop\<close>, \<open>Event_Loop_Refinement\<close>, \<open>Event_Loop_Progress\<close> (\<open>eventLoop\<close>, \<open>await\<close> and \<open>Close\<close> of \<open>manager.go\<close>): the loop, its
    workers, its callers and \<open>Close\<close> as goroutines that interleave. Shown: the calls have the results of
    calls made one after the other, which is how the other theories treat them (\<open>mgr_submit\<close>); the XDP
    program reads the objects of the last set that succeeded; no call hangs, and a closed manager ends;
    the panic of a call that \<open>Close\<close> overtakes, and an aborted call that took effect.
  \<^item> \<open>Monitor\<close>, \<open>Controller\<close>: probes, recomputation and session affinity, startup and shutdown.
  \<^item> \<open>Entry_Point\<close> (\<open>cmd/udplb\<close>, \<open>GetConfig\<close>): the program from its arguments to its end. Shown: the invariant
    of the controller under every event, and that a program with a usable configuration neither panics
    nor hangs until it is told to stop.
  \<^item> \<open>Control_Loops\<close>, \<open>Control_Progress\<close>, \<open>Control_Shutdown\<close> (\<open>Run\<close>, \<open>healthLoop\<close> and \<open>assignmentLoop\<close> of
    \<open>controller.go\<close>): the goroutines of the controller under its mutex, composed with those of the event
    loop (the record \<open>system\<close> holds both). Shown: they have the effect of the events of \<open>Entry_Point\<close> one
    after the other; they never wait for each other in a circle, and when they rest the kernel agrees
    with the health monitor; after the signal they end, or panic if an event was on offer.
  \<^item> \<open>Cluster\<close>, \<open>Send_Loop\<close> (\<open>internal/adapter/cluster\<close>): peers, typed messages, life cycle; the goroutines
    of the send loop implement a sequential sender (\<open>send_all\<close>), lose nothing and end.
  \<^item> \<open>Datagram\<close> (\<open>cmd/udplb-traffic-gen\<close>, \<open>cmd/udplb-echo-backend\<close>): the format at both ends, the counts,
    the rotation of the generator, the final report of the echo backend.
  \<^item> \<open>Xdp\<close> (\<open>udplb_kern.c\<close>, \<open>udplb_kern_helpers.c\<close>): which packets are balanced, where they go, that the
    rewritten frame is valid, that no frame is sent twice, and the affinity of sessions.
  \<^item> \<open>Api_Validation\<close> (\<open>pkg/apis/common/v1alpha1\<close>), \<open>Testenv_Config\<close> (\<open>pkg/test/e2e\<close>), \<open>Test_Harness\<close>
    (\<open>cmd/udplb_test\<close>): which messages are valid, the configuration of the end-to-end tests and its
    virtual address, the network that the harness builds and its run.
  \<^item> \<open>Benchmark_Parser\<close> (\<open>analysis/rlt/cmd/parse\<close>): the converter of benchmark logs. Shown: its matcher is exact
    for the regular expression of the source, and it reads back what the benchmark prints.
  \<^item> This theory joins the control plane with the data plane, the resting goroutines with the packets
    on the wire, and the monitor with the echo backend.

  \<^bold>\<open>Loops.\<close> Loops over indices are folds; \<open>rct_loop\<close> ends because the primes decrease; the loops of the
  other tables that may run forever are partial functions into \<open>option\<close>, and the totality theorems
  state when they return. No definition uses fuel.

  \<^bold>\<open>Not modelled.\<close> Sockets, timers and printing, and with them the goroutines of the test run that
  only log, and \<open>TraceBPF\<close>; generated code and mocks. Concurrency is modelled where the code depends on
  it: as step relations for the ring buffer, the worker pool, the multiplexer, the event loop of the
  manager, the loops of the controller, the log pipeline and the cluster with its send loop, and
  elsewhere as the atomic sections that the mutexes make. In the event loop a job of a worker pool runs
  when it is taken, so the dispatches of the three watch workers are atomic there; \<open>Mux_Steps\<close> has what
  their overlap adds. The contents of a session map that the kernel itself changes between two updates
  are those of \<open>Xdp\<close>; the manager does not read them.
\<close>

section \<open>The control plane and the data plane together\<close>

lemma recompute_routes:
  assumes "double_buffered ptr side objs" and "ct_ready c" and "is_map_order ord"
    and "filterAvailable (ct_backends c) \<noteq> []" and "0 < ct_lookupTableSize c"
    and "recomputeAndApply LittleEndian objs ord c = Some (Inr (None, c'))"
    and "reads m (active ptr side (mgr_kernel (ct_bpfMgr c')))"
    and "uc_LookupTableSize config = ct_lookupTableSize c" and "eligible config p"
  shows "\<exists>b \<in> set (filterAvailable (ct_backends c)). \<exists>spec m'.
           transformBackend LittleEndian b = Inr spec \<and>
           udplb f config r w p m = (XDP_TX, rewrite_packet f config spec (ttl_decremented p), m') \<and>
           (\<forall>i. ct_sessionMap c (session_of p) = Some i \<and> i < length (ct_backends c) \<and>
                available (ct_backends c ! i) \<longrightarrow> b = ct_backends c ! i)"
proof -
  let ?K = "active ptr side (mgr_kernel (ct_bpfMgr c'))" and ?av = "filterAvailable (ct_backends c)"
  note K = recompute_kernel[OF assms(1-4,6), unfolded Let_def]
  obtain j where j: "j < length (eo_BackendList ?K)" "route config m (session_of p) = Some j"
    "lookup_elem (get_active_backend_list m) j = Some (eo_BackendList ?K ! j)"
    and kept: "\<forall>i. eo_SessionMap ?K (session_of p) = Some i \<longrightarrow> j = i"
    using reads_route[OF assms(7), of config "session_of p"] K assms(5,8) by auto
  have tr: "j < length ?av" "transformBackend LittleEndian (?av ! j) = Inr (eo_BackendList ?K ! j)"
    using transformBackendList_nth[of LittleEndian ?av "eo_BackendList ?K"] K j(1) by auto
  have "?av ! j = ct_backends c ! i" if "ct_sessionMap c (session_of p) = Some i"
    "i < length (ct_backends c)" "available (ct_backends c ! i)" for i
    using remapSessions_eq[OF assms(2) that(1)] that(2,3) K kept by auto
  then show ?thesis
    using udplb_forward[OF assms(9) j(2,3), of f r w] tr by (metis nth_mem)
qed



lemma shown_routes:
  assumes "shows_available LittleEndian ptr side c" and "filterAvailable (ct_backends c) \<noteq> []"
    and "0 < ct_lookupTableSize c" and "reads m (active ptr side (mgr_kernel (ct_bpfMgr c)))"
    and "uc_LookupTableSize config = ct_lookupTableSize c" and "eligible config p"
  shows "\<exists>b \<in> set (filterAvailable (ct_backends c)). \<exists>spec m'.
           transformBackend LittleEndian b = Inr spec \<and>
           udplb f config r w p m = (XDP_TX, rewrite_packet f config spec (ttl_decremented p), m')"
proof -
  let ?K = "active ptr side (mgr_kernel (ct_bpfMgr c))" and ?av = "filterAvailable (ct_backends c)"
  have K: "transformBackendList LittleEndian ?av = Inr (eo_BackendList ?K)" "length (eo_LookupTable ?K) = ct_lookupTableSize c"
    "\<forall>x \<in> set (eo_LookupTable ?K). x < length (eo_BackendList ?K)"
    "\<forall>x j. eo_SessionMap ?K x = Some j \<longrightarrow> j < length (eo_BackendList ?K)"
    using assms(1,2) by (simp_all add: shows_available_def Let_def)
  obtain j where j: "j < length (eo_BackendList ?K)" "route config m (session_of p) = Some j"
    "lookup_elem (get_active_backend_list m) j = Some (eo_BackendList ?K ! j)"
    using reads_route[OF assms(4), of config "session_of p"] K assms(3,5) by auto
  have "j < length ?av" "transformBackend LittleEndian (?av ! j) = Inr (eo_BackendList ?K ! j)"
    using transformBackendList_nth[OF K(1)] j(1) by auto
  then show ?thesis using udplb_forward[OF assms(6) j(2,3), of f r w] by (metis nth_mem)
qed

text \<open>
  C1. From the probes to the wire. While nobody stops the program and the kernel accepts what it is
  given, in every reachable state in which no goroutine of the controller and of the manager can
  move, every eligible packet is rewritten and sent to a backend that is available according to
  the last entry the health monitor sent about it, if there is one.
\<close>

theorem packets_reach_healthy_backends:
  assumes "ct_ready c0" and "mgr_serving (ct_bpfMgr c0)" and "0 < ct_lookupTableSize c0"
    and "double_buffered ptr side objs" and "kernel_accepts objs"
    and "(sy_step LittleEndian objs)\<^sup>*\<^sup>* (control_loops c0) s" and "running s"
    and "\<nexists>s'. sy_turn LittleEndian objs s s'"
    and "bs = fold set_status (sy_entries s) (ct_backends c0)" and "filterAvailable bs \<noteq> []"
    and "reads m (active ptr side (el_kernel (sy_el s)))"
    and "uc_LookupTableSize config = ct_lookupTableSize c0" and "eligible config p"
  shows "\<exists>b \<in> set (filterAvailable bs). \<exists>spec m'.
           transformBackend LittleEndian b = Inr spec \<and>
           udplb f config r w p m = (XDP_TX, rewrite_packet f config spec (ttl_decremented p), m')"
proof -
  have inv: "sy_inv LittleEndian objs c0 s" by (rule sy_reachable_inv[OF assms(1,2,6)])
  have idle: "idle s" by (rule running_stuck[OF inv assms(7) running_not_crashed[OF inv assms(6,7)] assms(8)])
  then have settled: "ct_backends (settled objs s) = ct_backends (sy_ct s)"
    "ct_lookupTableSize (settled objs s) = ct_lookupTableSize (sy_ct s)"
    "mgr_kernel (ct_bpfMgr (settled objs s)) = el_kernel (sy_el s)"
    by (auto simp: settled_def idle_def)
  note follows = idle_follows[OF assms(4,5) _ inv running_not_done[OF inv assms(7)] idle]
  have "in_use c0" using assms(1,2) by (simp add: in_use_def)
  note follows[OF this]
  then show ?thesis
    using shown_routes[of ptr side "settled objs s" m config p f r w] assms(3,9-13) by (simp add: settled)
qed

theorem packets_reach_healthy_backends_witness:
  "\<exists>s. loops_step\<^sup>*\<^sup>* example_loops s \<and> sy_entries s = [backend_2_down] \<and>
     (\<exists>b \<in> {backend_1, backend_3}. \<exists>spec m'. transformBackend LittleEndian b = Inr spec \<and>
        udplb folded_sum example_config True True example_frame (maps_of (active fst side_of (el_kernel (sy_el s)))) =
          (XDP_TX, rewrite_packet folded_sum example_config spec (ttl_decremented example_frame), m'))"
proof -
  obtain s where s: "loops_step\<^sup>*\<^sup>* example_loops s" "\<nexists>s'. sy_turn LittleEndian two_copies s s'" "running s"
    "sy_entries s = [backend_2_down]"
    by (rule example_entry_reaches)
  have bs: "fold set_status (sy_entries s) (ct_backends example_controller) =
      [backend_1, backend_2\<lparr>be_Status := StateUnavailable\<rparr>, backend_3]"
    by (simp add: s(4) example_controller_def example_set_status(1))
  have av: "filterAvailable (fold set_status (sy_entries s) (ct_backends example_controller)) = [backend_1, backend_3]"
    by (simp only: bs example_set_status(2))
  have size: "0 < ct_lookupTableSize example_controller"
    "uc_LookupTableSize example_config = ct_lookupTableSize example_controller"
    by (simp_all add: example_controller_def example_config_def)
  have "filterAvailable (fold set_status (sy_entries s) (ct_backends example_controller)) \<noteq> []" by (simp only: av) simp
  from packets_reach_healthy_backends[OF example_loops_ok size(1) two_copies_buffered two_copies_accept s(1,3,2) refl this
      reads_maps_of size(2) example_eligible, of folded_sum True True]
  show ?thesis using s(1,4) unfolding av by auto
qed

lemma on_assignment_known:
  assumes "ct_ready c" and "i < length (ct_backends c)"
  shows "ct_on_assignment \<lparr>BackendId = be_Id (ct_backends c ! i), SessionId = s\<rparr> c =
           c\<lparr>ct_sessionMap := (ct_sessionMap c)(s \<mapsto> i)\<rparr>"
proof -
  have "distinct (map be_Id (ct_backends c))" "u32_of i = i"
    using assms by (auto simp: ct_ready_def u32_of_def)
  then show ?thesis using find_backend[of "ct_backends c" i] assms(2) by (simp add: ct_on_assignment_def)
qed

text \<open>
  C8. An assignment that the kernel reported survives the next update: once the controller has seen
  that a session went to a backend, and as long as that backend is available, a successful
  recomputation leaves the kernel such that every eligible packet of the session is sent to the
  same backend.
\<close>

theorem assignment_is_honoured:
  assumes "double_buffered ptr side objs" and "ct_ready c" and "is_map_order ord"
    and "0 < ct_lookupTableSize c" and "i < length (ct_backends c)" and "available (ct_backends c ! i)"
    and "c1 = ct_on_assignment \<lparr>BackendId = be_Id (ct_backends c ! i), SessionId = session_of p\<rparr> c"
    and "recomputeAndApply LittleEndian objs ord c1 = Some (Inr (None, c'))"
    and "reads m (active ptr side (mgr_kernel (ct_bpfMgr c')))"
    and "uc_LookupTableSize config = ct_lookupTableSize c" and "eligible config p"
  shows "\<exists>spec m'. transformBackend LittleEndian (ct_backends c ! i) = Inr spec \<and>
           udplb f config r w p m = (XDP_TX, rewrite_packet f config spec (ttl_decremented p), m')"
proof -
  have c1: "c1 = c\<lparr>ct_sessionMap := (ct_sessionMap c)(session_of p \<mapsto> i)\<rparr>"
    using on_assignment_known[OF assms(2,5)] assms(7) by simp
  have ready: "ct_ready c1" using assms(2) c1 by (simp add: ct_ready_def)
  have ne: "filterAvailable (ct_backends c1) \<noteq> []"
    using nth_mem[OF assms(5)] assms(6) by (auto simp: c1 filterAvailable_def filter_empty_conv)
  have size: "0 < ct_lookupTableSize c1" "uc_LookupTableSize config = ct_lookupTableSize c1"
    using assms(4,10) by (simp_all add: c1)
  have "ct_sessionMap c1 (session_of p) = Some i" "ct_backends c1 = ct_backends c" by (simp_all add: c1)
  then show ?thesis
    using recompute_routes[OF assms(1) ready assms(3) ne size(1) assms(8,9) size(2) assms(11), of f r w] assms(5,6)
    by auto
qed

theorem assignment_is_honoured_witness:
  "\<exists>c' spec m'. recomputeAndApply LittleEndian two_copies rev
       (ct_on_assignment \<lparr>BackendId = be_Id backend_2, SessionId = session_of example_frame\<rparr> example_controller) =
         Some (Inr (None, c')) \<and>
     transformBackend LittleEndian backend_2 = Inr spec \<and>
     udplb folded_sum example_config False False example_frame
       (maps_of (active fst side_of (mgr_kernel (ct_bpfMgr c')))) =
     (XDP_TX, rewrite_packet folded_sum example_config spec (ttl_decremented example_frame), m')"
proof -
  let ?a = "\<lparr>BackendId = be_Id (ct_backends example_controller ! 1), SessionId = session_of example_frame\<rparr>"
  have ex: "1 < length (ct_backends example_controller)" "ct_backends example_controller ! 1 = backend_2"
    "0 < ct_lookupTableSize example_controller" "uc_LookupTableSize example_config = ct_lookupTableSize example_controller"
    by (simp_all add: example_controller_def example_config_def)
  have c1: "ct_on_assignment ?a example_controller =
      example_controller\<lparr>ct_sessionMap := (ct_sessionMap example_controller)(session_of example_frame \<mapsto> 1)\<rparr>"
    by (rule on_assignment_known[OF example_ready ex(1)])
  have "ct_ready (ct_on_assignment ?a example_controller)"
    unfolding c1 using example_ready by (simp add: ct_ready_def)
  moreover have "filterAvailable (ct_backends (ct_on_assignment ?a example_controller)) \<noteq> []"
    unfolding c1 by simp
  ultimately obtain c' where c': "recomputeAndApply LittleEndian two_copies rev
      (ct_on_assignment ?a example_controller) = Some (Inr (None, c'))"
    using recompute_two_copies[OF _ map_order_rev] by blast
  have "available (ct_backends example_controller ! 1)" using ex(2) by simp
  from assignment_is_honoured[OF two_copies_buffered example_ready map_order_rev ex(3) ex(1) this refl c'
      reads_maps_of ex(4) example_eligible, of folded_sum False False]
  show ?thesis using c' unfolding ex(2) by blast
qed

section \<open>Health probes and the echo backend\<close>

text \<open>
  The health monitor and the echo backend agree: the probe is a datagram the echo backend
  accepts and returns unchanged, so a backend that echoes is reported available; every probe is
  also counted as a datagram of the session with the zero identifier.
\<close>

theorem probe_is_echoed:
  assumes "env_dial (net spec) = None" and "env_deadline (net spec) = None"
    and "env_write (net spec) probePayload = None"
    and "\<And>s echoed. (a, probePayload) \<in> set (snd (echo_receive (Inr (probePayload, Some a)) (s, echoed))) \<Longrightarrow>
           env_read (net spec) probePayload = None"
  shows "probe net spec = StateAvailable \<and>
         echo_receive (Inr (probePayload, Some a)) (s, echoed) =
           (Record 0 (Some a) s, echoed @ [(a, probePayload)])"
proof -
  have "ParsePacket probePayload = (0, True)" by code_simp
  then have echo: "echo_receive (Inr (probePayload, Some a)) (s, echoed) =
      (Record 0 (Some a) s, echoed @ [(a, probePayload)])" for s echoed
    by (simp add: echo_receive_def)
  have "env_read (net spec) probePayload = None"
    by (rule assms(4)[of s echoed]) (simp add: echo)
  then show ?thesis using assms(1-3) echo by (simp add: probe_def)
qed

theorem probe_is_echoed_witness:
  "probe (\<lambda>_. answering) (spec_on 9000) = StateAvailable"
  using probe_is_echoed[of "\<lambda>_. answering" "spec_on 9000" "(''10.0.0.1'', 5)" NewStats "[]"]
  by (simp add: answering_def)

end
